(* ===== verification/Prelude.thy ===== *)
theory Prelude
  imports Main "HOL-Library.Word" "HOL-Library.Signed_Division"
begin

text \<open>
  What the components share: the ways a C function can fail, the result type of a fallible
  computation with its sequencing operator, C's \<open>int\<close> and \<open>long\<close> arithmetic
  with the undefined cases as errors, and generic lemmas on lists. A computation is
  \<open>Inl e\<close> where the C program exits or its behaviour is undefined, and
  \<open>Inr x\<close> where it goes on with \<open>x\<close>.
\<close>

named_theorems c_simps "evaluation of the C arithmetic where no error occurs"

section \<open>Errors and results\<close>

datatype c_error =
    Overflow            \<comment> \<open>signed overflow of an int or long expression\<close>
  | DivByZero
  | NullDeref           \<comment> \<open>a NULL pointer is dereferenced or given to strlen or strcmp\<close>
  | OutOfBounds         \<comment> \<open>an array access outside its allocated length\<close>
  | Uninitialised       \<comment> \<open>a variable is read that was never written\<close>
  | BufferOverflow      \<comment> \<open>a string is stored into a char array that is too short\<close>
  | ExitCode int        \<comment> \<open>the process ends in exit\<close>
  | OutOfFuel           \<comment> \<open>a loop was cut off; shown never to happen where it matters\<close>

type_synonym 'a res = "c_error + 'a"

definition bind_r :: "'a res \<Rightarrow> ('a \<Rightarrow> 'b res) \<Rightarrow> 'b res" where
  "bind_r m f = (case m of Inl e \<Rightarrow> Inl e | Inr x \<Rightarrow> f x)"

lemma bind_r_simps [simp]:
  "bind_r (Inl e) f = Inl e"
  "bind_r (Inr x) f = f x"
  by (simp_all add: bind_r_def)

lemma bind_r_cong [fundef_cong]:
  "m = m' \<Longrightarrow> (\<And>x. m' = Inr x \<Longrightarrow> f x = g x) \<Longrightarrow> bind_r m f = bind_r m' g"
  by (cases m') auto

lemma bind_r_eq_Inr [simp]:
  "bind_r m f = Inr y \<longleftrightarrow> (\<exists>x. m = Inr x \<and> f x = Inr y)"
  by (cases m) auto

lemma bind_r_eq_Inl:
  "bind_r m f = Inl e \<longleftrightarrow> m = Inl e \<or> (\<exists>x. m = Inr x \<and> f x = Inl e)"
  by (cases m) auto

lemma bind_r_assoc: "bind_r (bind_r m f) g = bind_r m (\<lambda>x. bind_r (f x) g)"
  by (cases m) auto

text \<open>A result is a success.\<close>

definition is_ok :: "'a res \<Rightarrow> bool" where
  "is_ok m = (case m of Inl _ \<Rightarrow> False | Inr _ \<Rightarrow> True)"

lemma is_ok_simps [simp]: "is_ok (Inr x)" "\<not> is_ok (Inl e)"
  by (simp_all add: is_ok_def)

lemma is_okE: "is_ok m \<Longrightarrow> (\<And>x. m = Inr x \<Longrightarrow> P) \<Longrightarrow> P"
  by (cases m) auto

text \<open>Reading and writing an array cell: outside its length the access is undefined.\<close>

definition arr_get :: "'a list \<Rightarrow> int \<Rightarrow> 'a res" where
  "arr_get xs i = (if 0 \<le> i \<and> i < int (length xs) then Inr (xs ! nat i) else Inl OutOfBounds)"

definition arr_set :: "'a list \<Rightarrow> int \<Rightarrow> 'a \<Rightarrow> 'a list res" where
  "arr_set xs i v =
     (if 0 \<le> i \<and> i < int (length xs) then Inr (xs[nat i := v]) else Inl OutOfBounds)"

lemma arr_get_nat [simp]: "i < length xs \<Longrightarrow> arr_get xs (int i) = Inr (xs ! i)"
  by (simp add: arr_get_def)

lemma arr_set_nat [simp]: "i < length xs \<Longrightarrow> arr_set xs (int i) v = Inr (xs[i := v])"
  by (simp add: arr_set_def)

lemma arr_get_Inr: "arr_get xs i = Inr v \<Longrightarrow> 0 \<le> i \<and> i < int (length xs) \<and> v = xs ! nat i"
  by (auto simp: arr_get_def split: if_splits)

lemma arr_set_Inr:
  "arr_set xs i v = Inr ys \<Longrightarrow> 0 \<le> i \<and> i < int (length xs) \<and> ys = xs[nat i := v]"
  by (auto simp: arr_set_def split: if_splits)

section \<open>C integers\<close>

text \<open>
  The program's int and long values are HOL integers; an expression whose value leaves the
  type's range is undefined behaviour in C and an error here. \<open>c_div\<close> truncates
  towards zero.
\<close>

abbreviation int_max :: int where "int_max \<equiv> 2147483647"

abbreviation int_min :: int where "int_min \<equiv> -2147483648"

abbreviation long_max :: int where "long_max \<equiv> 9223372036854775807"

abbreviation long_min :: int where "long_min \<equiv> -9223372036854775808"

definition c_int :: "int \<Rightarrow> int res" where
  "c_int x = (if int_min \<le> x \<and> x \<le> int_max then Inr x else Inl Overflow)"

definition c_long :: "int \<Rightarrow> int res" where
  "c_long x = (if long_min \<le> x \<and> x \<le> long_max then Inr x else Inl Overflow)"

definition c_div :: "int \<Rightarrow> int \<Rightarrow> int res" where
  "c_div a b = (if b = 0 then Inl DivByZero else c_int (a sdiv b))"

lemma c_int_ok [c_simps]: "int_min \<le> x \<Longrightarrow> x \<le> int_max \<Longrightarrow> c_int x = Inr x"
  by (simp add: c_int_def)

lemma c_int_Inr: "c_int x = Inr y \<Longrightarrow> y = x \<and> int_min \<le> x \<and> x \<le> int_max"
  by (auto simp: c_int_def split: if_splits)

lemma c_long_ok [c_simps]: "long_min \<le> x \<Longrightarrow> x \<le> long_max \<Longrightarrow> c_long x = Inr x"
  by (simp add: c_long_def)

lemma sdiv_nonneg: "0 \<le> a \<Longrightarrow> 0 < b \<Longrightarrow> a sdiv b = a div (b::int)"
  by (cases "a = 0") (auto simp: signed_divide_int_def)

lemma sdiv_minus_one: "0 < b \<Longrightarrow> (-1) sdiv b = (if b = 1 then -1 else (0::int))"
  by (auto simp: signed_divide_int_def)

lemma c_div_nonneg [c_simps]:
  assumes "0 \<le> a" "a \<le> int_max" "0 < b"
  shows "c_div a b = Inr (a div b)"
proof -
  have "a div b \<le> a"
    using assms by (cases "b = 1") (auto simp: int_div_less_self order_less_imp_le dest: order_le_imp_less_or_eq)
  moreover have "0 \<le> a div b"
    using assms by (simp add: pos_imp_zdiv_nonneg_iff)
  ultimately show ?thesis
    using assms by (auto simp: c_div_def sdiv_nonneg c_int_def)
qed

end
