(* ===== verification/Doubles.thy ===== *)
theory Doubles
  imports Prelude
begin

text \<open>
  C's double: IEEE 754 binary64 values as their 64-bit patterns. A finite value is an integer
  multiple of 2 to the power -1074, so that it is decoded to an integer (\<open>dbl_val\<close>) and
  every operation is exact on integers, followed by one rounding to the nearest pattern, ties to
  even (\<open>dbl_round\<close>). The operations are those the program uses: addition and
  comparison (the COD code on fields that are declared "float"), conversion of a long and
  division (the average of final_result).

  The lemmas show what the patterns below \<open>2 ^ 53\<close> have in common with integers: they are
  their own decoding, so adding and comparing them as doubles adds and compares them as
  integers; and that the pattern of a small negative long is not a number.
\<close>

type_synonym double = "64 word"

section \<open>Decoding\<close>

definition dbl_neg :: "double \<Rightarrow> bool" where
  "dbl_neg b \<longleftrightarrow> 2 ^ 63 \<le> unat b"

definition dbl_exp :: "double \<Rightarrow> nat" where
  "dbl_exp b = unat b div 2 ^ 52 mod 2 ^ 11"

definition dbl_frac :: "double \<Rightarrow> nat" where
  "dbl_frac b = unat b mod 2 ^ 52"

definition dbl_nan :: "double \<Rightarrow> bool" where
  "dbl_nan b \<longleftrightarrow> dbl_exp b = 2047 \<and> dbl_frac b \<noteq> 0"

definition dbl_inf :: "double \<Rightarrow> bool" where
  "dbl_inf b \<longleftrightarrow> dbl_exp b = 2047 \<and> dbl_frac b = 0"

text \<open>
  The magnitude in units of 2 to the power -1074. The pattern of infinity decodes to a number
  above every finite magnitude, so that comparisons need no case for it.
\<close>

definition dbl_mag :: "double \<Rightarrow> nat" where
  "dbl_mag b =
     (if dbl_exp b = 0 then dbl_frac b else (2 ^ 52 + dbl_frac b) * 2 ^ (dbl_exp b - 1))"

definition dbl_val :: "double \<Rightarrow> int" where
  "dbl_val b = (if dbl_neg b then - int (dbl_mag b) else int (dbl_mag b))"

section \<open>Rounding and encoding\<close>

text \<open>The integer nearest to \<open>n / d\<close>, the even one of two.\<close>

definition nearest_even :: "nat \<Rightarrow> nat \<Rightarrow> nat" where
  "nearest_even n d =
     (let q = n div d; r = n mod d
      in if 2 * r < d \<or> (2 * r = d \<and> even q) then q else q + 1)"

text \<open>How many binary places are dropped so that 53 remain.\<close>

fun dbl_shift :: "nat \<Rightarrow> nat" where
  "dbl_shift q = (if q < 2 ^ 53 then 0 else Suc (dbl_shift (q div 2)))"

declare dbl_shift.simps [simp del]

text \<open>
  The pattern (without sign) nearest to the magnitude \<open>n / d\<close>: with \<open>s\<close> places dropped
  and significand \<open>m\<close> it is \<open>s * 2 ^ 52 + m\<close>, in the subnormal range too, where
  \<open>s = 0\<close>; a significand that rounds up to \<open>2 ^ 53\<close> carries into the exponent by this
  sum. From the pattern of infinity on the result is infinity.
\<close>

definition dbl_inf_pattern :: nat where
  "dbl_inf_pattern = 2047 * 2 ^ 52"

definition dbl_round :: "nat \<Rightarrow> nat \<Rightarrow> nat" where
  "dbl_round n d =
     (let s = dbl_shift (n div d)
      in min (s * 2 ^ 52 + nearest_even n (d * 2 ^ s)) dbl_inf_pattern)"

definition dbl_pack :: "bool \<Rightarrow> nat \<Rightarrow> double" where
  "dbl_pack neg m = of_nat (if neg then 2 ^ 63 + m else m)"

definition dbl_NaN :: double where
  "dbl_NaN = of_nat (2047 * 2 ^ 52 + 2 ^ 51)"

section \<open>The operations\<close>

definition dbl_add :: "double \<Rightarrow> double \<Rightarrow> double" where
  "dbl_add a b =
     (if dbl_nan a \<or> dbl_nan b \<or> (dbl_inf a \<and> dbl_inf b \<and> dbl_neg a \<noteq> dbl_neg b) then dbl_NaN
      else if dbl_inf a then a
      else if dbl_inf b then b
      else let v = dbl_val a + dbl_val b
           in if v = 0 then dbl_pack (dbl_neg a \<and> dbl_neg b) 0
              else dbl_pack (v < 0) (dbl_round (nat \<bar>v\<bar>) 1))"

definition dbl_less :: "double \<Rightarrow> double \<Rightarrow> bool" where
  "dbl_less a b \<longleftrightarrow> \<not> dbl_nan a \<and> \<not> dbl_nan b \<and> dbl_val a < dbl_val b"

definition dbl_eq :: "double \<Rightarrow> double \<Rightarrow> bool" where
  "dbl_eq a b \<longleftrightarrow> \<not> dbl_nan a \<and> \<not> dbl_nan b \<and> dbl_val a = dbl_val b"

definition dbl_of_int :: "int \<Rightarrow> double" where
  "dbl_of_int x = dbl_pack (x < 0) (dbl_round (nat \<bar>x\<bar> * 2 ^ 1074) 1)"

definition dbl_div :: "double \<Rightarrow> double \<Rightarrow> double" where
  "dbl_div a b =
     (if dbl_nan a \<or> dbl_nan b \<or> (dbl_inf a \<and> dbl_inf b) \<or> (dbl_val a = 0 \<and> dbl_val b = 0)
      then dbl_NaN
      else if dbl_inf a \<or> dbl_val b = 0 then dbl_pack (dbl_neg a \<noteq> dbl_neg b) dbl_inf_pattern
      else if dbl_inf b then dbl_pack (dbl_neg a \<noteq> dbl_neg b) 0
      else dbl_pack (dbl_neg a \<noteq> dbl_neg b)
             (dbl_round (nat \<bar>dbl_val a\<bar> * 2 ^ 1074) (nat \<bar>dbl_val b\<bar>)))"

section \<open>Small patterns are integers\<close>

lemma nearest_even_1 [simp]: "nearest_even n (Suc 0) = n"
  by (simp add: nearest_even_def)

lemma dbl_shift_small: "q < 2 ^ 53 \<Longrightarrow> dbl_shift q = 0"
  by (simp add: dbl_shift.simps)

lemma dbl_round_small: "n < 2 ^ 53 \<Longrightarrow> dbl_round n (Suc 0) = n"
  by (simp add: dbl_round_def dbl_shift_small dbl_inf_pattern_def Let_def)

lemma dbl_small:
  assumes "unat b < 2 ^ 53"
  shows "dbl_val b = int (unat b)" "\<not> dbl_nan b" "\<not> dbl_inf b" "\<not> dbl_neg b"
proof -
  have e: "dbl_exp b = unat b div 2 ^ 52" "unat b div 2 ^ 52 < 2"
    using assms by (simp_all add: dbl_exp_def)
  show neg: "\<not> dbl_neg b" using assms by (simp add: dbl_neg_def)
  show "\<not> dbl_nan b" "\<not> dbl_inf b" using e by (simp_all add: dbl_nan_def dbl_inf_def)
  have "dbl_mag b = unat b"
  proof (cases "unat b < 2 ^ 52")
    case True
    then show ?thesis using e by (simp add: dbl_mag_def dbl_frac_def)
  next
    case False
    then have "unat b div 2 ^ 52 = 1" using e by simp
    then show ?thesis
      using e div_mult_mod_eq [of "unat b" "2 ^ 52"] by (simp add: dbl_mag_def dbl_frac_def)
  qed
  then show "dbl_val b = int (unat b)" using neg by (simp add: dbl_val_def)
qed

lemma dbl_add_small:
  assumes "unat a + unat b < 2 ^ 53"
  shows "dbl_add a b = a + b"
proof -
  have s: "unat a < 2 ^ 53" "unat b < 2 ^ 53" using assms by auto
  let ?v = "dbl_val a + dbl_val b"
  have v: "?v = int (unat a + unat b)"
    by (simp only: dbl_small(1) [OF s(1)] dbl_small(1) [OF s(2)] of_nat_add)
  have ab: "of_nat (unat a + unat b) = a + b" by simp
  show ?thesis
  proof (cases "unat a + unat b = 0")
    case True
    then have "?v = 0" using v by (simp only: of_nat_0)
    then show ?thesis
      using ab True dbl_small [OF s(1)] dbl_small [OF s(2)] by (simp add: dbl_add_def dbl_pack_def)
  next
    case False
    have "nat \<bar>?v\<bar> = unat a + unat b" by (simp only: v abs_of_nat nat_int)
    moreover have "\<not> ?v < 0" by (simp only: v)
    moreover have "?v \<noteq> 0" using False by (simp only: v of_nat_eq_0_iff) simp
    ultimately show ?thesis
      using ab assms dbl_small [OF s(1)] dbl_small [OF s(2)]
      by (simp add: dbl_add_def dbl_pack_def dbl_round_small Let_def)
  qed
qed

lemma dbl_less_small:
  "unat a < 2 ^ 53 \<Longrightarrow> unat b < 2 ^ 53 \<Longrightarrow> dbl_less a b \<longleftrightarrow> a < b"
  by (simp only: dbl_less_def dbl_small word_less_nat_alt of_nat_less_iff) simp

section \<open>Small negative longs are not numbers\<close>

lemma word64_minus: "k \<le> 2 ^ 64 \<Longrightarrow> - (of_nat k :: 64 word) = of_nat (2 ^ 64 - k)"
  by (simp add: of_nat_diff)

lemma dbl_nan_negative:
  assumes "0 < k" "k < 2 ^ 52"
  shows "dbl_nan (- of_nat k)"
proof -
  define j where "j = 2 ^ 52 - k"
  have j: "j < 2 ^ 52" "j \<noteq> 0" "2 ^ 64 - k = j + 4095 * 2 ^ 52"
    using assms by (simp_all add: j_def)
  have u: "unat (- of_nat k :: 64 word) = j + 4095 * 2 ^ 52"
    using assms(2) j(1) by (subst word64_minus) (simp, subst j(3), subst unat_of_nat, simp)
  have "unat (- of_nat k :: 64 word) div 2 ^ 52 = 4095"
    unfolding u using j(1) by (simp add: div_mult_self1 div_less)
  moreover have "unat (- of_nat k :: 64 word) mod 2 ^ 52 = j"
    unfolding u using j(1) by (simp only: mod_mult_self1 mod_less)
  ultimately show ?thesis using j(2) by (simp add: dbl_nan_def dbl_exp_def dbl_frac_def)
qed

lemma dbl_nan_not_less: "dbl_nan a \<or> dbl_nan b \<Longrightarrow> \<not> dbl_less a b"
  by (auto simp: dbl_less_def)

section \<open>Exact conversions and quotients\<close>

text \<open>A magnitude with a significand of 53 bits is encoded exactly.\<close>

lemma dbl_shift_normal:
  assumes "2 ^ 52 \<le> f" "f < 2 ^ 53"
  shows "dbl_shift (f * 2 ^ e) = e"
proof (induction e)
  case 0
  then show ?case using assms(2) by (simp add: dbl_shift_small)
next
  case (Suc e)
  have "(2 :: nat) ^ 53 \<le> f * 2 ^ Suc e"
  proof -
    have "(2 :: nat) ^ 53 = 2 ^ 52 * 2 ^ 1" by simp
    also have "\<dots> \<le> f * 2 ^ Suc e" using assms(1) by (intro mult_le_mono power_increasing) auto
    finally show ?thesis .
  qed
  moreover have "f * 2 ^ Suc e div 2 = f * 2 ^ e" by simp
  ultimately show ?case using Suc by (simp only: dbl_shift.simps [of "f * 2 ^ Suc e"] not_le [symmetric] if_False) simp
qed

lemma nearest_even_exact: "0 < d \<Longrightarrow> nearest_even (q * d) d = q"
  by (simp add: nearest_even_def)

lemma dbl_pack_exact:
  assumes "2 ^ 52 \<le> f" "f < 2 ^ 53" "e \<le> 2045" "0 < d"
  shows "dbl_val (dbl_pack False (dbl_round (f * 2 ^ e * d) d)) = int (f * 2 ^ e)"
    "\<not> dbl_nan (dbl_pack False (dbl_round (f * 2 ^ e * d) d))"
    "\<not> dbl_inf (dbl_pack False (dbl_round (f * 2 ^ e * d) d))"
    "\<not> dbl_neg (dbl_pack False (dbl_round (f * 2 ^ e * d) d))"
proof -
  define g where "g = f - 2 ^ 52"
  have g: "f = 2 ^ 52 + g" "g < 2 ^ 52" using assms(1,2) by (simp_all add: g_def)
  have sh: "dbl_shift (f * 2 ^ e * d div d) = e" using dbl_shift_normal [OF assms(1,2)] assms(4) by simp
  have ne: "nearest_even (f * 2 ^ e * d) (d * 2 ^ e) = f"
    using nearest_even_exact [of "d * 2 ^ e" f] assms(4) by (simp add: mult.assoc mult.commute [of d])
  have small: "e * 2 ^ 52 + f \<le> 2046 * 2 ^ 52 + (2 ^ 52 - 1)"
  proof -
    have "e * 2 ^ 52 \<le> 2045 * (2 :: nat) ^ 52" using assms(3) by (rule mult_le_mono1)
    then show ?thesis using assms(2) by simp
  qed
  then have r: "dbl_round (f * 2 ^ e * d) d = Suc e * 2 ^ 52 + g"
    unfolding dbl_round_def Let_def sh ne by (simp add: dbl_inf_pattern_def g(1))
  have lt: "Suc e * 2 ^ 52 + g < 2 ^ 63" using small g(1) by simp
  have u: "unat (dbl_pack False (dbl_round (f * 2 ^ e * d) d)) = Suc e * 2 ^ 52 + g"
    unfolding r dbl_pack_def using lt by (simp only: if_False unat_of_nat) simp
  have dm: "(Suc e * 2 ^ 52 + g) div 2 ^ 52 = Suc e" "(Suc e * 2 ^ 52 + g) mod 2 ^ 52 = g"
    using g(2) by (simp_all only: div_mult_self3 mod_mult_self3 div_less mod_less)
  have ex: "dbl_exp (dbl_pack False (dbl_round (f * 2 ^ e * d) d)) = Suc e"
    unfolding dbl_exp_def u dm(1) using assms(3) by simp
  have fr: "dbl_frac (dbl_pack False (dbl_round (f * 2 ^ e * d) d)) = g"
    unfolding dbl_frac_def u dm(2) ..
  show n: "\<not> dbl_neg (dbl_pack False (dbl_round (f * 2 ^ e * d) d))"
    unfolding dbl_neg_def u using lt by simp
  show "\<not> dbl_nan (dbl_pack False (dbl_round (f * 2 ^ e * d) d))"
    "\<not> dbl_inf (dbl_pack False (dbl_round (f * 2 ^ e * d) d))"
    using assms(3) by (simp_all add: dbl_nan_def dbl_inf_def ex)
  show "dbl_val (dbl_pack False (dbl_round (f * 2 ^ e * d) d)) = int (f * 2 ^ e)"
  proof -
    have "dbl_mag (dbl_pack False (dbl_round (f * 2 ^ e * d) d)) = f * 2 ^ e"
      unfolding dbl_mag_def ex fr by (simp add: g(1))
    then show ?thesis unfolding dbl_val_def using n by simp
  qed
qed

lemma normalise:
  fixes x :: nat
  assumes "0 < x" "x < 2 ^ 53"
  obtains f j where "2 ^ 52 \<le> f" "f < 2 ^ 53" "f = x * 2 ^ j" "j \<le> 52"
proof -
  have "\<exists>j. 2 ^ 52 \<le> x * 2 ^ j \<and> x * 2 ^ j < (2 :: nat) ^ 53"
    using assms
  proof (induction "2 ^ 53 - x" arbitrary: x rule: less_induct)
    case less
    show ?case
    proof (cases "2 ^ 52 \<le> x")
      case True
      then show ?thesis using less.prems by (intro exI [of _ 0]) simp
    next
      case False
      then have "2 ^ 53 - 2 * x < 2 ^ 53 - x" "0 < 2 * x" "2 * x < 2 ^ 53" using less.prems by auto
      then obtain j where "2 ^ 52 \<le> 2 * x * 2 ^ j \<and> 2 * x * 2 ^ j < (2 :: nat) ^ 53"
        using less.hyps by blast
      then show ?thesis by (intro exI [of _ "Suc j"]) (simp add: mult.assoc mult.left_commute)
    qed
  qed
  then obtain j where j: "2 ^ 52 \<le> x * 2 ^ j" "x * 2 ^ j < (2 :: nat) ^ 53" by blast
  have "(2 :: nat) ^ j \<le> x * 2 ^ j" using assms(1) by simp
  then have "(2 :: nat) ^ j < 2 ^ 53" using j(2) by (rule le_less_trans)
  then have "j < 53" by (simp only: power_strict_increasing_iff)
  then show ?thesis using that [OF j refl] by simp
qed

lemma dbl_round_quotient:
  assumes "0 < x" "x < 2 ^ 53" "52 \<le> N" "N \<le> 2045" "0 < d"
  shows "dbl_val (dbl_pack False (dbl_round (x * 2 ^ N * d) d)) = int (x * 2 ^ N)"
    "\<not> dbl_nan (dbl_pack False (dbl_round (x * 2 ^ N * d) d))"
    "\<not> dbl_inf (dbl_pack False (dbl_round (x * 2 ^ N * d) d))"
    "\<not> dbl_neg (dbl_pack False (dbl_round (x * 2 ^ N * d) d))"
proof -
  obtain f j where f: "2 ^ 52 \<le> f" "f < 2 ^ 53" "f = x * 2 ^ j" "j \<le> 52"
    using normalise [OF assms(1,2)] .
  have "j + (N - j) = N" using f(4) assms(3) by simp
  then have x: "x * 2 ^ N = f * 2 ^ (N - j)"
    unfolding f(3) by (metis mult.assoc power_add)
  show "dbl_val (dbl_pack False (dbl_round (x * 2 ^ N * d) d)) = int (x * 2 ^ N)"
    "\<not> dbl_nan (dbl_pack False (dbl_round (x * 2 ^ N * d) d))"
    "\<not> dbl_inf (dbl_pack False (dbl_round (x * 2 ^ N * d) d))"
    "\<not> dbl_neg (dbl_pack False (dbl_round (x * 2 ^ N * d) d))"
    unfolding x using dbl_pack_exact [OF f(1,2) _ assms(5), of "N - j"] assms(4) by auto
qed

text \<open>An integer of at most 53 bits is converted exactly, and an exact quotient of two is exact.\<close>

lemma dbl_of_small:
  assumes "0 < x" "x < 2 ^ 53"
  shows "dbl_val (dbl_of_int (int x)) = int (x * 2 ^ 1074)" "\<not> dbl_nan (dbl_of_int (int x))"
    "\<not> dbl_inf (dbl_of_int (int x))" "\<not> dbl_neg (dbl_of_int (int x))"
proof -
  have "dbl_of_int (int x) = dbl_pack False (dbl_round (x * 2 ^ 1074 * 1) 1)"
    unfolding dbl_of_int_def abs_of_nat nat_int mult_1_right by (simp only: of_nat_less_0_iff)
  then show "dbl_val (dbl_of_int (int x)) = int (x * 2 ^ 1074)" "\<not> dbl_nan (dbl_of_int (int x))"
    "\<not> dbl_inf (dbl_of_int (int x))" "\<not> dbl_neg (dbl_of_int (int x))"
    using dbl_round_quotient [OF assms, of 1074 1] by simp_all
qed

lemma dbl_of_zero:
  "dbl_of_int 0 = 0" "dbl_val 0 = 0" "\<not> dbl_nan 0" "\<not> dbl_inf 0" "\<not> dbl_neg 0"
  by (simp_all add: dbl_of_int_def dbl_pack_def dbl_round_def dbl_shift_small nearest_even_def
      dbl_val_def dbl_mag_def dbl_exp_def dbl_frac_def dbl_neg_def dbl_nan_def dbl_inf_def)

lemma dbl_div_exact:
  assumes "0 < n" "n < 2 ^ 53" "a * n < 2 ^ 53"
  shows "dbl_val (dbl_div (dbl_of_int (int (a * n))) (dbl_of_int (int n))) = int (a * 2 ^ 1074)"
proof (cases "a = 0")
  case True
  note y = dbl_of_small [OF assms(1,2)]
  let ?d = "nat \<bar>dbl_val (dbl_of_int (int n))\<bar>"
  have d: "dbl_val (dbl_of_int (int n)) \<noteq> 0" unfolding y(1) using assms(1) by simp
  then have "dbl_round 0 ?d = 0"
    by (simp add: dbl_round_def dbl_shift_small nearest_even_def)
  then have "dbl_div 0 (dbl_of_int (int n)) = 0"
    unfolding dbl_div_def using dbl_of_zero y(2-) d by (simp add: dbl_pack_def)
  then show ?thesis using True dbl_of_zero by simp
next
  case False
  then have an: "0 < a * n" "n \<le> a * n" "a \<le> a * n" using assms(1) by simp_all
  then have b: "n < 2 ^ 53" "a < 2 ^ 53" using assms(3) by linarith+
  note x = dbl_of_small [OF an(1) assms(3)] and y = dbl_of_small [OF assms(1) b(1)]
  let ?B = "2 ^ 1074 :: nat"
  have B: "0 < ?B" by simp
  have "dbl_div (dbl_of_int (int (a * n))) (dbl_of_int (int n)) =
      dbl_pack False (dbl_round (a * n * ?B * ?B) (n * ?B))"
    unfolding dbl_div_def x(1) y(1) using x(2-) y(2-) an(1) assms(1) B
    by (simp only: abs_of_nat nat_int mult_eq_0_iff of_nat_eq_0_iff) simp
  also have "a * n * ?B * ?B = a * ?B * (n * ?B)" by (simp only: ac_simps)
  finally show ?thesis using dbl_round_quotient(1) [of a 1074 "n * ?B"] False b(2) assms(1) B by simp
qed

end
