(* ===== verification/Messages.thy ===== *)
theory Messages
  imports Doubles
begin

text \<open>
  The events that travel up the tree (metrics_aggregator.h) and the FM field tables that describe
  them to EVPath (metrics_aggregator.c, with the table types of include/fm.h): the structs as
  records, the C layout of their members, the two field tables with the offsets that the FMOffset
  macro computes, and the arithmetic that follows from a field's declared type. The fields
  \<open>min\<close>, \<open>max\<close> and \<open>sum\<close> are C longs that the table declares as "float", so
  the COD code of cod.h adds and compares their bits as doubles (\<open>field_arith\<close>); the
  locale \<open>exact_arith\<close> says up to which bound an arithmetic agrees with the integers, and is
  interpreted on both.
\<close>

section \<open>The structs\<close>

type_synonym long = "64 word"

record aggregators =
  agg_min :: long
  agg_max :: long
  agg_sum :: long

record metrics =
  metrics_nr :: int
  gather_info :: "aggregators list"
  max_degree :: int
  update_file :: int
  parent_rank :: int
  nprocs :: int
  timestamp :: int
  quit :: int

text \<open>With BENCHMARKING the struct has one more member.\<close>

record metrics_bench = metrics +
  start_time :: double

text \<open>The start time of an event without one (\<open>data->start_time = -1\<close>).\<close>

definition no_start :: double where
  "no_start = dbl_of_int (-1)"

section \<open>C layout of the structs\<close>

datatype ctype = C_long | C_int | C_double | C_ptr

fun csize :: "ctype \<Rightarrow> int" where
  "csize C_long = 8"
| "csize C_int = 4"
| "csize C_double = 8"
| "csize C_ptr = 8"

definition align :: "int \<Rightarrow> ctype \<Rightarrow> int" where
  "align off t = (off + csize t - 1) div csize t * csize t"

fun layout :: "int \<Rightarrow> (string \<times> ctype) list \<Rightarrow> (string \<times> ctype \<times> int) list" where
  "layout off [] = []"
| "layout off ((name, t) # ms) = (name, t, align off t) # layout (align off t + csize t) ms"

text \<open>The size of a struct: the end of its last member, rounded up to 8 bytes.\<close>

definition struct_size :: "(string \<times> ctype) list \<Rightarrow> int" where
  "struct_size ms =
     (case rev (layout 0 ms) of [] \<Rightarrow> 0 | (_, t, off) # _ \<Rightarrow> (off + csize t + 7) div 8 * 8)"

definition aggregators_members :: "(string \<times> ctype) list" where
  "aggregators_members = [(''min'', C_long), (''max'', C_long), (''sum'', C_long)]"

definition metrics_members :: "bool \<Rightarrow> (string \<times> ctype) list" where
  "metrics_members benchmarking =
     [(''metrics_nr'', C_long), (''gather_info'', C_ptr), (''max_degree'', C_int),
      (''update_file'', C_int), (''parent_rank'', C_int), (''nprocs'', C_int),
      (''timestamp'', C_long), (''quit'', C_int)]
     @ (if benchmarking then [(''start_time'', C_double)] else [])"

text \<open>The macro FMOffset: the offset of a member in its struct.\<close>

definition FMOffset :: "(string \<times> ctype) list \<Rightarrow> string \<Rightarrow> int" where
  "FMOffset ms name =
     (case map_of (layout 0 ms) name of None \<Rightarrow> -1 | Some (_, off) \<Rightarrow> off)"

section \<open>The field tables\<close>

record FMField =
  field_name :: string
  field_type :: string
  field_size :: int
  field_offset :: int

abbreviation fm_field :: "string \<Rightarrow> string \<Rightarrow> int \<Rightarrow> int \<Rightarrow> FMField" where
  "fm_field n t s off \<equiv> \<lparr>field_name = n, field_type = t, field_size = s, field_offset = off\<rparr>"

definition aggregators_field_list :: "FMField list" where
  "aggregators_field_list =
     [fm_field ''min'' ''float'' (csize C_long) (FMOffset aggregators_members ''min''),
      fm_field ''max'' ''float'' (csize C_long) (FMOffset aggregators_members ''max''),
      fm_field ''sum'' ''float'' (csize C_long) (FMOffset aggregators_members ''sum'')]"

definition metrics_field_list :: "bool \<Rightarrow> FMField list" where
  "metrics_field_list benchmarking =
     (let off = FMOffset (metrics_members benchmarking) in
     [fm_field ''metrics_nr'' ''integer'' (csize C_long) (off ''metrics_nr''),
      fm_field ''gather_info'' ''aggregators_t[metrics_nr]'' (struct_size aggregators_members)
        (off ''gather_info''),
      fm_field ''max_degree'' ''integer'' (csize C_int) (off ''max_degree''),
      fm_field ''update_file'' ''integer'' (csize C_int) (off ''update_file''),
      fm_field ''parent_rank'' ''integer'' (csize C_int) (off ''parent_rank''),
      fm_field ''nprocs'' ''integer'' (csize C_int) (off ''nprocs''),
      fm_field ''timestamp'' ''integer'' (csize C_long) (off ''timestamp''),
      fm_field ''quit'' ''integer'' (csize C_int) (off ''quit'')]
     @ (if benchmarking
        then [fm_field ''start_time'' ''float'' (csize C_long) (off ''start_time'')] else []))"

record FMStructDescRec =
  format_name :: string
  field_list :: "FMField list"
  struct_bytes :: int

definition metrics_format_list :: "bool \<Rightarrow> FMStructDescRec list" where
  "metrics_format_list benchmarking =
     [\<lparr>format_name = ''metrics_t'', field_list = metrics_field_list benchmarking,
       struct_bytes = struct_size (metrics_members benchmarking)\<rparr>,
      \<lparr>format_name = ''aggregators_t'', field_list = aggregators_field_list,
       struct_bytes = struct_size aggregators_members\<rparr>]"

definition queue_list :: "bool \<Rightarrow> FMStructDescRec list list" where
  "queue_list benchmarking = [metrics_format_list benchmarking]"

text \<open>The base types that a field type string can name.\<close>

datatype FMdata_type =
    unknown_type | integer_type | unsigned_type | float_type
  | char_type | string_type | enumeration_type | boolean_type

definition data_type :: "string \<Rightarrow> FMdata_type" where
  "data_type s =
     (if s = ''integer'' then integer_type
      else if s = ''unsigned integer'' then unsigned_type
      else if s = ''float'' then float_type
      else if s = ''char'' then char_type
      else if s = ''string'' then string_type
      else if s = ''enumeration'' then enumeration_type
      else if s = ''boolean'' then boolean_type
      else unknown_type)"

section \<open>The arithmetic of a declared type\<close>

text \<open>What COD's operators \<open>+\<close> and \<open><\<close> do to the 8 bytes of a field.\<close>

record cod_arith =
  ca_add :: "long \<Rightarrow> long \<Rightarrow> long"
  ca_less :: "long \<Rightarrow> long \<Rightarrow> bool"

definition long_arith :: cod_arith where
  "long_arith = \<lparr>ca_add = (\<lambda>a b. a + b), ca_less = (\<lambda>a b. a <s b)\<rparr>"

definition double_arith :: cod_arith where
  "double_arith = \<lparr>ca_add = dbl_add, ca_less = dbl_less\<rparr>"

definition field_arith :: "FMField \<Rightarrow> cod_arith" where
  "field_arith f = (if data_type (field_type f) = float_type then double_arith else long_arith)"

text \<open>
  An arithmetic is exact up to \<open>bound\<close>: sums that stay within it and comparisons below it
  are those of the natural numbers.
\<close>

locale exact_arith =
  fixes ar :: cod_arith and bound :: nat
  assumes add_exact: "unat a + unat b \<le> bound \<Longrightarrow> unat (ca_add ar a b) = unat a + unat b"
    and less_exact: "unat a \<le> bound \<Longrightarrow> unat b \<le> bound \<Longrightarrow> ca_less ar a b \<longleftrightarrow> unat a < unat b"
begin

lemma add_bound: "unat a + unat b \<le> bound \<Longrightarrow> unat (ca_add ar a b) \<le> bound"
  by (simp add: add_exact)

lemma less_asym: "unat a \<le> bound \<Longrightarrow> unat b \<le> bound \<Longrightarrow> ca_less ar a b \<Longrightarrow> \<not> ca_less ar b a"
  by (simp add: less_exact)

end

abbreviation long_bound :: nat where "long_bound \<equiv> 2 ^ 63 - 1"

abbreviation double_bound :: nat where "double_bound \<equiv> 2 ^ 53 - 1"

lemma unat_add_small: "unat a + unat b < 2 ^ 64 \<Longrightarrow> unat (a + b :: 64 word) = unat a + unat b"
  by (simp add: unat_word_ariths)

lemma uint_less_unat: "uint a < uint b \<longleftrightarrow> unat a < unat b"
  by (simp only: uint_nat of_nat_less_iff)

lemma sint_small:
  assumes "unat (a :: 64 word) < 2 ^ 63"
  shows "sint a = uint a"
proof -
  have "int (unat a) < int (2 ^ 63)" using assms by (simp only: of_nat_less_iff)
  then have "uint a < 2 ^ 63" by simp
  then have "signed_take_bit 63 (uint a) = uint a"
    by (intro signed_take_bit_int_eq_self order_trans [OF _ uint_ge_0]) auto
  then show ?thesis by (simp add: sint_uint)
qed

interpretation long_exact: exact_arith long_arith long_bound
proof
  fix a b :: long
  show "unat a + unat b \<le> long_bound \<Longrightarrow> unat (ca_add long_arith a b) = unat a + unat b"
    by (simp add: long_arith_def unat_add_small)
  show "unat a \<le> long_bound \<Longrightarrow> unat b \<le> long_bound \<Longrightarrow>
      ca_less long_arith a b \<longleftrightarrow> unat a < unat b"
    by (simp add: long_arith_def word_sless_alt sint_small uint_less_unat)
qed

interpretation double_exact: exact_arith double_arith double_bound
proof
  fix a b :: long
  show "unat a + unat b \<le> double_bound \<Longrightarrow> unat (ca_add double_arith a b) = unat a + unat b"
    by (simp add: double_arith_def dbl_add_small unat_add_small)
  show "unat a \<le> double_bound \<Longrightarrow> unat b \<le> double_bound \<Longrightarrow>
      ca_less double_arith a b \<longleftrightarrow> unat a < unat b"
    by (simp add: double_arith_def dbl_less_small word_less_nat_alt)
qed

end
