(* ===== verification/Topology.thy ===== *)
theory Topology
  imports Prelude
begin

text \<open>
  The logical tree of helpers.c: rank \<open>r\<close>'s children are \<open>r * max_degree + 1\<close> to
  \<open>r * max_degree + max_degree\<close>, cut off at \<open>nprocs\<close>; the parent of a rank is
  \<open>(rank - 1) / max_degree\<close>. The operations take \<open>max_degree\<close> (a field of the
  aggregator), \<open>nprocs\<close> and \<open>rank\<close> (what MPI_Comm_size and MPI_Comm_rank return).
  The second part relates them to the abstract tree on the ranks \<open>0 ..< nprocs\<close>: degree and
  leaf test, the match of the bootstrap's sends and receives, and the partition of the ranks by
  the subtrees of a node.
\<close>

section \<open>The operations of helpers.c\<close>

definition is_leaf :: "int \<Rightarrow> int \<Rightarrow> int \<Rightarrow> bool res" where
  "is_leaf max_degree nprocs rank =
     bind_r (c_int (rank * max_degree)) (\<lambda>m.
     bind_r (c_int (m + 1)) (\<lambda>x.
     Inr (nprocs \<le> x \<and> 1 < nprocs)))"

definition get_parent :: "int \<Rightarrow> int \<Rightarrow> int res" where
  "get_parent max_degree rank = bind_r (c_int (rank - 1)) (\<lambda>x. c_div x max_degree)"

text \<open>The loop of \<open>get_degree_node\<close>, from index \<open>i\<close> with \<open>degree\<close> counted so far.\<close>

function degree_loop :: "int \<Rightarrow> int \<Rightarrow> int \<Rightarrow> int \<Rightarrow> int \<Rightarrow> int res" where
  "degree_loop max_degree nprocs rank i degree =
     (if i \<le> max_degree then
        bind_r (c_int (rank * max_degree)) (\<lambda>m.
        bind_r (c_int (m + i)) (\<lambda>x.
        bind_r (c_int (i + 1)) (\<lambda>i'.
          degree_loop max_degree nprocs rank i' (if x < nprocs then degree + 1 else degree))))
      else Inr degree)"
  by pat_completeness auto
termination
  by (relation "measure (\<lambda>(d, n, r, i, g). nat (d + 1 - i))") (auto dest!: c_int_Inr)

declare degree_loop.simps [simp del]

definition get_degree_node :: "int \<Rightarrow> int \<Rightarrow> int \<Rightarrow> int res" where
  "get_degree_node max_degree nprocs rank = degree_loop max_degree nprocs rank 1 0"

text \<open>
  The point-to-point messages of the bootstrap: an address buffer of ADDRESS_SIZE chars with a
  destination (or source) rank and tag 0.
\<close>

record mpi_send =
  ms_buf :: string
  ms_dest :: int
  ms_tag :: int

record mpi_recv =
  mr_source :: int
  mr_tag :: int

definition recv_addr_from_parent :: "int \<Rightarrow> int \<Rightarrow> mpi_recv res" where
  "recv_addr_from_parent max_degree rank =
     bind_r (get_parent max_degree rank) (\<lambda>p. Inr \<lparr>mr_source = p, mr_tag = 0\<rparr>)"

text \<open>
  The loop of \<open>send_addr_to_children\<close> from index \<open>i\<close>; its bound calls
  \<open>get_degree_node\<close> in every round, as the source's loop condition does.
\<close>

function send_loop :: "int \<Rightarrow> int \<Rightarrow> int \<Rightarrow> string \<Rightarrow> int \<Rightarrow> mpi_send list res" where
  "send_loop max_degree nprocs rank addr i =
     bind_r (get_degree_node max_degree nprocs rank) (\<lambda>degree.
     if i \<le> degree then
       bind_r (c_int (rank * max_degree)) (\<lambda>m.
       bind_r (c_int (m + i)) (\<lambda>dest.
       bind_r (c_int (i + 1)) (\<lambda>i'.
       bind_r (send_loop max_degree nprocs rank addr i') (\<lambda>rest.
       Inr (\<lparr>ms_buf = addr, ms_dest = dest, ms_tag = 0\<rparr> # rest)))))
     else Inr [])"
  by pat_completeness auto
termination
  by (relation "measure (\<lambda>(d, n, r, a, i).
        case get_degree_node d n r of Inl _ \<Rightarrow> 0 | Inr k \<Rightarrow> nat (k + 1 - i))")
     (auto dest!: c_int_Inr)

declare send_loop.simps [simp del]

definition send_addr_to_children :: "int \<Rightarrow> int \<Rightarrow> int \<Rightarrow> string \<Rightarrow> mpi_send list res" where
  "send_addr_to_children max_degree nprocs rank addr = send_loop max_degree nprocs rank addr 1"

section \<open>The abstract tree\<close>

text \<open>
  A topology is valid when the degree is positive and no index the code computes overflows an
  int; the largest is \<open>(nprocs - 1) * max_degree + max_degree\<close>.
\<close>

definition valid_topo :: "int \<Rightarrow> int \<Rightarrow> bool" where
  "valid_topo d n \<longleftrightarrow> 0 < d \<and> 0 < n \<and> d < int_max \<and> n * d \<le> int_max"

definition parent :: "int \<Rightarrow> int \<Rightarrow> int" where
  "parent d c = (c - 1) div d"

definition children :: "int \<Rightarrow> int \<Rightarrow> int \<Rightarrow> int list" where
  "children d n r = [r * d + 1 .. min (r * d + d) (n - 1)]"

definition degree :: "int \<Rightarrow> int \<Rightarrow> int \<Rightarrow> nat" where
  "degree d n r = length (children d n r)"

lemma valid_topoD:
  assumes "valid_topo d n" "0 \<le> r" "r < n"
  shows "0 < d" "d < int_max" "0 \<le> r * d" "r * d + d \<le> int_max" "n \<le> int_max"
proof -
  have v: "0 < d" "0 < n" "d < int_max" "n * d \<le> int_max"
    using assms(1) by (auto simp: valid_topo_def)
  show "0 < d" "d < int_max" by (rule v)+
  show "0 \<le> r * d" using assms(2) v(1) by simp
  have "(r + 1) * d \<le> n * d" using assms(3) v(1) by (intro mult_right_mono) auto
  then show "r * d + d \<le> int_max" using v(4) by (simp add: algebra_simps)
  have "n * 1 \<le> n * d" using v by (intro mult_left_mono) auto
  then show "n \<le> int_max" using v(4) by simp
qed

lemma children_set: "set (children d n r) = {r * d + 1 .. min (r * d + d) (n - 1)}"
  by (simp add: children_def)

lemma children_distinct: "distinct (children d n r)"
  by (simp add: children_def)

lemma degree_alt: "degree d n r = nat (min (r * d + d) (n - 1) - r * d)"
  by (simp add: degree_def children_def)

lemma degree_card: "degree d n r = card (set (children d n r))"
  by (simp add: degree_def distinct_card children_distinct)

lemma parent_child_iff:
  assumes "0 < d"
  shows "parent d c = r \<longleftrightarrow> r * d + 1 \<le> c \<and> c \<le> r * d + d"
proof
  assume "parent d c = r"
  then have r: "r = (c - 1) div d" by (simp add: parent_def)
  have "(c - 1) div d * d + (c - 1) mod d = c - 1" by (rule div_mult_mod_eq)
  moreover have "0 \<le> (c - 1) mod d" "(c - 1) mod d < d"
    using assms by (simp_all add: pos_mod_sign pos_mod_bound)
  ultimately show "r * d + 1 \<le> c \<and> c \<le> r * d + d" unfolding r by linarith
next
  assume "r * d + 1 \<le> c \<and> c \<le> r * d + d"
  then have "c - 1 = r * d + (c - 1 - r * d)" "0 \<le> c - 1 - r * d" "c - 1 - r * d < d" by auto
  then have "(c - 1) div d = r"
    using assms by (metis div_mult_self3 div_pos_pos_trivial add.right_neutral less_irrefl)
  then show "parent d c = r" by (simp add: parent_def)
qed

lemma children_iff_parent:
  assumes "0 < d"
  shows "c \<in> set (children d n r) \<longleftrightarrow> c < n \<and> parent d c = r"
  using parent_child_iff [OF assms] by (auto simp: children_set)

lemma parent_less: "0 < d \<Longrightarrow> 0 < c \<Longrightarrow> 0 \<le> parent d c \<and> parent d c < c"
  using parent_child_iff [of d c "parent d c"]
  by (auto simp: parent_def pos_imp_zdiv_nonneg_iff
      intro: order_le_less_trans [OF zdiv_mono2 [of "c - 1" 1 d]])

section \<open>The code computes the abstract tree\<close>

lemma degree_loop_counts:
  assumes "int_min \<le> r * d" "r * d + d \<le> int_max" "d < int_max" "1 \<le> i" "i \<le> d + 1"
  shows "degree_loop d n r i g = Inr (g + int (card ({r * d + i .. r * d + d} \<inter> {..< n})))"
  using assms
proof (induction d n r i g rule: degree_loop.induct)
  case (1 d n r i g)
  show ?case
  proof (cases "i \<le> d")
    case False
    then have "i = d + 1" using "1.prems" by simp
    then show ?thesis by (simp add: degree_loop.simps)
  next
    case True
    have ok: "c_int (r * d) = Inr (r * d)" "c_int (r * d + i) = Inr (r * d + i)"
        "c_int (i + 1) = Inr (i + 1)"
      using "1.prems" True by (simp_all add: c_int_ok)
    let ?A = "{r * d + (i + 1) .. r * d + d} \<inter> {..< n}"
    have split: "{r * d + i .. r * d + d} \<inter> {..< n}
        = (if r * d + i < n then insert (r * d + i) ?A else ?A)"
      using True by auto
    have card: "int (card ({r * d + i .. r * d + d} \<inter> {..< n}))
        = int (card ?A) + (if r * d + i < n then 1 else 0)"
      unfolding split by simp
    have "degree_loop d n r (i + 1) (if r * d + i < n then g + 1 else g)
        = Inr ((if r * d + i < n then g + 1 else g) + int (card ?A))"
      using "1.IH" [OF True ok] "1.prems" True by simp
    then show ?thesis
      using True ok card by (simp add: degree_loop.simps [of d n r i])
  qed
qed

text \<open>The loop counts for every number that it is called with, the -1 of a chain's root included.\<close>

lemma degree_loop_degree:
  assumes "valid_topo d n" "-1 \<le> x" "x < n"
  shows "degree_loop d n x 1 0 = Inr (int (degree d n x))"
proof -
  have d: "0 < d" "d < int_max" using assms(1) by (simp_all add: valid_topo_def)
  have "(-1) * d \<le> x * d" "(x + 1) * d \<le> n * d" using assms(2,3) d by (intro mult_right_mono; simp)+
  then have "int_min \<le> x * d" "x * d + d \<le> int_max"
    using d assms(1) by (simp_all add: valid_topo_def algebra_simps)
  moreover have "{x * d + 1 .. x * d + d} \<inter> {..< n} = set (children d n x)"
    by (auto simp: children_set)
  ultimately show ?thesis using d by (simp add: degree_loop_counts degree_card)
qed

lemma get_degree_node_eq:
  assumes "valid_topo d n" "0 \<le> r" "r < n"
  shows "get_degree_node d n r = Inr (int (degree d n r))"
  using degree_loop_degree [OF assms(1) _ assms(3)] assms(2) by (simp add: get_degree_node_def)

text \<open>An earlier rank has at least as many children, and none has more than the degree.\<close>

lemma degree_antimono:
  assumes "0 < d" "x \<le> r"
  shows "degree d n r \<le> degree d n x"
proof -
  have "x * d \<le> r * d" using assms by (intro mult_right_mono) auto
  then show ?thesis unfolding degree_alt by (intro nat_mono) simp
qed

lemma degree_le: "0 < d \<Longrightarrow> int (degree d n x) \<le> d"
  unfolding degree_alt by linarith

lemma get_parent_eq:
  assumes "valid_topo d n" "0 < r" "r < n"
  shows "get_parent d r = Inr (parent d r)"
  using valid_topoD [OF assms(1), of r] assms
  by (simp add: get_parent_def c_int_ok c_div_nonneg parent_def)

text \<open>The root has no parent: C's truncating division gives 0, or -1 in a chain.\<close>

lemma get_parent_root:
  assumes "valid_topo d n"
  shows "get_parent d 0 = Inr (if d = 1 then -1 else 0)"
proof -
  have "c_div (-1) d = Inr (if d = 1 then -1 else 0)"
    using assms by (simp only: c_div_def sdiv_minus_one valid_topo_def) (simp add: c_int_def)
  then show ?thesis by (simp add: get_parent_def c_int_def)
qed

lemma is_leaf_eq:
  assumes "valid_topo d n" "0 \<le> r" "r < n"
  shows "is_leaf d n r = Inr (1 < n \<and> children d n r = [])"
proof -
  note v = valid_topoD [OF assms]
  have "c_int (r * d) = Inr (r * d)" "c_int (r * d + 1) = Inr (r * d + 1)"
    using v by (simp_all add: c_int_ok)
  moreover have "n \<le> r * d + 1 \<longleftrightarrow> children d n r = []"
    using v by (auto simp: children_def)
  ultimately show ?thesis by (auto simp: is_leaf_def)
qed

lemma send_loop_eq:
  assumes "valid_topo d n" "0 \<le> r" "r < n" "1 \<le> i" "i \<le> int (degree d n r) + 1"
  shows "send_loop d n r addr i = Inr (map (\<lambda>c. \<lparr>ms_buf = addr, ms_dest = c, ms_tag = 0\<rparr>)
           [r * d + i .. min (r * d + d) (n - 1)])"
  using assms
proof (induction d n r addr i rule: send_loop.induct)
  case (1 d n r addr i)
  note v = valid_topoD [OF "1.prems"(1,2,3)]
  note deg = get_degree_node_eq [OF "1.prems"(1,2,3)]
  show ?case
  proof (cases "i \<le> int (degree d n r)")
    case False
    then have "i = int (degree d n r) + 1" using "1.prems" by simp
    then have "[r * d + i .. min (r * d + d) (n - 1)] = []"
      by (auto simp: degree_alt)
    then show ?thesis using False deg by (simp add: send_loop.simps [of d n r addr i])
  next
    case True
    then have "i \<le> min (r * d + d) (n - 1) - r * d"
      using "1.prems"(4) by (auto simp: degree_alt split: if_splits)
    then have le: "i \<le> d" "r * d + i \<le> min (r * d + d) (n - 1)" by auto
    have ok: "c_int (r * d) = Inr (r * d)" "c_int (r * d + i) = Inr (r * d + i)"
        "c_int (i + 1) = Inr (i + 1)"
      by (intro c_int_ok; use "1.prems" v le in linarith)+
    have "send_loop d n r addr (i + 1) = Inr (map (\<lambda>c. \<lparr>ms_buf = addr, ms_dest = c, ms_tag = 0\<rparr>)
           [r * d + (i + 1) .. min (r * d + d) (n - 1)])"
      using "1.IH" [OF deg True ok] "1.prems" True by simp
    then show ?thesis
      using True deg ok le by (simp add: send_loop.simps [of d n r addr i] upto_rec1 add.assoc)
  qed
qed

lemma send_addr_eq:
  assumes "valid_topo d n" "0 \<le> r" "r < n"
  shows "send_addr_to_children d n r addr =
     Inr (map (\<lambda>c. \<lparr>ms_buf = addr, ms_dest = c, ms_tag = 0\<rparr>) (children d n r))"
  using send_loop_eq [OF assms, of 1 addr]
  by (simp add: send_addr_to_children_def children_def)

section \<open>Subtrees\<close>

text \<open>The ranks below a rank, itself first.\<close>

lemma child_greater: "0 < d \<Longrightarrow> 0 \<le> r \<Longrightarrow> c \<in> set (children d n r) \<Longrightarrow> r < c \<and> c < n"
  using mult_left_mono [of 1 d r] by (auto simp: children_set)

function subtree :: "int \<Rightarrow> int \<Rightarrow> int \<Rightarrow> int list" where
  "subtree d n r =
     (if 0 < d \<and> 0 \<le> r \<and> r < n then r # concat (map (subtree d n) (children d n r)) else [])"
  by pat_completeness auto
termination
  by (relation "measure (\<lambda>(d, n, r). nat (n - r))") (auto dest: child_greater)

declare subtree.simps [simp del]

lemma subtree_unfold:
  "0 < d \<Longrightarrow> 0 \<le> r \<Longrightarrow> r < n \<Longrightarrow>
     subtree d n r = r # concat (map (subtree d n) (children d n r))"
  by (simp add: subtree.simps [of d n r])

lemma subtree_leaf:
  "0 < d \<Longrightarrow> 0 \<le> r \<Longrightarrow> r < n \<Longrightarrow> children d n r = [] \<Longrightarrow> subtree d n r = [r]"
  by (simp add: subtree_unfold)

lemma subtree_range: "x \<in> set (subtree d n r) \<Longrightarrow> 0 < d \<and> 0 \<le> r \<and> r \<le> x \<and> x < n"
proof (induction d n r rule: subtree.induct)
  case (1 d n r)
  then have r: "0 < d" "0 \<le> r" "r < n" by (auto simp: subtree.simps [of d n r] split: if_splits)
  then have "x = r \<or> (\<exists>k \<in> set (children d n r). x \<in> set (subtree d n k))"
    using "1.prems" by (auto simp: subtree_unfold)
  then show ?case using "1.IH" r child_greater [OF r(1,2)] by force
qed

text \<open>A subtree is closed under children, and under parents above its root.\<close>

lemma subtree_child:
  "x \<in> set (subtree d n r) \<Longrightarrow> c \<in> set (children d n x) \<Longrightarrow> c \<in> set (subtree d n r)"
proof (induction d n r rule: subtree.induct)
  case (1 d n r)
  have x: "0 < d" "0 \<le> x" "0 \<le> r" "r < n" using subtree_range [OF "1.prems"(1)] by auto
  then have c: "0 \<le> c" "c < n" using child_greater [OF x(1,2) "1.prems"(2)] by auto
  have self: "c \<in> set (subtree d n c)" using c x by (simp add: subtree_unfold)
  have "x = r \<or> (\<exists>k \<in> set (children d n r). x \<in> set (subtree d n k))"
    using "1.prems" x by (auto simp: subtree_unfold)
  then show ?case using "1.IH" "1.prems"(2) self x by (auto simp: subtree_unfold)
qed

lemma subtree_parent:
  "x \<in> set (subtree d n r) \<Longrightarrow> x \<noteq> r \<Longrightarrow> parent d x \<in> set (subtree d n r)"
proof (induction d n r rule: subtree.induct)
  case (1 d n r)
  have x: "0 < d" "0 \<le> r" "r < n" using subtree_range [OF "1.prems"(1)] by auto
  then obtain k where k: "k \<in> set (children d n r)" "x \<in> set (subtree d n k)"
    using "1.prems" by (auto simp: subtree_unfold)
  show ?case
  proof (cases "x = k")
    case True
    then have "parent d x = r" using k x by (simp add: children_iff_parent)
    then show ?thesis using x by (simp add: subtree_unfold)
  next
    case False
    then show ?thesis using "1.IH" k x by (auto simp: subtree_unfold)
  qed
qed

lemma subtrees_disjoint:
  assumes "0 < d" "0 \<le> r" "a \<in> set (children d n r)" "b \<in> set (children d n r)" "a \<noteq> b"
  shows "x \<in> set (subtree d n a) \<Longrightarrow> x \<notin> set (subtree d n b)"
proof (induction "nat x" arbitrary: x rule: less_induct)
  case less
  have ab: "parent d a = r" "parent d b = r" "r < a" "r < b"
    using assms child_greater [OF assms(1,2)] by (auto simp: children_iff_parent)
  have no: "r \<notin> set (subtree d n a)" "r \<notin> set (subtree d n b)"
    using ab subtree_range by (force dest: subtree_range)+
  show ?case
  proof
    assume xb: "x \<in> set (subtree d n b)"
    have "x \<noteq> a" using subtree_parent [of a d n b] assms(5) xb ab no by auto
    moreover have "x \<noteq> b" using subtree_parent [of b d n a] assms(5) less.prems ab no by auto
    ultimately have p: "parent d x \<in> set (subtree d n a)" "parent d x \<in> set (subtree d n b)"
      using less.prems xb by (auto intro: subtree_parent)
    have "a \<le> x" using subtree_range [OF less.prems] by simp
    then have "0 < x" using ab assms(2) by simp
    then have "nat (parent d x) < nat x" using parent_less [OF assms(1), of x] by auto
    with less.hyps p show False by blast
  qed
qed

lemma subtree_distinct: "distinct (subtree d n r)"
proof (induction d n r rule: subtree.induct)
  case (1 d n r)
  show ?case
  proof (cases "0 < d \<and> 0 \<le> r \<and> r < n")
    case False
    then show ?thesis by (auto simp: subtree.simps [of d n r])
  next
    case True
    let ?ks = "children d n r"
    have "distinct (concat (map (subtree d n) ?ks))"
    proof (rule distinct_concat)
      have "subtree d n a \<noteq> subtree d n b"
        if "a \<in> set ?ks" "b \<in> set ?ks" "a \<noteq> b" for a b
      proof -
        have "a \<in> set (subtree d n a)"
          using that(1) True child_greater [of d r a n] by (simp add: subtree_unfold)
        then show ?thesis using subtrees_disjoint [of d r a n b a] that True by auto
      qed
      then show "distinct (map (subtree d n) ?ks)"
        by (auto simp: distinct_map children_distinct inj_on_def)
      show "\<And>ys. ys \<in> set (map (subtree d n) ?ks) \<Longrightarrow> distinct ys"
        using "1.IH" True by auto
      show "\<And>ys zs. ys \<in> set (map (subtree d n) ?ks) \<Longrightarrow> zs \<in> set (map (subtree d n) ?ks)
          \<Longrightarrow> ys \<noteq> zs \<Longrightarrow> set ys \<inter> set zs = {}"
        using subtrees_disjoint [of d r _ n] True by fastforce
    qed
    moreover have "r \<notin> set (concat (map (subtree d n) ?ks))"
      using True by (auto dest!: subtree_range dest: child_greater)
    ultimately show ?thesis using True by (simp add: subtree_unfold)
  qed
qed

lemma subtree_root:
  assumes "0 < d" "0 < n"
  shows "set (subtree d n 0) = {0 ..< n}"
proof
  show "set (subtree d n 0) \<subseteq> {0 ..< n}" by (auto dest: subtree_range)
  have "x \<in> set (subtree d n 0)" if "0 \<le> x" "x < n" for x
    using that
  proof (induction "nat x" arbitrary: x rule: less_induct)
    case less
    show ?case
    proof (cases "x = 0")
      case True
      then show ?thesis using assms by (simp add: subtree_unfold)
    next
      case False
      then have p: "0 \<le> parent d x" "parent d x < x"
        using parent_less [OF assms(1), of x] less.prems by auto
      then have "parent d x \<in> set (subtree d n 0)" using less by auto
      moreover have "x \<in> set (children d n (parent d x))"
        using assms less.prems by (simp add: children_iff_parent)
      ultimately show ?thesis by (rule subtree_child)
    qed
  qed
  then show "{0 ..< n} \<subseteq> set (subtree d n 0)" by auto
qed

end
