(* ===== verification/Aggregate.thy ===== *)
theory Aggregate
  imports Messages Topology
begin

text \<open>
  The COD program of cod.h that runs on the multi stone of every inner node: it takes the events of
  one pulse out of the stone's queue, one per activation, folds their min, max and sum into the
  static variable \<open>aggregated_event\<close> and submits it when the children's events and the
  node's own have been counted. \<open>multi_func\<close> is the program of the default build and
  \<open>multi_func_bench\<close> that of the BENCHMARKING build. The queue primitives of COD
  (EVcount, EVdata, EVdiscard) and EVPath's enqueueing are parameters with the laws of the locale
  \<open>event_queue\<close>; the arithmetic on the metric fields is a parameter too, instantiated with the
  one of the declared field type.
\<close>

section \<open>The queue of the stone\<close>

record ('q, 'm) ev_ops =
  ev_count :: "'q \<Rightarrow> int"
  ev_data :: "'q \<Rightarrow> int \<Rightarrow> 'm"
  ev_discard :: "'q \<Rightarrow> int \<Rightarrow> 'q"
  ev_enqueue :: "'q \<Rightarrow> 'm \<Rightarrow> 'q"

section \<open>The static variables\<close>

record 'm cod_state =
  s_max_degree :: int
  first_found_index :: int
  aggregated_event :: 'm
  current_node_degree :: int
  pulse_timestamp :: int
  s_count :: int

definition cod_init :: "'m \<Rightarrow> 'm cod_state" where
  "cod_init zero = \<lparr>s_max_degree = -1, first_found_index = -1, aggregated_event = zero,
     current_node_degree = 0, pulse_timestamp = 0, s_count = 0\<rparr>"

definition metrics_zero :: metrics where
  "metrics_zero = \<lparr>metrics_nr = 0, gather_info = [], max_degree = 0, update_file = 0,
     parent_rank = 0, nprocs = 0, timestamp = 0, quit = 0\<rparr>"

section \<open>The loops\<close>

text \<open>
  The search for an event of the current pulse from index \<open>i\<close>: the index where it stops, and the
  last event it has looked at (the variable \<open>a\<close>).
\<close>

function scan :: "('q, 'z metrics_scheme) ev_ops \<Rightarrow> 'q \<Rightarrow> int \<Rightarrow> int \<Rightarrow>
    'z metrics_scheme option \<Rightarrow> int option \<times> 'z metrics_scheme option" where
  "scan Q q pulse i a =
     (if i < ev_count Q q then
        (if timestamp (ev_data Q q i) = pulse then (Some i, Some (ev_data Q q i))
         else scan Q q pulse (i + 1) (Some (ev_data Q q i)))
      else (None, a))"
  by pat_completeness auto
termination
  by (relation "measure (\<lambda>(Q, q, p, i, a). nat (ev_count Q q - i))") auto

declare scan.simps [simp del]

text \<open>The copy of the first event's metrics.\<close>

definition copy_gather :: "int \<Rightarrow> aggregators list \<Rightarrow> aggregators list res" where
  "copy_gather nr xs = (if nr \<le> int (length xs) then Inr (take (nat nr) xs) else Inl OutOfBounds)"

text \<open>The fold of another event's metrics: the sum, then the minimum, then the maximum.\<close>

definition combine :: "cod_arith \<Rightarrow> aggregators \<Rightarrow> aggregators \<Rightarrow> aggregators" where
  "combine ar g x =
     (let g1 = g\<lparr>agg_sum := ca_add ar (agg_sum g) (agg_sum x)\<rparr>;
          g2 = (if ca_less ar (agg_min x) (agg_min g1) then g1\<lparr>agg_min := agg_min x\<rparr> else g1)
      in if ca_less ar (agg_max g2) (agg_max x) then g2\<lparr>agg_max := agg_max x\<rparr> else g2)"

definition combine_gather ::
    "cod_arith \<Rightarrow> int \<Rightarrow> aggregators list \<Rightarrow> aggregators list \<Rightarrow> aggregators list res" where
  "combine_gather ar nr gs xs =
     (if nr \<le> int (length gs) \<and> nr \<le> int (length xs)
      then Inr (map2 (combine ar) (take (nat nr) gs) (take (nat nr) xs) @ drop (nat nr) gs)
      else Inl OutOfBounds)"

text \<open>
  The degree of the node, from the fields of the event that the search stopped at. With an empty
  queue the event is never assigned.
\<close>

definition cod_degree :: "int \<Rightarrow> 'z metrics_scheme option \<Rightarrow> int res" where
  "cod_degree md a =
     (case a of
        None \<Rightarrow> if 1 \<le> md then Inl Uninitialised else Inr 0
      | Some e \<Rightarrow> degree_loop md (nprocs e) (parent_rank e) 1 0)"

text \<open>\<open>(a->parent_rank - 1) / max_degree\<close>\<close>

definition parent_of :: "int \<Rightarrow> int \<Rightarrow> int res" where
  "parent_of md pr = bind_r (c_int (pr - 1)) (\<lambda>x. c_div x md)"

section \<open>The program of the default build\<close>

definition cod_first :: "('q, metrics) ev_ops \<Rightarrow> metrics cod_state \<Rightarrow> 'q \<Rightarrow>
    (metrics cod_state \<times> 'q) res" where
  "cod_first Q st q =
     (let (found, a) = scan Q q (pulse_timestamp st) 0 None in
      bind_r
        (case found of
           None \<Rightarrow> Inr (st\<lparr>s_count := 0\<rparr>)
         | Some i \<Rightarrow>
             let e = ev_data Q q i in
             bind_r (copy_gather (metrics_nr e) (gather_info e)) (\<lambda>g.
             bind_r (parent_of (max_degree e) (parent_rank e)) (\<lambda>p.
             Inr (st\<lparr>s_count := 0, s_max_degree := max_degree e, first_found_index := i,
               aggregated_event := \<lparr>metrics_nr = metrics_nr e, gather_info = g,
                 max_degree = max_degree e, update_file = update_file e, parent_rank = p,
                 nprocs = nprocs e, timestamp = pulse_timestamp st, quit = quit e\<rparr>\<rparr>))))
        (\<lambda>st1. bind_r (cod_degree (s_max_degree st1) a) (\<lambda>deg.
          Inr (st1\<lparr>current_node_degree := deg, s_count := 1\<rparr>,
               ev_discard Q q (first_found_index st1)))))"

definition cod_next :: "('q, metrics) ev_ops \<Rightarrow> cod_arith \<Rightarrow> metrics cod_state \<Rightarrow> 'q \<Rightarrow>
    (metrics cod_state \<times> 'q) res" where
  "cod_next Q ar st q =
     (case fst (scan Q q (pulse_timestamp st) (first_found_index st) None) of
        None \<Rightarrow> Inr (st, q)
      | Some i \<Rightarrow>
          let e = ev_data Q q i; agg = aggregated_event st in
          bind_r (combine_gather ar (metrics_nr e) (gather_info agg) (gather_info e)) (\<lambda>g.
          Inr (st\<lparr>aggregated_event := agg\<lparr>gather_info := g\<rparr>, s_count := s_count st + 1,
                 first_found_index := i\<rparr>,
               ev_discard Q q i)))"

text \<open>
  From the label \<open>start\<close> to the end of the program or the goto: the new statics, the queue, the
  submitted events and whether the program jumps back.
\<close>

definition cod_pass :: "('q, metrics) ev_ops \<Rightarrow> cod_arith \<Rightarrow> metrics cod_state \<Rightarrow> 'q \<Rightarrow>
    (metrics cod_state \<times> 'q \<times> metrics list \<times> bool) res" where
  "cod_pass Q ar st q =
     bind_r
       (if first_found_index st = -1 then cod_first Q st q
        else if s_count st < current_node_degree st + 1 then cod_next Q ar st q
        else Inr (st, q))
       (\<lambda>(st1, q1).
         if s_count st1 = current_node_degree st1 + 1 then
           bind_r (c_int (pulse_timestamp st1 + 1)) (\<lambda>p.
           Inr (st1\<lparr>pulse_timestamp := p, first_found_index := -1, s_count := 0\<rparr>, q1,
                [aggregated_event st1], fst (scan Q q1 p 0 None) \<noteq> None))
         else Inr (st1, q1, [], False))"

fun multi_loop :: "nat \<Rightarrow> ('q, metrics) ev_ops \<Rightarrow> cod_arith \<Rightarrow> metrics cod_state \<Rightarrow> 'q \<Rightarrow>
    (metrics cod_state \<times> 'q \<times> metrics list) res" where
  "multi_loop 0 Q ar st q = Inl OutOfFuel"
| "multi_loop (Suc fuel) Q ar st q =
     bind_r (cod_pass Q ar st q) (\<lambda>(st1, q1, out, again).
       if again then
         bind_r (multi_loop fuel Q ar st1 q1) (\<lambda>(st2, q2, out2). Inr (st2, q2, out @ out2))
       else Inr (st1, q1, out))"

text \<open>Every jump back discards an event, so the queue's length bounds the passes.\<close>

definition multi_func :: "('q, metrics) ev_ops \<Rightarrow> cod_arith \<Rightarrow> metrics cod_state \<Rightarrow> 'q \<Rightarrow>
    (metrics cod_state \<times> 'q \<times> metrics list) res" where
  "multi_func Q ar st q = multi_loop (nat (ev_count Q q) + 2) Q ar st q"

text \<open>
  EVPath runs the program whenever a new event arrives in the stone's queue
  (include/evpath.h, EVassoc_multi_action): once for every enqueued event here.
\<close>

definition arrive :: "('q, metrics) ev_ops \<Rightarrow> cod_arith \<Rightarrow> metrics cod_state \<times> 'q \<times> metrics list \<Rightarrow>
    metrics \<Rightarrow> (metrics cod_state \<times> 'q \<times> metrics list) res" where
  "arrive Q ar s e =
     (case s of (st, q, out) \<Rightarrow>
       bind_r (multi_func Q ar st (ev_enqueue Q q e)) (\<lambda>(st1, q1, out1).
         Inr (st1, q1, out @ out1)))"

fun arrivals :: "('q, metrics) ev_ops \<Rightarrow> cod_arith \<Rightarrow> metrics cod_state \<times> 'q \<times> metrics list \<Rightarrow>
    metrics list \<Rightarrow> (metrics cod_state \<times> 'q \<times> metrics list) res" where
  "arrivals Q ar s [] = Inr s"
| "arrivals Q ar s (e # es) = bind_r (arrive Q ar s e) (\<lambda>s1. arrivals Q ar s1 es)"

section \<open>The laws of the queue\<close>

text \<open>
  \<open>elems\<close> lists the queued events, oldest first. Discarding an index that the queue does not
  have leaves it as it is; the program does so (with index -1) when no event of the pulse is queued.
\<close>

definition list_discard :: "'m list \<Rightarrow> int \<Rightarrow> 'm list" where
  "list_discard xs i =
     (if 0 \<le> i \<and> i < int (length xs) then take (nat i) xs @ drop (Suc (nat i)) xs else xs)"

locale event_queue =
  fixes Q :: "('q, 'z metrics_scheme) ev_ops" and elems :: "'q \<Rightarrow> 'z metrics_scheme list"
  assumes count_law: "ev_count Q q = int (length (elems q))"
    and data_law: "0 \<le> i \<Longrightarrow> i < int (length (elems q)) \<Longrightarrow> ev_data Q q i = elems q ! nat i"
    and discard_law: "elems (ev_discard Q q i) = list_discard (elems q) i"
    and enqueue_law: "elems (ev_enqueue Q q e) = elems q @ [e]"

definition list_queue :: "('m list, 'm) ev_ops" where
  "list_queue = \<lparr>ev_count = (\<lambda>q. int (length q)), ev_data = (\<lambda>q i. q ! nat i),
     ev_discard = list_discard, ev_enqueue = (\<lambda>q e. q @ [e])\<rparr>"

lemma list_queue_simps [simp]:
  "ev_count list_queue q = int (length q)" "ev_data list_queue q i = q ! nat i"
  "ev_discard list_queue q i = list_discard q i" "ev_enqueue list_queue q e = q @ [e]"
  by (simp_all add: list_queue_def)

interpretation lq: event_queue list_queue "\<lambda>q. q"
  by unfold_locales simp_all

text \<open>
  Simulation: over any queue with these laws the program computes what it computes over lists.
\<close>

lemma scan_range:
  "scan Q q p i a = (Some j, x) \<Longrightarrow>
     i \<le> j \<and> j < ev_count Q q \<and> x = Some (ev_data Q q j) \<and> timestamp (ev_data Q q j) = p"
proof (induction Q q p i a rule: scan.induct)
  case (1 Q q p i a)
  then show ?case by (auto simp: scan.simps [of Q q p i a] split: if_splits)
qed

context event_queue begin

lemma scan_sim: "0 \<le> i \<Longrightarrow> scan Q q p i a = scan list_queue (elems q) p i a"
proof (induction "nat (ev_count Q q - i)" arbitrary: i a rule: less_induct)
  case less
  show ?case
  proof (cases "i < ev_count Q q")
    case True
    then have d: "ev_data Q q i = elems q ! nat i"
      using less.prems by (simp add: count_law data_law)
    have "scan Q q p (i + 1) b = scan list_queue (elems q) p (i + 1) b" for b
      using less.hyps [of "i + 1"] less.prems True by simp
    then show ?thesis
      using True d by (simp add: count_law scan.simps [of Q q p i a]
          scan.simps [of list_queue "elems q" p i a])
  next
    case False
    then show ?thesis
      by (simp add: count_law scan.simps [of Q q p i a] scan.simps [of list_queue "elems q" p i a])
  qed
qed

lemma found_data: "scan Q q p i a = (Some j, x) \<Longrightarrow> 0 \<le> i \<Longrightarrow> ev_data Q q j = elems q ! nat j"
  using scan_range [of Q q p i a j x] by (simp add: count_law data_law)

end

definition with_queue :: "('q \<Rightarrow> 'p) \<Rightarrow> ('a \<times> 'q \<times> 'b) res \<Rightarrow> ('a \<times> 'p \<times> 'b) res" where
  "with_queue f = map_sum id (map_prod id (map_prod f id))"

lemma with_queue_simps [simp]:
  "with_queue f (Inl e) = Inl e" "with_queue f (Inr (a, q, b)) = Inr (a, f q, b)"
  by (simp_all add: with_queue_def)

lemma cod_first_sim:
  assumes "event_queue Q elems"
  shows "cod_first list_queue st (elems q) = map_sum id (map_prod id elems) (cod_first Q st q)"
proof -
  obtain found a where sc: "scan Q q (pulse_timestamp st) 0 None = (found, a)" by fastforce
  then have sl: "scan list_queue (elems q) (pulse_timestamp st) 0 None = (found, a)"
    using event_queue.scan_sim [OF assms, of 0] by simp
  note d = event_queue.discard_law [OF assms]
  show ?thesis
  proof (cases found)
    case None
    then show ?thesis using sc sl d
      by (cases "cod_degree (s_max_degree st) a") (auto simp: cod_first_def)
  next
    case (Some i)
    then have e: "ev_data Q q i = elems q ! nat i"
      using event_queue.found_data [OF assms] sc by blast
    show ?thesis using sc sl d e Some
      by (cases "copy_gather (metrics_nr (elems q ! nat i)) (gather_info (elems q ! nat i))";
          cases "parent_of (max_degree (elems q ! nat i)) (parent_rank (elems q ! nat i))";
          cases "cod_degree (max_degree (elems q ! nat i)) a") (auto simp: cod_first_def Let_def)
  qed
qed

lemma cod_next_sim:
  assumes "event_queue Q elems" and "0 \<le> first_found_index st"
  shows "cod_next list_queue ar st (elems q) = map_sum id (map_prod id elems) (cod_next Q ar st q)"
proof -
  obtain found a where sc: "scan Q q (pulse_timestamp st) (first_found_index st) None = (found, a)"
    by fastforce
  then have sl: "scan list_queue (elems q) (pulse_timestamp st) (first_found_index st) None = (found, a)"
    using event_queue.scan_sim [OF assms] by simp
  note d = event_queue.discard_law [OF assms(1)]
  show ?thesis
  proof (cases found)
    case None
    then show ?thesis using sc sl by (simp add: cod_next_def)
  next
    case (Some i)
    then have e: "ev_data Q q i = elems q ! nat i"
      using event_queue.found_data [OF assms(1)] sc assms(2) by blast
    show ?thesis using sc sl d e Some
      by (cases "combine_gather ar (metrics_nr (elems q ! nat i))
            (gather_info (aggregated_event st)) (gather_info (elems q ! nat i))")
         (auto simp: cod_next_def Let_def)
  qed
qed

text \<open>The index of the last found event never goes below -1.\<close>

lemma cod_first_index:
  "cod_first Q st q = Inr (st1, q1) \<Longrightarrow> -1 \<le> first_found_index st \<Longrightarrow> -1 \<le> first_found_index st1"
  by (auto simp: cod_first_def Let_def split: prod.splits option.splits dest!: scan_range)

lemma cod_next_index:
  "cod_next Q ar st q = Inr (st1, q1) \<Longrightarrow> -1 \<le> first_found_index st \<Longrightarrow> -1 \<le> first_found_index st1"
  using scan_range [of Q q "pulse_timestamp st" "first_found_index st" None]
  by (fastforce simp: cod_next_def Let_def fst_def split: prod.splits option.splits)

lemma cod_pass_index:
  "cod_pass Q ar st q = Inr (st1, q1, out, again) \<Longrightarrow> -1 \<le> first_found_index st \<Longrightarrow>
     -1 \<le> first_found_index st1"
  by (auto simp: cod_pass_def split: if_splits dest: cod_first_index cod_next_index)

lemma cod_pass_sim:
  assumes "event_queue Q elems" and "-1 \<le> first_found_index st"
  shows "cod_pass list_queue ar st (elems q) = with_queue elems (cod_pass Q ar st q)"
proof -
  note sims = event_queue.scan_sim [OF assms(1), of 0, simplified] cod_first_sim [OF assms(1)]
    cod_next_sim [OF assms(1)]
  let ?m = "if first_found_index st = -1 then cod_first Q st q
        else if s_count st < current_node_degree st + 1 then cod_next Q ar st q else Inr (st, q)"
  have "(if first_found_index st = -1 then cod_first list_queue st (elems q)
        else if s_count st < current_node_degree st + 1 then cod_next list_queue ar st (elems q)
        else Inr (st, elems q)) = map_sum id (map_prod id elems) ?m"
    using assms(2) by (simp add: sims)
  then show ?thesis
    by (cases ?m) (auto simp: cod_pass_def sims with_queue_def bind_r_def split: sum.splits)
qed

lemma multi_loop_sim:
  assumes "event_queue Q elems"
  shows "-1 \<le> first_found_index st \<Longrightarrow>
    multi_loop fuel list_queue ar st (elems q) = with_queue elems (multi_loop fuel Q ar st q)"
proof (induction fuel arbitrary: st q)
  case 0
  then show ?case by simp
next
  case (Suc fuel)
  note pass = cod_pass_sim [OF assms Suc.prems]
  show ?case
  proof (cases "cod_pass Q ar st q")
    case (Inl e)
    then show ?thesis using pass by simp
  next
    case (Inr r)
    obtain st1 q1 out again where r: "r = (st1, q1, out, again)" by (cases r)
    have "-1 \<le> first_found_index st1"
      by (rule cod_pass_index [OF Inr [unfolded r] Suc.prems])
    then show ?thesis
      using pass Inr r Suc.IH [of st1 q1]
      by (cases "multi_loop fuel Q ar st1 q1") (auto simp: with_queue_def)
  qed
qed

lemma multi_loop_index:
  "multi_loop fuel Q ar st q = Inr (st1, q1, out) \<Longrightarrow> -1 \<le> first_found_index st \<Longrightarrow>
     -1 \<le> first_found_index st1"
proof (induction fuel arbitrary: st q out)
  case 0
  then show ?case by simp
next
  case (Suc fuel)
  then show ?case by (auto split: if_splits dest: cod_pass_index)
qed

lemma multi_func_index:
  "multi_func Q ar st q = Inr (st1, q1, out) \<Longrightarrow> -1 \<le> first_found_index st \<Longrightarrow>
     -1 \<le> first_found_index st1"
  unfolding multi_func_def by (rule multi_loop_index)

lemma multi_func_sim:
  assumes "event_queue Q elems" and "-1 \<le> first_found_index st"
  shows "multi_func list_queue ar st (elems q) = with_queue elems (multi_func Q ar st q)"
  by (simp add: multi_func_def multi_loop_sim [OF assms] event_queue.count_law [OF assms(1)])

lemma arrive_sim:
  assumes "event_queue Q elems" and "-1 \<le> first_found_index st"
  shows "arrive list_queue ar (st, elems q, out) e = with_queue elems (arrive Q ar (st, q, out) e)"
  using multi_func_sim [OF assms, of ar "ev_enqueue Q q e"]
  by (cases "multi_func Q ar st (ev_enqueue Q q e)")
     (auto simp: arrive_def event_queue.enqueue_law [OF assms(1)] with_queue_def)

lemma arrive_index:
  "arrive Q ar (st, q, out) e = Inr (st1, q1, out1) \<Longrightarrow> -1 \<le> first_found_index st \<Longrightarrow>
     -1 \<le> first_found_index st1"
  by (auto simp: arrive_def dest: multi_func_index)

lemma arrivals_sim:
  assumes "event_queue Q elems"
  shows "-1 \<le> first_found_index st \<Longrightarrow>
    arrivals list_queue ar (st, elems q, out) es = with_queue elems (arrivals Q ar (st, q, out) es)"
proof (induction es arbitrary: st q out)
  case Nil
  then show ?case by simp
next
  case (Cons e es)
  note step = arrive_sim [OF assms Cons.prems, of ar q out e]
  show ?case
  proof (cases "arrive Q ar (st, q, out) e")
    case (Inl err)
    then show ?thesis using step by simp
  next
    case (Inr r)
    obtain st1 q1 out1 where r: "r = (st1, q1, out1)" by (cases r)
    then show ?thesis
      using step Inr Cons.IH [of st1 q1 out1] arrive_index Cons.prems by fastforce
  qed
qed

end
