(* ===== verification/Aggregate_Run.thy ===== *)
theory Aggregate_Run
  imports Aggregate
begin

text \<open>
  What the COD program of cod.h computes over a whole run: the events of \<open>k\<close> senders (the
  children of the node and the node itself) arrive in any interleaving that keeps every sender's
  own order, and the i-th submitted event is the aggregate of exactly the \<open>k\<close> events of pulse
  \<open>i\<close>. The invariant \<open>cod_inv\<close> relates the statics and the queue to the list of the
  events that have arrived, whatever number of events the first event of a pulse announces (\<open>run_fits\<close>).
\<close>

section \<open>The events of one pulse\<close>

definition pulse_events :: "int \<Rightarrow> metrics list \<Rightarrow> metrics list" where
  "pulse_events p es = filter (\<lambda>e. timestamp e = p) es"

lemma pulse_events_simps [simp]:
  "pulse_events p [] = []"
  "pulse_events p (es @ fs) = pulse_events p es @ pulse_events p fs"
  "pulse_events p (e # es) = (if timestamp e = p then e # pulse_events p es else pulse_events p es)"
  by (simp_all add: pulse_events_def)

text \<open>What is left in the queue when pulse \<open>p\<close> is being aggregated and \<open>c\<close> of its events are out.\<close>

fun remain :: "int \<Rightarrow> nat \<Rightarrow> metrics list \<Rightarrow> metrics list" where
  "remain p c [] = []"
| "remain p c (e # es) =
     (if timestamp e < p then remain p c es
      else if timestamp e = p then (case c of 0 \<Rightarrow> e # remain p 0 es | Suc c' \<Rightarrow> remain p c' es)
      else e # remain p c es)"

fun remove_first :: "int \<Rightarrow> metrics list \<Rightarrow> metrics list" where
  "remove_first p [] = []"
| "remove_first p (e # es) = (if timestamp e = p then es else e # remove_first p es)"

lemma remain_append:
  "p \<le> timestamp e \<Longrightarrow> c \<le> length (pulse_events p es) \<Longrightarrow> remain p c (es @ [e]) = remain p c es @ [e]"
  by (induction p c es rule: remain.induct) (auto split: nat.splits, blast)

lemma pulse_remain: "pulse_events p (remain p c es) = drop c (pulse_events p es)"
  by (induction p c es rule: remain.induct) (auto split: nat.splits)

lemma remain_Suc: "remain p (Suc c) es = remove_first p (remain p c es)"
  by (induction p c es rule: remain.induct) (auto split: nat.splits)

lemma remain_all:
  "length (pulse_events p es) = c \<Longrightarrow> remain p c es = remain (p + 1) 0 es"
  by (induction p c es rule: remain.induct) (auto split: nat.splits)

text \<open>Over lists the search finds the first event of the pulse.\<close>

lemma scan_list_found:
  assumes "0 \<le> i" "\<forall>m < nat i. timestamp (q ! m) \<noteq> p" "pulse_events p q \<noteq> []" "nat i \<le> length q"
  obtains j where "scan list_queue q p i a = (Some (int j), Some (hd (pulse_events p q)))"
    and "j < length q" "q ! j = hd (pulse_events p q)" "\<forall>m < j. timestamp (q ! m) \<noteq> p"
    and "list_discard q (int j) = remove_first p q"
proof -
  define j where "j = length (takeWhile (\<lambda>e. timestamp e \<noteq> p) q)"
  have ex: "\<exists>e \<in> set q. timestamp e = p"
    using assms(3) by (auto simp: pulse_events_def filter_empty_conv)
  have j: "j < length q" unfolding j_def using ex
    by (metis (mono_tags, lifting) length_takeWhile_le le_neq_implies_less takeWhile_eq_all_conv
        takeWhile_eq_take take_all_iff order_refl)
  have tsj: "timestamp (q ! j) = p" unfolding j_def using j j_def
    by (metis (mono_tags, lifting) nth_length_takeWhile)
  have before: "\<forall>m < j. timestamp (q ! m) \<noteq> p" unfolding j_def
    by (metis (mono_tags, lifting) nth_mem set_takeWhileD takeWhile_nth)
  have hd: "q ! j = hd (pulse_events p q) \<and> list_discard q (int j) = remove_first p q"
    using j tsj before
  proof (induction q arbitrary: j)
    case Nil
    then show ?case by simp
  next
    case (Cons e q)
    show ?case
    proof (cases j)
      case 0
      then show ?thesis using Cons.prems by (simp add: list_discard_def)
    next
      case (Suc j')
      then have ne: "timestamp e \<noteq> p" using Cons.prems by auto
      have "\<forall>m < j'. timestamp (q ! m) \<noteq> p" using Cons.prems Suc by auto
      then show ?thesis using Cons.IH [of j'] Cons.prems Suc ne
        by (simp add: list_discard_def nat_add_distrib)
    qed
  qed
  have "nat i \<le> j" using assms(2) tsj not_le by blast
  then have "scan list_queue q p i a = (Some (int j), Some (q ! j))"
    using assms(1) before
  proof (induction "j - nat i" arbitrary: i a)
    case 0
    then have "i = int j" by simp
    then show ?case using j tsj by (subst scan.simps) simp
  next
    case (Suc n)
    then have i: "nat i < j" "i < int j" by auto
    then have "scan list_queue q p (i + 1) b = (Some (int j), Some (q ! j))" for b
      using Suc.hyps(1) [of "i + 1" b] Suc.hyps(2) Suc.prems by (auto simp: nat_add_distrib)
    then show ?case using Suc.prems i j by (auto simp: scan.simps [of list_queue q p i a])
  qed
  then show ?thesis using that j hd before by auto
qed

lemma scan_list_none:
  "pulse_events p q = [] \<Longrightarrow> 0 \<le> i \<Longrightarrow> fst (scan list_queue q p i a) = None"
proof (induction "nat (int (length q) - i)" arbitrary: i a rule: less_induct)
  case less
  have "fst (scan list_queue q p (i + 1) b) = None" if "i < int (length q)" for b
    using less that by simp
  moreover have "timestamp (q ! nat i) \<noteq> p" if "i < int (length q)"
    using less.prems that by (auto simp: pulse_events_def filter_empty_conv)
  ultimately show ?case by (auto simp: scan.simps [of list_queue q p i a])
qed

lemma scan_list_iff:
  "fst (scan list_queue q p 0 None) \<noteq> None \<longleftrightarrow> pulse_events p q \<noteq> []"
  using scan_list_none [of p q 0 None] scan_list_found [of 0 q p None] by fastforce

lemma remove_first_nth:
  "m < j \<Longrightarrow> j < length q \<Longrightarrow> \<forall>m < j. timestamp (q ! m) \<noteq> p \<Longrightarrow> remove_first p q ! m = q ! m"
proof (induction p q arbitrary: m j rule: remove_first.induct)
  case (2 p e q)
  then obtain j' where j: "j = Suc j'" by (cases j) auto
  then have "\<forall>m < j'. timestamp (q ! m) \<noteq> p" "timestamp e \<noteq> p" using "2.prems" by auto
  then show ?case using "2.IH" [of _ j'] "2.prems" j by (cases m) auto
qed simp

lemma length_remove_first:
  "pulse_events p q \<noteq> [] \<Longrightarrow> length (remove_first p q) = length q - 1"
proof (induction p q rule: remove_first.induct)
  case (2 p e q)
  then show ?case by (cases q) (auto split: if_splits)
qed simp

section \<open>The aggregate of a pulse\<close>

definition start_event :: "int \<Rightarrow> metrics \<Rightarrow> metrics" where
  "start_event p e = e\<lparr>timestamp := p, parent_rank := (parent_rank e - 1) sdiv max_degree e\<rparr>"

definition fold_event :: "cod_arith \<Rightarrow> metrics \<Rightarrow> metrics \<Rightarrow> metrics" where
  "fold_event ar g e = g\<lparr>gather_info := map2 (combine ar) (gather_info g) (gather_info e)\<rparr>"

definition pulse_result :: "cod_arith \<Rightarrow> int \<Rightarrow> metrics list \<Rightarrow> metrics" where
  "pulse_result ar p es = foldl (fold_event ar) (start_event p (hd es)) (tl es)"

text \<open>
  The events of a pulse fit together: the first one carries the fields from which the program
  computes the node's degree (one less than the number \<open>k\<close> of senders), and all have as many
  metrics as the first.
\<close>

definition pulse_ok :: "nat \<Rightarrow> metrics list \<Rightarrow> bool" where
  "pulse_ok k es \<longleftrightarrow> es = [] \<or>
     (let a = hd es in
        degree_loop (max_degree a) (nprocs a) (parent_rank a) 1 0 = Inr (int k - 1) \<and>
        parent_of (max_degree a) (parent_rank a) = Inr ((parent_rank a - 1) sdiv max_degree a) \<and>
        (\<forall>e \<in> set es. metrics_nr e = metrics_nr a \<and> int (length (gather_info e)) = metrics_nr a))"

lemma pulse_result_snoc:
  "es \<noteq> [] \<Longrightarrow> pulse_result ar p (es @ [e]) = fold_event ar (pulse_result ar p es) e"
  by (cases es) (simp_all add: pulse_result_def)

lemma pulse_result_length:
  "es \<noteq> [] \<Longrightarrow> \<forall>e \<in> set es. length (gather_info e) = n \<Longrightarrow>
     length (gather_info (pulse_result ar p es)) = n"
proof (induction es rule: rev_induct)
  case (snoc e es)
  then show ?case
    by (cases "es = []") (simp_all add: pulse_result_snoc fold_event_def, simp add: pulse_result_def start_event_def)
qed simp

lemma pulse_ok_lengths:
  "pulse_ok k es \<Longrightarrow> e \<in> set es \<Longrightarrow> f \<in> set es \<Longrightarrow>
     length (gather_info e) = length (gather_info f) \<and> metrics_nr e = int (length (gather_info f))"
  by (auto simp: pulse_ok_def Let_def) (metis of_nat_eq_iff)

lemma pulse_ok_degree:
  "pulse_ok k es \<Longrightarrow> es \<noteq> [] \<Longrightarrow>
     degree_loop (max_degree (hd es)) (nprocs (hd es)) (parent_rank (hd es)) 1 0 = Inr (int k - 1)"
  and pulse_ok_parent:
  "pulse_ok k es \<Longrightarrow> es \<noteq> [] \<Longrightarrow>
     parent_of (max_degree (hd es)) (parent_rank (hd es))
       = Inr ((parent_rank (hd es) - 1) sdiv max_degree (hd es))"
  by (simp_all only: pulse_ok_def Let_def) blast+

section \<open>The invariant\<close>

text \<open>A pulse is being aggregated: \<open>c\<close> of its events have been taken.\<close>

definition active :: "nat \<Rightarrow> cod_arith \<Rightarrow> metrics list \<Rightarrow> metrics cod_state \<Rightarrow> metrics list \<Rightarrow>
    nat \<Rightarrow> nat \<Rightarrow> bool" where
  "active k ar es st q p c \<longleftrightarrow>
     pulse_timestamp st = int p \<and> s_count st = int c \<and> 1 \<le> c \<and> c \<le> k \<and>
     c \<le> length (pulse_events (int p) es) \<and> q = remain (int p) c es \<and>
     0 \<le> first_found_index st \<and> nat (first_found_index st) \<le> length q \<and>
     (\<forall>m < nat (first_found_index st). timestamp (q ! m) \<noteq> int p) \<and>
     current_node_degree st = int k - 1 \<and>
     aggregated_event st = pulse_result ar (int p) (take c (pulse_events (int p) es))"

text \<open>No event of the pulse has been taken.\<close>

definition idle :: "metrics list \<Rightarrow> metrics cod_state \<Rightarrow> metrics list \<Rightarrow> nat \<Rightarrow> bool" where
  "idle es st q p \<longleftrightarrow>
     pulse_timestamp st = int p \<and> first_found_index st = -1 \<and> q = remain (int p) 0 es"

lemma cod_first_step:
  assumes "idle es st q p" "pulse_ok k (pulse_events (int p) es)" "pulse_events (int p) es \<noteq> []"
    and "1 \<le> k"
  shows "\<exists>st1 q1. cod_first list_queue st q = Inr (st1, q1) \<and> active k ar es st1 q1 p 1"
proof -
  let ?es = "pulse_events (int p) es" and ?e = "hd (pulse_events (int p) es)"
  have st: "pulse_timestamp st = int p" and q: "q = remain (int p) 0 es"
    using assms(1) by (auto simp: idle_def)
  have pq: "pulse_events (int p) q = ?es" using pulse_remain [of "int p" 0 es] q by simp
  obtain j where j: "scan list_queue q (int p) 0 None = (Some (int j), Some ?e)"
      "j < length q" "q ! j = ?e" "\<forall>m < j. timestamp (q ! m) \<noteq> int p"
      "list_discard q (int j) = remove_first (int p) q"
    using scan_list_found [of 0 q "int p" None] assms(3) pq by auto
  have e: "?e \<in> set ?es" using assms(3) by simp
  have "metrics_nr ?e = int (length (gather_info ?e))" using pulse_ok_lengths [OF assms(2) e e] ..
  then have "copy_gather (metrics_nr ?e) (gather_info ?e) = Inr (gather_info ?e)"
    by (simp add: copy_gather_def)
  note ok = this pulse_ok_degree [OF assms(2,3)] pulse_ok_parent [OF assms(2,3)]
  define st1 where "st1 = st\<lparr>s_count := 1, s_max_degree := max_degree ?e,
    first_found_index := int j, aggregated_event := start_event (int p) ?e,
    current_node_degree := int k - 1\<rparr>"
  have "cod_first list_queue st q = Inr (st1, remove_first (int p) q)"
    using ok j st by (simp add: cod_first_def Let_def cod_degree_def st1_def start_event_def)
  moreover have "active k ar es st1 (remove_first (int p) q) p 1"
  proof -
    have "remove_first (int p) q = remain (int p) 1 es"
      unfolding q One_nat_def by (rule remain_Suc [symmetric])
    moreover have "j \<le> length (remove_first (int p) q)"
      using length_remove_first [of "int p" q] j(2) pq assms(3) by simp
    moreover have "\<forall>m < j. timestamp (remove_first (int p) q ! m) \<noteq> int p"
      using j remove_first_nth by simp
    moreover have "pulse_result ar (int p) (take 1 ?es) = start_event (int p) ?e"
      using assms(3) by (cases ?es) (simp_all add: pulse_result_def)
    ultimately show ?thesis
      using assms(3,4) st by (auto simp: active_def st1_def Suc_le_eq)
  qed
  ultimately show ?thesis by blast
qed

lemma cod_next_step:
  assumes a: "active k ar es st q p c" "c < length (pulse_events (int p) es)" "c < k"
    and ok: "pulse_ok k (pulse_events (int p) es)"
  shows "\<exists>st1 q1. cod_next list_queue ar st q = Inr (st1, q1) \<and> active k ar es st1 q1 p (Suc c)"
proof -
  let ?es = "pulse_events (int p) es" and ?e = "pulse_events (int p) es ! c"
  have st: "pulse_timestamp st = int p" "s_count st = int c" "1 \<le> c" "q = remain (int p) c es"
      "0 \<le> first_found_index st" "nat (first_found_index st) \<le> length q"
      "\<forall>m < nat (first_found_index st). timestamp (q ! m) \<noteq> int p"
      "current_node_degree st = int k - 1"
      "aggregated_event st = pulse_result ar (int p) (take c ?es)"
    using a(1) by (auto simp: active_def)
  have pq: "pulse_events (int p) q = drop c ?es" using pulse_remain st(4) by simp
  then have hd: "hd (pulse_events (int p) q) = ?e" "pulse_events (int p) q \<noteq> []"
    using a(2) by (simp_all add: hd_drop_conv_nth)
  obtain j where j: "scan list_queue q (int p) (first_found_index st) None = (Some (int j), Some ?e)"
      "j < length q" "q ! j = ?e" "\<forall>m < j. timestamp (q ! m) \<noteq> int p"
      "list_discard q (int j) = remove_first (int p) q"
    using scan_list_found [of "first_found_index st" q "int p" None] st hd by auto
  have mem: "?e \<in> set ?es" "set (take c ?es) \<subseteq> set ?es" using a(2) by (auto dest: in_set_takeD)
  have ne: "take c ?es \<noteq> []" using st(3) a(2) by auto
  let ?agg = "pulse_result ar (int p) (take c ?es)"
  have len: "length (gather_info ?agg) = length (gather_info ?e)"
    by (rule pulse_result_length [OF ne]) (use pulse_ok_lengths [OF ok] mem in blast)
  have "metrics_nr ?e = int (length (gather_info ?e))" using pulse_ok_lengths [OF ok] mem(1) by blast
  then have cg: "combine_gather ar (metrics_nr ?e) (gather_info ?agg) (gather_info ?e)
      = Inr (map2 (combine ar) (gather_info ?agg) (gather_info ?e))"
    using len by (simp add: combine_gather_def)
  define st1 where "st1 = st\<lparr>aggregated_event := fold_event ar ?agg ?e, s_count := int c + 1,
    first_found_index := int j\<rparr>"
  have "cod_next list_queue ar st q = Inr (st1, remove_first (int p) q)"
    using cg j st by (simp add: cod_next_def Let_def st1_def fold_event_def)
  moreover have "active k ar es st1 (remove_first (int p) q) p (Suc c)"
  proof -
    have "remove_first (int p) q = remain (int p) (Suc c) es"
      using st(4) by (simp only: remain_Suc)
    moreover have "j \<le> length (remove_first (int p) q)"
      using length_remove_first [of "int p" q] j(2) hd(2) by simp
    moreover have "\<forall>m < j. timestamp (remove_first (int p) q ! m) \<noteq> int p"
      using j remove_first_nth by simp
    moreover have "pulse_result ar (int p) (take (Suc c) ?es) = fold_event ar ?agg ?e"
      using a(2) ne by (simp add: take_Suc_conv_app_nth pulse_result_snoc)
    ultimately show ?thesis
      using st a by (auto simp: active_def st1_def Suc_le_eq)
  qed
  ultimately show ?thesis by blast
qed

lemma cod_next_skip:
  assumes "active k ar es st q p c" "length (pulse_events (int p) es) = c"
  shows "cod_next list_queue ar st q = Inr (st, q)"
proof -
  have "pulse_events (int p) q = []" "0 \<le> first_found_index st" "pulse_timestamp st = int p"
    using assms pulse_remain [of "int p" c es] by (auto simp: active_def)
  then show ?thesis using scan_list_none by (simp add: cod_next_def)
qed

section \<open>One activation\<close>

text \<open>The end of a pass: nothing while events are missing, the submission of a full pulse otherwise.\<close>

definition pass_end :: "metrics cod_state \<Rightarrow> metrics list \<Rightarrow>
    (metrics cod_state \<times> metrics list \<times> metrics list \<times> bool) res" where
  "pass_end st q =
     (if s_count st = current_node_degree st + 1 then
        bind_r (c_int (pulse_timestamp st + 1)) (\<lambda>p.
        Inr (st\<lparr>pulse_timestamp := p, first_found_index := -1, s_count := 0\<rparr>, q,
             [aggregated_event st], fst (scan list_queue q p 0 None) \<noteq> None))
      else Inr (st, q, [], False))"

lemma cod_pass_first:
  "first_found_index st = -1 \<Longrightarrow> cod_first list_queue st q = Inr (st1, q1) \<Longrightarrow>
     cod_pass list_queue ar st q = pass_end st1 q1"
  by (simp add: cod_pass_def pass_end_def)

lemma cod_pass_next:
  "active k ar es st q p c \<Longrightarrow> c < k \<Longrightarrow> cod_next list_queue ar st q = Inr (st1, q1) \<Longrightarrow>
     cod_pass list_queue ar st q = pass_end st1 q1"
  by (auto simp: cod_pass_def pass_end_def active_def)

lemma pass_end_partial:
  "active k ar es st q p c \<Longrightarrow> c < k \<Longrightarrow> pass_end st q = Inr (st, q, [], False)"
  by (auto simp: pass_end_def active_def)

lemma pass_end_full:
  assumes "active k ar es st q p k" "length (pulse_events (int p) es) = k" "int p < int_max"
  shows "\<exists>st1. pass_end st q = Inr (st1, q, [pulse_result ar (int p) (pulse_events (int p) es)],
      pulse_events (int (Suc p)) es \<noteq> []) \<and> idle es st1 q (Suc p)"
proof -
  define st1 where "st1 = st\<lparr>pulse_timestamp := int p + 1, first_found_index := -1, s_count := 0\<rparr>"
  have q: "q = remain (int (Suc p)) 0 es"
    using assms(1,2) remain_all [of "int p" es k] by (simp add: active_def add.commute)
  have "pulse_events (int p + 1) q = pulse_events (int p + 1) es"
    using pulse_remain [of "int (Suc p)" 0 es] q by (simp add: add.commute)
  then have "(fst (scan list_queue q (int p + 1) 0 None) \<noteq> None)
      \<longleftrightarrow> pulse_events (int (Suc p)) es \<noteq> []"
    using scan_list_iff [of q "int p + 1"] by (simp add: add.commute)
  moreover have "c_int (int p + 1) = Inr (int p + 1)" using assms(3) by (simp add: c_int_ok)
  ultimately have "pass_end st q = Inr (st1, q,
      [pulse_result ar (int p) (pulse_events (int p) es)], pulse_events (int (Suc p)) es \<noteq> [])"
    using assms(1,2) by (simp add: pass_end_def active_def st1_def)
  moreover have "idle es st1 q (Suc p)" using q by (simp add: idle_def st1_def add.commute)
  ultimately show ?thesis by blast
qed

text \<open>
  The states between activations: a pulse is active, or the next one has not begun. All complete
  pulses before it have been submitted.
\<close>

definition between :: "nat \<Rightarrow> cod_arith \<Rightarrow> metrics list \<Rightarrow> metrics cod_state \<Rightarrow> metrics list \<Rightarrow>
    nat \<Rightarrow> nat \<Rightarrow> bool" where
  "between k ar es st q p c \<longleftrightarrow>
     (if c = 0 then idle es st q p \<and> pulse_events (int p) es = []
      else active k ar es st q p c \<and> c < k)"

text \<open>\<open>K t\<close> is the number of events that the first event of pulse \<open>t\<close> announces.\<close>

definition cod_inv :: "(int \<Rightarrow> nat) \<Rightarrow> cod_arith \<Rightarrow> metrics list \<Rightarrow> metrics cod_state \<Rightarrow> metrics list \<Rightarrow>
    metrics list \<Rightarrow> nat \<Rightarrow> nat \<Rightarrow> bool" where
  "cod_inv K ar es st q out p c \<longleftrightarrow>
     out = map (\<lambda>t. pulse_result ar (int t) (pulse_events (int t) es)) [0 ..< p] \<and>
     (\<forall>t < p. length (pulse_events (int t) es) = K (int t)) \<and> between (K (int p)) ar es st q p c"

text \<open>The pulse of which no event has been taken has queued events: one more pass begins it.\<close>

lemma restart_loop:
  assumes "idle es st q p" "pulse_ok k (pulse_events (int p) es)" "pulse_events (int p) es \<noteq> []"
    and "2 \<le> k"
  shows "\<exists>st1 q1. multi_loop (Suc fuel) list_queue ar st q = Inr (st1, q1, []) \<and>
    active k ar es st1 q1 p 1"
proof -
  obtain st1 q1 where r: "cod_first list_queue st q = Inr (st1, q1)" "active k ar es st1 q1 p 1"
    using cod_first_step [OF assms(1-3), where ar = ar] assms(4) by auto
  have "cod_pass list_queue ar st q = Inr (st1, q1, [], False)"
    using cod_pass_first [OF _ r(1)] pass_end_partial [OF r(2)] assms(1,4) by (simp add: idle_def)
  then show ?thesis using r(2) by simp
qed

text \<open>After a pulse has been completed inside an activation.\<close>

lemma full_loop:
  assumes "cod_pass list_queue ar st q = pass_end st1 q1" "active k ar es st1 q1 p k"
    and "length (pulse_events (int p) es) = k" "int p < int_max" "2 \<le> k'"
    and "pulse_ok k' (pulse_events (int (Suc p)) es)"
  shows "\<exists>st2 q2 c. multi_loop (Suc (Suc fuel)) list_queue ar st q
      = Inr (st2, q2, [pulse_result ar (int p) (pulse_events (int p) es)]) \<and>
    between k' ar es st2 q2 (Suc p) c \<and> c = min 1 (length (pulse_events (int (Suc p)) es))"
proof -
  obtain st2 where e: "pass_end st1 q1
      = Inr (st2, q1, [pulse_result ar (int p) (pulse_events (int p) es)],
          pulse_events (int (Suc p)) es \<noteq> [])" "idle es st2 q1 (Suc p)"
    using pass_end_full [OF assms(2-4)] by blast
  show ?thesis
  proof (cases "pulse_events (int (Suc p)) es = []")
    case True
    then have "between k' ar es st2 q1 (Suc p) 0" using e(2) by (simp add: between_def)
    then show ?thesis using assms(1) e(1) True by (intro exI [of _ st2] exI [of _ q1] exI [of _ 0]) auto
  next
    case False
    obtain st3 q3 where r: "multi_loop (Suc fuel) list_queue ar st2 q1 = Inr (st3, q3, [])"
        "active k' ar es st3 q3 (Suc p) 1"
      using restart_loop [OF e(2) assms(6) False assms(5)] by blast
    then have "between k' ar es st3 q3 (Suc p) 1" using assms(5) by (simp add: between_def)
    moreover have "multi_loop (Suc (Suc fuel)) list_queue ar st q
        = Inr (st3, q3, [pulse_result ar (int p) (pulse_events (int p) es)])"
      using assms(1) e(1) r(1) False by (simp only: multi_loop.simps(2) [of "Suc fuel"]) simp
    moreover have "1 = min 1 (length (pulse_events (int (Suc p)) es))"
      using False by (cases "pulse_events (int (Suc p)) es") auto
    ultimately show ?thesis by blast
  qed
qed

text \<open>A pulse that is being aggregated has at most \<open>k\<close> events, all of which fit together.\<close>

definition pulses_ok :: "nat \<Rightarrow> metrics list \<Rightarrow> bool" where
  "pulses_ok k es \<longleftrightarrow>
     (\<forall>t. length (pulse_events t es) \<le> k \<and> pulse_ok k (pulse_events t es))"

text \<open>The same with a number of its own for every pulse.\<close>

definition pulses_fit :: "(int \<Rightarrow> nat) \<Rightarrow> metrics list \<Rightarrow> bool" where
  "pulses_fit K es \<longleftrightarrow>
     (\<forall>t. length (pulse_events t es) \<le> K t \<and> pulse_ok (K t) (pulse_events t es))"

lemma pulses_ok_fit: "pulses_ok k es \<Longrightarrow> pulses_fit (\<lambda>_. k) es"
  by (simp add: pulses_ok_def pulses_fit_def)

lemma active_snoc:
  assumes "active k ar es st q p c" "int p \<le> timestamp e"
  shows "active k ar (es @ [e]) st (q @ [e]) p c"
proof -
  have c: "c \<le> length (pulse_events (int p) es)" using assms(1) by (simp add: active_def)
  then have "take c (pulse_events (int p) (es @ [e])) = take c (pulse_events (int p) es)" by simp
  moreover have "\<forall>m < nat (first_found_index st). timestamp ((q @ [e]) ! m) \<noteq> int p"
    using assms(1) by (auto simp: active_def nth_append)
  ultimately show ?thesis
    using assms c remain_append [OF assms(2) c] by (auto simp: active_def)
qed

lemma multi_func_Suc2: "multi_func list_queue ar st q = multi_loop (Suc (Suc (length q))) list_queue ar st q"
  by (simp add: multi_func_def add.commute del: multi_loop.simps)

lemma multi_func_idle:
  assumes "idle es st q p" "pulse_events (int p) es = []" "timestamp e = int p"
    and "pulses_fit K (es @ [e])" "2 \<le> K (int p)"
  shows "\<exists>st1 q1. multi_func list_queue ar st (q @ [e]) = Inr (st1, q1, []) \<and>
    active (K (int p)) ar (es @ [e]) st1 q1 p 1"
proof -
  have "idle (es @ [e]) st (q @ [e]) p"
    using assms(1,3) remain_append [of "int p" e 0 es] by (simp add: idle_def)
  moreover have "pulse_ok (K (int p)) (pulse_events (int p) (es @ [e]))"
    using assms(4) unfolding pulses_fit_def by blast
  moreover have "pulse_events (int p) (es @ [e]) \<noteq> []" using assms(3) by simp
  ultimately show ?thesis
    unfolding multi_func_Suc2 by (rule restart_loop [OF _ _ _ assms(5)])
qed

lemma multi_func_active:
  assumes "active (K (int p)) ar es st q p c" "c < K (int p)" "int p \<le> timestamp e"
    and "pulses_fit K (es @ [e])" "\<And>t. 2 \<le> K t" "int p < int_max"
  shows "\<exists>st1 q1 out p1 c1. multi_func list_queue ar st (q @ [e]) = Inr (st1, q1, out) \<and>
    p \<le> p1 \<and> p1 \<le> Suc p \<and>
    out = map (\<lambda>t. pulse_result ar (int t) (pulse_events (int t) (es @ [e]))) [p ..< p1] \<and>
    (p < p1 \<longrightarrow> length (pulse_events (int p) (es @ [e])) = K (int p)) \<and>
    between (K (int p1)) ar (es @ [e]) st1 q1 p1 c1 \<and>
    c1 = (if p1 = p then min (Suc c) (length (pulse_events (int p) (es @ [e])))
          else min 1 (length (pulse_events (int p1) (es @ [e]))))"
proof -
  let ?es = "es @ [e]" and ?q = "q @ [e]"
  note act = active_snoc [OF assms(1,3)]
  have ok: "pulse_ok (K t) (pulse_events t ?es)" "length (pulse_events t ?es) \<le> K t" for t
    using assms(4) unfolding pulses_fit_def by blast+
  have c: "c \<le> length (pulse_events (int p) ?es)" "1 \<le> c" using act by (auto simp: active_def)
  show ?thesis
  proof (cases "length (pulse_events (int p) ?es) = c")
    case True
    have "cod_pass list_queue ar st ?q = Inr (st, ?q, [], False)"
      using cod_pass_next [OF act assms(2) cod_next_skip [OF act True]] pass_end_partial [OF act assms(2)]
      by simp
    then have m: "multi_func list_queue ar st ?q = Inr (st, ?q, [])" by (simp add: multi_func_Suc2)
    show ?thesis
      by (rule exI [of _ st], rule exI [of _ ?q], rule exI [of _ "[]"], rule exI [of _ p],
          rule exI [of _ c]) (use m act assms(2) c True in \<open>simp add: between_def\<close>)
  next
    case False
    then have less: "c < length (pulse_events (int p) ?es)" using c by simp
    obtain st1 q1 where n: "cod_next list_queue ar st ?q = Inr (st1, q1)" "active (K (int p)) ar ?es st1 q1 p (Suc c)"
      using cod_next_step [OF act less assms(2) ok(1)] by blast
    note pass = cod_pass_next [OF act assms(2) n(1)]
    show ?thesis
    proof (cases "Suc c = K (int p)")
      case False
      then have lt: "Suc c < K (int p)" using assms(2) by simp
      have m: "multi_func list_queue ar st ?q = Inr (st1, q1, [])"
        using pass pass_end_partial [OF n(2) lt] by (simp add: multi_func_Suc2)
      show ?thesis
        by (rule exI [of _ st1], rule exI [of _ q1], rule exI [of _ "[]"], rule exI [of _ p],
            rule exI [of _ "Suc c"]) (use m n(2) lt less in \<open>simp add: between_def\<close>)
    next
      case True
      have full: "length (pulse_events (int p) ?es) = K (int p)" using less ok(2) [of "int p"] True by simp
      obtain st2 q2 c2 where f: "multi_func list_queue ar st ?q
            = Inr (st2, q2, [pulse_result ar (int p) (pulse_events (int p) ?es)])"
          "between (K (int (Suc p))) ar ?es st2 q2 (Suc p) c2" "c2 = min 1 (length (pulse_events (int (Suc p)) ?es))"
        using full_loop [OF pass n(2) [unfolded True] full assms(6,5) ok(1)] unfolding multi_func_Suc2
        by blast
      show ?thesis
        by (rule exI [of _ st2], rule exI [of _ q2],
            rule exI [of _ "[pulse_result ar (int p) (pulse_events (int p) ?es)]"],
            rule exI [of _ "Suc p"], rule exI [of _ c2]) (use f full in simp)
    qed
  qed
qed

section \<open>Senders\<close>

text \<open>
  The arrivals with their senders, numbered below \<open>k\<close>. Every sender numbers its events from 0
  and they arrive in that order; the interleaving is arbitrary.
\<close>

definition of_sender :: "nat \<Rightarrow> (nat \<times> metrics) list \<Rightarrow> metrics list" where
  "of_sender s arr = map snd (filter (\<lambda>x. fst x = s) arr)"

definition fifo :: "nat \<Rightarrow> (nat \<times> metrics) list \<Rightarrow> bool" where
  "fifo k arr \<longleftrightarrow> (\<forall>x \<in> set arr. fst x < k) \<and>
     (\<forall>s < k. map timestamp (of_sender s arr) = map int [0 ..< length (of_sender s arr)])"

lemma of_sender_snoc:
  "of_sender s (arr @ [(s', e)]) = (if s' = s then of_sender s arr @ [e] else of_sender s arr)"
  by (simp add: of_sender_def)

lemma fifo_snoc:
  assumes "fifo k (arr @ [(s, e)])"
  shows "fifo k arr" "s < k" "timestamp e = int (length (of_sender s arr))"
proof -
  have s: "s < k" using assms by (simp add: fifo_def)
  have all: "map timestamp (of_sender s' (arr @ [(s, e)]))
      = map int [0 ..< length (of_sender s' (arr @ [(s, e)]))]" if "s' < k" for s'
    using assms that by (simp add: fifo_def)
  have "map timestamp (of_sender s' arr) = map int [0 ..< length (of_sender s' arr)]"
    if "s' < k" for s'
    using all [OF that] by (auto simp: of_sender_snoc split: if_splits)
  then show "fifo k arr" using assms by (simp add: fifo_def)
  show "s < k" by (rule s)
  show "timestamp e = int (length (of_sender s arr))"
    using all [OF s] by (simp add: of_sender_snoc)
qed

text \<open>A pulse has one event of every sender that has sent that many.\<close>

lemma fifo_count:
  "fifo k arr \<Longrightarrow> length (pulse_events (int t) (map snd arr)) = card {s. s < k \<and> t < length (of_sender s arr)}"
proof (induction arr rule: rev_induct)
  case Nil
  then show ?case by (simp add: of_sender_def)
next
  case (snoc x arr)
  obtain s e where x: "x = (s, e)" by (cases x)
  note f = fifo_snoc [OF snoc.prems [unfolded x]]
  let ?n = "length (of_sender s arr)"
  let ?A = "{s'. s' < k \<and> t < length (of_sender s' arr)}"
  have "{s'. s' < k \<and> t < length (of_sender s' (arr @ [x]))} = (if t = ?n then insert s ?A else ?A)"
    using f(2) by (auto simp: x of_sender_snoc)
  moreover have "s \<notin> ?A" if "t = ?n" using that by simp
  moreover have "finite ?A" by simp
  ultimately show ?case using snoc.IH [OF f(1)] f(3) by (auto simp: x)
qed

lemma fifo_count_le: "fifo k arr \<Longrightarrow> length (pulse_events (int t) (map snd arr)) \<le> k"
  using card_mono [of "{..< k}" "{s. s < k \<and> t < length (of_sender s arr)}"]
  by (simp add: fifo_count subset_iff)

lemma fifo_full:
  assumes "fifo k arr" "length (pulse_events (int t) (map snd arr)) = k" "s < k"
  shows "t < length (of_sender s arr)"
proof -
  let ?A = "{s. s < k \<and> t < length (of_sender s arr)}"
  have "?A = {..< k}"
    by (rule card_subset_eq) (use assms(2) in \<open>auto simp: fifo_count [OF assms(1)]\<close>)
  then show ?thesis using assms(3) by blast
qed

lemma fifo_none:
  assumes "fifo k arr" "pulse_events (int t) (map snd arr) = []" "s < k"
  shows "length (of_sender s arr) \<le> t"
proof -
  have "{s. s < k \<and> t < length (of_sender s arr)} = {}"
    using assms(2) fifo_count [OF assms(1), of t] by (simp del: Collect_empty_eq)
  then show ?thesis using assms(3) by fastforce
qed

lemma fifo_nonneg: "fifo k arr \<Longrightarrow> t < 0 \<Longrightarrow> pulse_events t (map snd arr) = []"
proof (induction arr rule: rev_induct)
  case (snoc x arr)
  obtain s e where x: "x = (s, e)" by (cases x)
  show ?case using snoc fifo_snoc [OF snoc.prems(1) [unfolded x]] by (simp add: x)
qed simp

lemma of_sender_le: "length (of_sender s arr) \<le> length arr"
  by (simp add: of_sender_def)

lemma pulse_ok_prefix: "pulse_ok k (xs @ ys) \<Longrightarrow> pulse_ok k xs"
  by (cases xs) (simp_all add: pulse_ok_def Let_def)

lemma pulses_fit_prefix: "pulses_fit K (xs @ ys) \<Longrightarrow> pulses_fit K xs"
  unfolding pulses_fit_def pulse_events_simps(2) using pulse_ok_prefix
  by (metis add_leD1 length_append)

section \<open>The run\<close>

lemma arrivals_append:
  "arrivals Q ar s (es @ fs) = bind_r (arrivals Q ar s es) (\<lambda>s1. arrivals Q ar s1 fs)"
  by (induction es arbitrary: s) (auto simp: bind_r_assoc)

text \<open>
  An arrival order keeps up when, whenever the last event of a pulse arrives, at most one event of
  the next pulse is already queued. The program takes two events out of the queue in an activation
  that completes a pulse, and one otherwise, so that such an order leaves no backlog.
\<close>

definition keeps_up :: "nat \<Rightarrow> (nat \<times> metrics) list \<Rightarrow> bool" where
  "keeps_up k arr \<longleftrightarrow>
     (\<forall>i < length arr.
        length (pulse_events (timestamp (snd (arr ! i))) (map snd (take (Suc i) arr))) = k \<longrightarrow>
        length (pulse_events (timestamp (snd (arr ! i)) + 1) (map snd (take i arr))) \<le> 1)"

lemma keeps_up_snoc:
  assumes "keeps_up k (arr @ [(s, e)])"
  shows "keeps_up k arr"
    and "length (pulse_events (timestamp e) (map snd arr @ [e])) = k \<Longrightarrow>
      length (pulse_events (timestamp e + 1) (map snd arr)) \<le> 1"
proof -
  show "keeps_up k arr"
    unfolding keeps_up_def
  proof (intro allI impI)
    fix i
    assume i: "i < length arr"
      "length (pulse_events (timestamp (snd (arr ! i))) (map snd (take (Suc i) arr))) = k"
    show "length (pulse_events (timestamp (snd (arr ! i)) + 1) (map snd (take i arr))) \<le> 1"
      using assms [unfolded keeps_up_def, rule_format, of i] i by (simp add: nth_append)
  qed
  show "length (pulse_events (timestamp e) (map snd arr @ [e])) = k \<Longrightarrow>
      length (pulse_events (timestamp e + 1) (map snd arr)) \<le> 1"
    using assms [unfolded keeps_up_def, rule_format, of "length arr"] by simp
qed

text \<open>
  The number that an event announces may be too large, never too small: then its pulse is not completed, and the
  ones that are have all their events.
\<close>

lemma run_fits:
  assumes "fifo k arr" "pulses_fit K (map snd arr)" "2 \<le> k" "int (length arr) < int_max" "\<And>t. k \<le> K t"
  shows "\<exists>st q out p c. arrivals list_queue ar (cod_init metrics_zero, [], []) (map snd arr)
      = Inr (st, q, out) \<and> cod_inv K ar (map snd arr) st q out p c \<and>
    (keeps_up k arr \<longrightarrow> c = length (pulse_events (int p) (map snd arr)))"
  using assms(1-4)
proof (induction arr rule: rev_induct)
  case Nil
  have "cod_inv K ar [] (cod_init metrics_zero) [] [] 0 0"
    by (simp add: cod_inv_def between_def idle_def cod_init_def)
  then show ?case by (intro exI [of _ "cod_init metrics_zero"] exI [of _ "[]"] exI [of _ 0]) simp
next
  case (snoc x arr)
  obtain s e where x: "x = (s, e)" by (cases x)
  let ?es = "map snd arr"
  note f = fifo_snoc [OF snoc.prems(1) [unfolded x]]
  have ok: "pulses_fit K (?es @ [e])" using snoc.prems(2) x by simp
  obtain st q out p c where run: "arrivals list_queue ar (cod_init metrics_zero, [], []) ?es = Inr (st, q, out)"
    and inv: "cod_inv K ar ?es st q out p c"
    and up: "keeps_up k arr \<longrightarrow> c = length (pulse_events (int p) ?es)"
    using snoc.IH [OF f(1) pulses_fit_prefix [OF ok] snoc.prems(3)] snoc.prems(4) by auto
  have exact: "K t = k" if "length (pulse_events t (map snd a)) = K t" "fifo k a" "0 \<le> t" for t a
    using fifo_count_le [OF that(2), of "nat t"] that assms(5) [of t] by simp
  have two: "2 \<le> K t" for t using snoc.prems(3) assms(5) [of t] by simp
  have full: "\<forall>t < p. length (pulse_events (int t) ?es) = K (int t)"
    and out: "out = map (\<lambda>t. pulse_result ar (int t) (pulse_events (int t) ?es)) [0 ..< p]"
    and btw: "between (K (int p)) ar ?es st q p c"
    using inv by (auto simp: cod_inv_def)
  have late: "t < length (of_sender s arr)" if "t < p" for t
    using fifo_full [OF f(1) _ f(2)] full that exact [OF _ f(1), of "int t"] by simp
  then have ps: "p \<le> length (of_sender s arr)" by (meson not_le order_refl)
  have ge: "int p \<le> timestamp e" using f(3) ps by simp
  have p: "int p < int_max" using ps of_sender_le [of s arr] snoc.prems(4) by simp
  have old: "pulse_events (int t) (?es @ [e]) = pulse_events (int t) ?es" if "t < p" for t
    using that ge by simp
  have step: "\<exists>st1 q1 o1 p1 c1. multi_func list_queue ar st (q @ [e]) = Inr (st1, q1, o1) \<and>
      p \<le> p1 \<and> p1 \<le> Suc p \<and>
      o1 = map (\<lambda>t. pulse_result ar (int t) (pulse_events (int t) (?es @ [e]))) [p ..< p1] \<and>
      (p < p1 \<longrightarrow> length (pulse_events (int p) (?es @ [e])) = K (int p)) \<and>
      between (K (int p1)) ar (?es @ [e]) st1 q1 p1 c1 \<and>
      (keeps_up k (arr @ [x]) \<longrightarrow> c1 = length (pulse_events (int p1) (?es @ [e])))"
  proof (cases "c = 0")
    case True
    then have idle: "idle ?es st q p" "pulse_events (int p) ?es = []"
      using btw by (auto simp: between_def)
    have ts: "timestamp e = int p" using fifo_none [OF f(1) idle(2) f(2)] ps f(3) by simp
    then obtain st1 q1 where m: "multi_func list_queue ar st (q @ [e]) = Inr (st1, q1, [])"
        "active (K (int p)) ar (?es @ [e]) st1 q1 p 1"
      using multi_func_idle [OF idle _ ok two] by blast
    then have b: "between (K (int p)) ar (?es @ [e]) st1 q1 p 1" using two [of "int p"] by (simp add: between_def)
    show ?thesis
      by (rule exI [of _ st1], rule exI [of _ q1], rule exI [of _ "[]"], rule exI [of _ p],
          rule exI [of _ 1]) (use m(1) b idle(2) ts in simp)
  next
    case False
    then have "active (K (int p)) ar ?es st q p c" "c < K (int p)" using btw by (auto simp: between_def)
    then obtain st1 q1 o1 p1 c1 where m: "multi_func list_queue ar st (q @ [e]) = Inr (st1, q1, o1)"
        "p \<le> p1" "p1 \<le> Suc p"
        "o1 = map (\<lambda>t. pulse_result ar (int t) (pulse_events (int t) (?es @ [e]))) [p ..< p1]"
        "p < p1 \<longrightarrow> length (pulse_events (int p) (?es @ [e])) = K (int p)"
        "between (K (int p1)) ar (?es @ [e]) st1 q1 p1 c1"
        "c1 = (if p1 = p then min (Suc c) (length (pulse_events (int p) (?es @ [e])))
          else min 1 (length (pulse_events (int p1) (?es @ [e]))))"
      using multi_func_active [OF _ _ ge ok two p] by blast
    have "c1 = length (pulse_events (int p1) (?es @ [e]))" if up1: "keeps_up k (arr @ [x])"
    proof (cases "p1 = p")
      case True
      then show ?thesis using m(7) up keeps_up_snoc(1) [OF up1 [unfolded x]] by auto
    next
      case False
      then have p1: "p1 = Suc p" using m(2,3) by simp
      have c: "c = length (pulse_events (int p) ?es)" using up keeps_up_snoc(1) [OF up1 [unfolded x]] by simp
      then have ts: "timestamp e = int p" using m(5) p1 btw False \<open>c \<noteq> 0\<close>
        by (auto simp: between_def split: if_splits)
      then have "length (pulse_events (int p + 1) ?es) \<le> 1"
        using keeps_up_snoc(2) [OF up1 [unfolded x]] m(5) p1 ts
          exact [OF _ snoc.prems(1), of "int p"] x by simp
      then show ?thesis using m(7) p1 ts by (simp add: add.commute)
    qed
    then show ?thesis using m(1-6) by blast
  qed
  then obtain st1 q1 o1 p1 c1 where m: "multi_func list_queue ar st (q @ [e]) = Inr (st1, q1, o1)"
      "p \<le> p1" "p1 \<le> Suc p"
      "o1 = map (\<lambda>t. pulse_result ar (int t) (pulse_events (int t) (?es @ [e]))) [p ..< p1]"
      "p < p1 \<longrightarrow> length (pulse_events (int p) (?es @ [e])) = K (int p)"
      "between (K (int p1)) ar (?es @ [e]) st1 q1 p1 c1"
      "keeps_up k (arr @ [x]) \<longrightarrow> c1 = length (pulse_events (int p1) (?es @ [e]))"
    by blast
  have "[0 ..< p1] = [0 ..< p] @ [p ..< p1]" using upt_add_eq_append [of 0 p "p1 - p"] m(2) by simp
  then have "out @ o1 = map (\<lambda>t. pulse_result ar (int t) (pulse_events (int t) (?es @ [e]))) [0 ..< p1]"
    unfolding out m(4) using old by simp
  moreover have "\<forall>t < p1. length (pulse_events (int t) (?es @ [e])) = K (int t)"
    using full old m(3,5) by (metis less_Suc_eq less_le_trans)
  ultimately have i1: "cod_inv K ar (?es @ [e]) st1 q1 (out @ o1) p1 c1"
    using m(6) by (simp only: cod_inv_def)
  have r1: "arrivals list_queue ar (cod_init metrics_zero, [], []) (map snd (arr @ [x]))
      = Inr (st1, q1, out @ o1)"
    using run m(1) by (simp add: x arrivals_append arrive_def)
  have u1: "keeps_up k (arr @ [x]) \<longrightarrow> c1 = length (pulse_events (int p1) (map snd (arr @ [x])))"
    using m(7) by (simp add: x)
  have m1: "map snd (arr @ [x]) = ?es @ [e]" by (simp add: x)
  show ?case
    by (rule exI [of _ st1], rule exI [of _ q1], rule exI [of _ "out @ o1"], rule exI [of _ p1],
        rule exI [of _ c1], intro conjI, rule r1, simp only: m1 i1, rule u1)
qed

lemma run_inv:
  assumes "fifo k arr" "pulses_ok k (map snd arr)" "2 \<le> k" "int (length arr) < int_max"
  shows "\<exists>st q out p c. arrivals list_queue ar (cod_init metrics_zero, [], []) (map snd arr)
      = Inr (st, q, out) \<and> cod_inv (\<lambda>_. k) ar (map snd arr) st q out p c \<and>
    (keeps_up k arr \<longrightarrow> c = length (pulse_events (int p) (map snd arr)))"
  by (rule run_fits [OF assms(1) pulses_ok_fit [OF assms(2)] assms(3,4)]) simp

text \<open>The same over any queue that has the laws, by simulation.\<close>

lemma run_any_queue:
  assumes "event_queue Q elems" "elems q0 = []"
    and "arrivals list_queue ar (cod_init metrics_zero, [], []) es = Inr (st, q, out)"
  shows "\<exists>q1. arrivals Q ar (cod_init metrics_zero, q0, []) es = Inr (st, q1, out) \<and> elems q1 = q"
proof -
  have "with_queue elems (arrivals Q ar (cod_init metrics_zero, q0, []) es) = Inr (st, q, out)"
    using arrivals_sim [OF assms(1), of "cod_init metrics_zero" ar q0 "[]" es] assms(2,3)
    by (simp add: cod_init_def)
  then show ?thesis
    by (cases "arrivals Q ar (cod_init metrics_zero, q0, []) es") (auto simp: with_queue_def)
qed

section \<open>What an aggregate is, over the natural numbers\<close>

definition summarises :: "aggregators \<Rightarrow> aggregators list \<Rightarrow> bool" where
  "summarises r xs \<longleftrightarrow>
     unat (agg_sum r) = (\<Sum>x\<leftarrow>xs. unat (agg_sum x)) \<and>
     unat (agg_min r) = Min ((\<lambda>x. unat (agg_min x)) ` set xs) \<and>
     unat (agg_max r) = Max ((\<lambda>x. unat (agg_max x)) ` set xs)"

definition within :: "nat \<Rightarrow> aggregators list \<Rightarrow> bool" where
  "within bound xs \<longleftrightarrow>
     (\<Sum>x\<leftarrow>xs. unat (agg_sum x)) \<le> bound \<and>
     (\<forall>x \<in> set xs. unat (agg_min x) \<le> bound \<and> unat (agg_max x) \<le> bound)"

lemma summarises_single: "summarises x [x]"
  by (simp add: summarises_def)

context exact_arith begin

lemma combine_snoc:
  assumes "summarises r xs" "xs \<noteq> []" "within bound (xs @ [x])"
  shows "summarises (combine ar r x) (xs @ [x])"
proof -
  let ?mn = "(\<lambda>x. unat (agg_min x)) ` set xs" and ?mx = "(\<lambda>x. unat (agg_max x)) ` set xs"
  have r: "unat (agg_sum r) = (\<Sum>x\<leftarrow>xs. unat (agg_sum x))" "unat (agg_min r) = Min ?mn"
      "unat (agg_max r) = Max ?mx"
    using assms(1) by (simp_all add: summarises_def)
  have fin: "finite ?mn" "?mn \<noteq> {}" "finite ?mx" "?mx \<noteq> {}" using assms(2) by auto
  have "Min ?mn \<in> ?mn" "Max ?mx \<in> ?mx" using fin by (auto intro: Min_in Max_in)
  then have b: "unat (agg_min r) \<le> bound" "unat (agg_max r) \<le> bound"
      "unat (agg_min x) \<le> bound" "unat (agg_max x) \<le> bound"
      "unat (agg_sum r) + unat (agg_sum x) \<le> bound"
    using assms(3) r by (auto simp: within_def)
  have "unat (agg_sum (combine ar r x)) = unat (agg_sum r) + unat (agg_sum x)"
    "unat (agg_min (combine ar r x)) = min (unat (agg_min x)) (unat (agg_min r))"
    "unat (agg_max (combine ar r x)) = max (unat (agg_max x)) (unat (agg_max r))"
    using less_exact [OF b(3,1)] less_exact [OF b(2,4)] add_exact [OF b(5)]
    by (simp_all add: combine_def Let_def min_def max_def)
  then show ?thesis using r fin by (simp add: summarises_def)
qed

lemma summary_of_pulse:
  assumes "es \<noteq> []" "\<forall>e \<in> set es. length (gather_info e) = n" "j < n"
    and "within bound (map (\<lambda>e. gather_info e ! j) es)"
  shows "summarises (gather_info (pulse_result ar p es) ! j) (map (\<lambda>e. gather_info e ! j) es)"
  using assms
proof (induction es rule: rev_induct)
  case (snoc e es)
  show ?case
  proof (cases "es = []")
    case True
    then show ?thesis by (simp add: pulse_result_def start_event_def summarises_single)
  next
    case False
    let ?f = "\<lambda>e. gather_info e ! j"
    have w: "within bound (map ?f es)" using snoc.prems(4) by (auto simp: within_def)
    have "summarises (?f (pulse_result ar p es)) (map ?f es)"
      using snoc.IH [OF False _ snoc.prems(3) w] snoc.prems(2) by simp
    then have "summarises (combine ar (?f (pulse_result ar p es)) (?f e)) (map ?f es @ [?f e])"
      using combine_snoc False snoc.prems(4) by simp
    moreover have "length (gather_info (pulse_result ar p es)) = n" "length (gather_info e) = n"
      using pulse_result_length [OF False, of n] snoc.prems(2) by auto
    ultimately show ?thesis using False snoc.prems(3)
      by (simp add: pulse_result_snoc fold_event_def)
  qed
qed simp

end

text \<open>An aggregate of aggregates is an aggregate of everything below.\<close>

lemma summarises_concat:
  assumes "summarises r rs" "rs \<noteq> []" "list_all2 summarises rs xss" "\<forall>xs \<in> set xss. xs \<noteq> []"
  shows "summarises r (concat xss)"
proof -
  let ?mn = "\<lambda>x. unat (agg_min x)" and ?mx = "\<lambda>x. unat (agg_max x)"
  have s: "(\<Sum>x\<leftarrow>rs. unat (agg_sum x)) = (\<Sum>x\<leftarrow>concat xss. unat (agg_sum x))"
    using assms(3) by (induction rule: list_all2_induct) (auto simp: summarises_def)
  have "Min (?mn ` set rs) = Min (?mn ` set (concat xss)) \<and>
      Max (?mx ` set rs) = Max (?mx ` set (concat xss))"
    using assms(3,2,4)
  proof (induction rule: list_all2_induct)
    case (Cons x rs xs xss)
    show ?case
    proof (cases "rs = []")
      case True
      then show ?thesis using Cons by (simp add: summarises_def)
    next
      case False
      then have "xss \<noteq> []" using Cons.hyps by auto
      then obtain ys where "ys \<in> set xss" "ys \<noteq> []" using Cons.prems by (cases xss) auto
      then have "set (concat xss) \<noteq> {}" by auto
      then show ?thesis using Cons False
        by (simp add: summarises_def image_Un Min_Un Max_Un)
    qed
  qed simp
  then show ?thesis using assms(1) s by (simp add: summarises_def)
qed

lemma fifo_earlier:
  assumes "fifo k arr" "length (pulse_events (int t) (map snd arr)) = k" "u \<le> t"
  shows "length (pulse_events (int u) (map snd arr)) = k"
proof -
  have "{s. s < k \<and> u < length (of_sender s arr)} = {..< k}"
    using fifo_full [OF assms(1,2)] assms(3) by (auto intro: order_le_less_trans)
  then show ?thesis by (simp add: fifo_count [OF assms(1)])
qed

section \<open>The outputs of a run\<close>

lemma run_outputs:
  assumes "event_queue Q elems" "elems q0 = []"
    and "fifo k arr" "pulses_ok k (map snd arr)" "2 \<le> k" "int (length arr) < int_max"
    and "arrivals Q ar (cod_init metrics_zero, q0, []) (map snd arr) = Inr (st, q, out)" "p < length out"
  shows "out ! p = pulse_result ar (int p) (pulse_events (int p) (map snd arr))"
    "length (pulse_events (int p) (map snd arr)) = k"
proof -
  obtain st1 q1 out1 m c where r: "arrivals list_queue ar (cod_init metrics_zero, [], []) (map snd arr)
      = Inr (st1, q1, out1)" and i: "cod_inv (\<lambda>_. k) ar (map snd arr) st1 q1 out1 m c"
    using run_inv [OF assms(3-6)] by blast
  have "out = out1" using run_any_queue [OF assms(1,2) r] assms(7) by auto
  then show "out ! p = pulse_result ar (int p) (pulse_events (int p) (map snd arr))"
    "length (pulse_events (int p) (map snd arr)) = k"
    using i assms(8) unfolding cod_inv_def by auto
qed

lemma run_complete:
  assumes "fifo k arr" "pulses_ok k (map snd arr)" "2 \<le> k" "int (length arr) < int_max" "keeps_up k arr"
  shows "\<exists>st q m. arrivals list_queue ar (cod_init metrics_zero, [], []) (map snd arr) =
      Inr (st, q, map (\<lambda>t. pulse_result ar (int t) (pulse_events (int t) (map snd arr))) [0 ..< m]) \<and>
    (\<forall>t. t < m \<longleftrightarrow> length (pulse_events (int t) (map snd arr)) = k)"
proof -
  obtain st q out p c where r: "arrivals list_queue ar (cod_init metrics_zero, [], []) (map snd arr)
      = Inr (st, q, out)" and i: "cod_inv (\<lambda>_. k) ar (map snd arr) st q out p c"
      and c: "c = length (pulse_events (int p) (map snd arr))"
    using run_inv [OF assms(1-4)] assms(5) by blast
  have "length (pulse_events (int p) (map snd arr)) \<noteq> k"
    using i c assms(3) by (auto simp: cod_inv_def between_def split: if_splits)
  then have lt: "t < p" if "length (pulse_events (int t) (map snd arr)) = k" for t
    using fifo_earlier [OF assms(1) that, of p] by linarith
  have all: "length (pulse_events (int t) (map snd arr)) = k" if "t < p" for t
    using i that unfolding cod_inv_def by blast
  have "\<forall>t. t < p \<longleftrightarrow> length (pulse_events (int t) (map snd arr)) = k"
    using lt all by (intro allI iffI)
  then show ?thesis using r i unfolding cod_inv_def by blast
qed

lemma run_first_output:
  assumes "fifo k arr" "pulses_ok k (map snd arr)" "2 \<le> k" "int (length arr) < int_max" "keeps_up k arr"
    and "length (pulse_events 0 (map snd arr)) = k"
  shows "\<exists>st q out. arrivals list_queue ar (cod_init metrics_zero, [], []) (map snd arr) = Inr (st, q, out) \<and>
    0 < length out"
proof -
  obtain st q m where r: "arrivals list_queue ar (cod_init metrics_zero, [], []) (map snd arr) =
      Inr (st, q, map (\<lambda>t. pulse_result ar (int t) (pulse_events (int t) (map snd arr))) [0 ..< m])"
      and m: "\<forall>t. t < m \<longleftrightarrow> length (pulse_events (int t) (map snd arr)) = k"
    using run_complete [OF assms(1-5)] by blast
  have "0 < m" using m [rule_format, of 0] assms(6) by simp
  show ?thesis
    by (rule exI [of _ st], rule exI [of _ q], rule exI, rule conjI, rule r) (simp add: \<open>0 < m\<close>)
qed

text \<open>The events of a pulse agree in the number of their metrics.\<close>

lemma pulses_ok_metrics:
  assumes "pulses_ok k es" "e \<in> set (pulse_events p es)"
  shows "length (gather_info e) = length (gather_info (hd (pulse_events p es)))"
proof -
  have "pulse_ok k (pulse_events p es)" using assms(1) by (simp add: pulses_ok_def)
  moreover have "hd (pulse_events p es) \<in> set (pulse_events p es)" using assms(2) by (cases "pulse_events p es") auto
  ultimately show ?thesis using pulse_ok_lengths assms(2) by blast
qed

lemma pulse_result_fixed:
  "quit (pulse_result ar p (e # es)) = quit e \<and>
   update_file (pulse_result ar p (e # es)) = update_file e \<and>
   metrics_nr (pulse_result ar p (e # es)) = metrics_nr e \<and>
   nprocs (pulse_result ar p (e # es)) = nprocs e \<and> timestamp (pulse_result ar p (e # es)) = p"
proof (induction es rule: rev_induct)
  case Nil
  then show ?case by (simp add: pulse_result_def start_event_def)
next
  case (snoc x es)
  then show ?case
    using pulse_result_snoc [of "e # es" ar p x] by (simp add: fold_event_def)
qed

lemma pulse_result_negative:
  assumes "\<forall>x \<in> set es. length (gather_info x) = length (gather_info e) \<and>
      (\<exists>n. 0 < n \<and> n < 2 ^ 52 \<and> agg_min (gather_info x ! j) = - of_nat n)"
    and "j < length (gather_info e)"
  shows "agg_min (gather_info (pulse_result double_arith p (e # es)) ! j) = agg_min (gather_info e ! j)"
  using assms(1)
proof (induction es rule: rev_induct)
  case Nil
  then show ?case by (simp add: pulse_result_def start_event_def)
next
  case (snoc x es)
  let ?r = "pulse_result double_arith p (e # es)"
  have l: "length (gather_info ?r) = length (gather_info e)"
    by (rule pulse_result_length) (use snoc.prems in auto)
  have IH: "agg_min (gather_info ?r ! j) = agg_min (gather_info e ! j)" using snoc by simp
  obtain n where n: "0 < n" "n < 2 ^ 52" "agg_min (gather_info x ! j) = - of_nat n" "length (gather_info x) = length (gather_info e)"
    using snoc.prems by auto
  then have "\<not> dbl_less (agg_min (gather_info x ! j)) y" for y
    using dbl_nan_not_less dbl_nan_negative by metis
  then have "agg_min (combine double_arith (gather_info ?r ! j) (gather_info x ! j)) = agg_min (gather_info ?r ! j)"
    by (simp add: combine_def Let_def double_arith_def)
  then show ?case using IH l n(4) assms(2) pulse_result_snoc [of "e # es" double_arith p x]
    by (simp add: fold_event_def)
qed

section \<open>Properties\<close>

text \<open>
  C5. Safety of the aggregation: whatever queue EVPath uses, and however the events of the \<open>k\<close>
  senders interleave, the COD program never fails, and the events it has submitted are, in order,
  the aggregates of the pulses 0, 1, ... of which all \<open>k\<close> events have arrived, each of them
  computed from exactly the events of that pulse.
\<close>

theorem multi_func_aggregates:
  assumes "event_queue Q elems" "elems q0 = []"
    and "fifo k arr" "pulses_ok k (map snd arr)" "2 \<le> k" "int (length arr) < int_max"
  shows "\<exists>st q m. arrivals Q ar (cod_init metrics_zero, q0, []) (map snd arr) =
      Inr (st, q, map (\<lambda>t. pulse_result ar (int t) (pulse_events (int t) (map snd arr))) [0 ..< m]) \<and>
    (\<forall>t < m. length (pulse_events (int t) (map snd arr)) = k)"
proof -
  obtain st q out p c where r: "arrivals list_queue ar (cod_init metrics_zero, [], []) (map snd arr)
      = Inr (st, q, out)" and i: "cod_inv (\<lambda>_. k) ar (map snd arr) st q out p c"
    using run_inv [OF assms(3-6)] by blast
  obtain q1 where "arrivals Q ar (cod_init metrics_zero, q0, []) (map snd arr) = Inr (st, q1, out)"
    using run_any_queue [OF assms(1,2) r] by blast
  then show ?thesis using i unfolding cod_inv_def by blast
qed

definition sample_event :: "int \<Rightarrow> int \<Rightarrow> int \<Rightarrow> int \<Rightarrow> long \<Rightarrow> metrics" where
  "sample_event d n r t v =
     \<lparr>metrics_nr = 1, gather_info = [\<lparr>agg_min = v, agg_max = v, agg_sum = v\<rparr>], max_degree = d,
      update_file = 0, parent_rank = r, nprocs = n, timestamp = t, quit = 0\<rparr>"

definition sample_run :: "(nat \<times> metrics) list" where
  "sample_run =
     [(0, sample_event 2 3 0 0 7), (0, sample_event 2 3 0 1 8), (1, sample_event 2 3 0 0 5),
      (2, sample_event 2 3 0 0 9), (1, sample_event 2 3 0 1 4)]"

lemma pulses_ok_code [code]:
  "pulses_ok k es \<longleftrightarrow> (\<forall>t \<in> set (map timestamp es).
     length (pulse_events t es) \<le> k \<and> pulse_ok k (pulse_events t es))"
proof -
  have none: "pulse_events t es = []" if "t \<notin> set (map timestamp es)" for t
    using that by (auto simp: pulse_events_def filter_empty_conv)
  have "length (pulse_events t es) \<le> k \<and> pulse_ok k (pulse_events t es)"
    if "t \<notin> set (map timestamp es)" for t
    using none [OF that] by (simp add: pulse_ok_def)
  then show ?thesis unfolding pulses_ok_def by blast
qed

lemmas pulses_ok_eval = pulses_ok_code sample_event_def pulse_ok_def Let_def degree_loop.simps
  parent_of_def c_int_def c_div_def signed_divide_int_def bind_r_simps

lemmas arrivals_eval = fifo_def of_sender_def keeps_up_def sample_event_def eval_nat_numeral
  less_Suc_eq all_conj_distrib

lemma sample_run_ok:
  "fifo 3 sample_run" "pulses_ok 3 (map snd sample_run)" "int (length sample_run) < int_max"
  "keeps_up 3 sample_run"
  by (simp_all add: sample_run_def pulses_ok_eval)
     (simp_all add: sample_run_def arrivals_eval)

theorem multi_func_aggregates_witness:
  "\<exists>st q m. arrivals list_queue double_arith (cod_init metrics_zero, [], []) (map snd sample_run) =
      Inr (st, q, map (\<lambda>t. pulse_result double_arith (int t)
        (pulse_events (int t) (map snd sample_run))) [0 ..< m]) \<and>
    (\<forall>t < m. length (pulse_events (int t) (map snd sample_run)) = 3)"
  by (rule multi_func_aggregates [OF lq.event_queue_axioms refl]) (use sample_run_ok in simp_all)

text \<open>
  C13. Progress of the aggregation: when the arrival order keeps up (no more than one event of the
  next pulse is queued when a pulse becomes complete), every pulse of which all \<open>k\<close> events have
  arrived has been submitted.
\<close>

theorem multi_func_complete:
  assumes "event_queue Q elems" "elems q0 = []"
    and "fifo k arr" "pulses_ok k (map snd arr)" "2 \<le> k" "int (length arr) < int_max"
    and "keeps_up k arr"
  shows "\<exists>st q m. arrivals Q ar (cod_init metrics_zero, q0, []) (map snd arr) =
      Inr (st, q, map (\<lambda>t. pulse_result ar (int t) (pulse_events (int t) (map snd arr))) [0 ..< m]) \<and>
    (\<forall>t. t < m \<longleftrightarrow> length (pulse_events (int t) (map snd arr)) = k)"
proof -
  obtain st q m where r: "arrivals list_queue ar (cod_init metrics_zero, [], []) (map snd arr) =
      Inr (st, q, map (\<lambda>t. pulse_result ar (int t) (pulse_events (int t) (map snd arr))) [0 ..< m])"
      and m: "\<forall>t. t < m \<longleftrightarrow> length (pulse_events (int t) (map snd arr)) = k"
    using run_complete [OF assms(3-7)] by blast
  show ?thesis using run_any_queue [OF assms(1,2) r] m by blast
qed

theorem multi_func_complete_witness:
  "\<exists>st q m. arrivals list_queue double_arith (cod_init metrics_zero, [], []) (map snd sample_run) =
      Inr (st, q, map (\<lambda>t. pulse_result double_arith (int t)
        (pulse_events (int t) (map snd sample_run))) [0 ..< m]) \<and>
    (\<forall>t. t < m \<longleftrightarrow> length (pulse_events (int t) (map snd sample_run)) = 3)"
  by (rule multi_func_complete [OF lq.event_queue_axioms refl]) (use sample_run_ok in simp_all)

text \<open>
  The condition on the order is needed: in this order of the events of three children and the node only pulse 0 is submitted; three of
  the four events of pulse 1 have been counted when the last one arrives, and one is still queued.
\<close>

definition stalled_run :: "(nat \<times> metrics) list" where
  "stalled_run =
     [(0, sample_event 3 4 0 0 1), (0, sample_event 3 4 0 1 1), (1, sample_event 3 4 0 0 1),
      (1, sample_event 3 4 0 1 1), (2, sample_event 3 4 0 0 1), (3, sample_event 3 4 0 0 1),
      (2, sample_event 3 4 0 1 1), (3, sample_event 3 4 0 1 1)]"

lemma keeps_up_needed:
  "fifo 4 stalled_run \<and> pulses_ok 4 (map snd stalled_run) \<and>
   length (pulse_events 1 (map snd stalled_run)) = 4 \<and>
   map_sum id (\<lambda>(st, q, out). (s_count st, map timestamp q, map timestamp out))
     (arrivals list_queue ar (cod_init metrics_zero, [], []) (map snd stalled_run)) =
   Inr (3, [1], [0])"
proof (intro conjI)
  show "fifo 4 stalled_run" by (simp add: stalled_run_def arrivals_eval)
  show "pulses_ok 4 (map snd stalled_run)" by (simp add: stalled_run_def pulses_ok_eval)
  show "length (pulse_events 1 (map snd stalled_run)) = 4"
    by (simp add: stalled_run_def sample_event_def)
  show "map_sum id (\<lambda>(st, q, out). (s_count st, map timestamp q, map timestamp out))
     (arrivals list_queue ar (cod_init metrics_zero, [], []) (map snd stalled_run)) =
   Inr (3, [1], [0])" by code_simp
qed

text \<open>
  C22. What a submitted aggregate says: in every run, over any queue, within the range in which doubles add the small
  integers exactly, the sum, minimum and maximum of every metric of the aggregate that is submitted for the pulse
  \<open>p\<close> are those of the events of that pulse that arrived.
\<close>

theorem pulse_result_summarises:
  assumes "event_queue Q elems" "elems q0 = []"
    and "fifo k arr" "pulses_ok k (map snd arr)" "2 \<le> k" "int (length arr) < int_max"
    and "arrivals Q double_arith (cod_init metrics_zero, q0, []) (map snd arr) = Inr (st, q, out)" "p < length out"
    and "j < length (gather_info (hd (pulse_events (int p) (map snd arr))))"
    and "within double_bound (map (\<lambda>e. gather_info e ! j) (pulse_events (int p) (map snd arr)))"
  shows "summarises (gather_info (out ! p) ! j) (map (\<lambda>e. gather_info e ! j) (pulse_events (int p) (map snd arr)))"
proof -
  note o = run_outputs [OF assms(1-8)]
  have "pulse_events (int p) (map snd arr) \<noteq> []" using o(2) assms(5) by auto
  then show ?thesis unfolding o(1)
    by (rule double_exact.summary_of_pulse [OF _ _ assms(9,10)])
       (use pulses_ok_metrics [OF assms(4)] in blast)
qed

theorem pulse_result_summarises_witness:
  "\<exists>st q out. arrivals list_queue double_arith (cod_init metrics_zero, [], []) (map snd sample_run) = Inr (st, q, out) \<and>
    0 < length out \<and> summarises (gather_info (out ! 0) ! 0)
      [\<lparr>agg_min = 7, agg_max = 7, agg_sum = 7\<rparr>, \<lparr>agg_min = 5, agg_max = 5, agg_sum = 5\<rparr>,
       \<lparr>agg_min = 9, agg_max = 9, agg_sum = 9\<rparr>]"
proof -
  have e: "pulse_events 0 (map snd sample_run) =
      [sample_event 2 3 0 0 7, sample_event 2 3 0 0 5, sample_event 2 3 0 0 9]"
    by (simp add: sample_run_def sample_event_def)
  obtain st q out where r: "arrivals list_queue double_arith (cod_init metrics_zero, [], []) (map snd sample_run)
      = Inr (st, q, out)" "0 < length out"
    using run_first_output [of 3 sample_run double_arith] sample_run_ok e by auto
  show ?thesis
    using pulse_result_summarises [OF lq.event_queue_axioms refl sample_run_ok(1,2) _ sample_run_ok(3) r, of 0] r
    by (simp add: e) (simp add: sample_event_def within_def)
qed

text \<open>
  C35. Outside that range it need not be: a field that holds a negative long is read as a NaN. In every run, a metric
  of which all events of the pulse but the first carry a negative minimum keeps the first one's minimum.
\<close>

theorem negative_not_minimum:
  assumes "event_queue Q elems" "elems q0 = []"
    and "fifo k arr" "pulses_ok k (map snd arr)" "2 \<le> k" "int (length arr) < int_max"
    and "arrivals Q double_arith (cod_init metrics_zero, q0, []) (map snd arr) = Inr (st, q, out)" "p < length out"
    and "pulse_events (int p) (map snd arr) = e # es" "j < length (gather_info e)"
    and "\<forall>x \<in> set es. \<exists>n. 0 < n \<and> n < 2 ^ 52 \<and> agg_min (gather_info x ! j) = - of_nat n"
  shows "agg_min (gather_info (out ! p) ! j) = agg_min (gather_info e ! j)"
proof -
  have "length (gather_info x) = length (gather_info e)" if "x \<in> set es" for x
    using pulses_ok_metrics [OF assms(4), of x "int p"] that assms(9) by simp
  then show ?thesis unfolding run_outputs(1) [OF assms(1-8)] assms(9)
    by (intro pulse_result_negative [OF _ assms(10)]) (use assms(11) in blast)
qed

definition negative_run :: "(nat \<times> metrics) list" where
  "negative_run = [(0, sample_event 2 3 0 0 7), (1, sample_event 2 3 0 0 (- 5)), (2, (sample_event 2 3 0 0 (- 9))\<lparr>quit := 1\<rparr>)]"

lemma negative_run_ok:
  "fifo 3 negative_run" "pulses_ok 3 (map snd negative_run)" "int (length negative_run) < int_max"
  "keeps_up 3 negative_run"
  by (simp_all add: negative_run_def pulses_ok_eval)
     (simp_all add: negative_run_def arrivals_eval)

lemma negative_run_events: "pulse_events 0 (map snd negative_run) =
  [sample_event 2 3 0 0 7, sample_event 2 3 0 0 (- 5), (sample_event 2 3 0 0 (- 9))\<lparr>quit := 1\<rparr>]"
  by (simp add: negative_run_def sample_event_def)

lemma negative_run_output:
  "\<exists>st q out. arrivals list_queue double_arith (cod_init metrics_zero, [], []) (map snd negative_run) = Inr (st, q, out) \<and>
    0 < length out"
  by (rule run_first_output [OF negative_run_ok(1,2) _ negative_run_ok(3,4)]) (simp_all add: negative_run_events)

theorem negative_not_minimum_witness:
  "\<exists>st q out. arrivals list_queue double_arith (cod_init metrics_zero, [], []) (map snd negative_run) = Inr (st, q, out) \<and>
    0 < length out \<and> agg_min (gather_info (out ! 0) ! 0) = 7"
proof -
  obtain st q out where r: "arrivals list_queue double_arith (cod_init metrics_zero, [], []) (map snd negative_run)
      = Inr (st, q, out)" "0 < length out"
    using negative_run_output by blast
  have "\<exists>n. 0 < n \<and> n < 2 ^ 52 \<and> (- 5 :: long) = - of_nat n" "\<exists>n. 0 < n \<and> n < 2 ^ 52 \<and> (- 9 :: long) = - of_nat n"
    by (rule exI [of _ 5], simp) (rule exI [of _ 9], simp)
  then show ?thesis
    using negative_not_minimum [OF lq.event_queue_axioms refl negative_run_ok(1,2) _ negative_run_ok(3) r, of _ _ 0] r
    by (simp add: negative_run_events) (simp add: sample_event_def)
qed

text \<open>
  The flags of an aggregate, in every run, are those of the event of the pulse that arrived first: another
  \<open>quit\<close> or \<open>update_file\<close> of a later event of the pulse does not change them.
\<close>

theorem pulse_result_flags:
  assumes "event_queue Q elems" "elems q0 = []"
    and "fifo k arr" "pulses_ok k (map snd arr)" "2 \<le> k" "int (length arr) < int_max"
    and "arrivals Q ar (cod_init metrics_zero, q0, []) (map snd arr) = Inr (st, q, out)" "p < length out"
    and "pulse_events (int p) (map snd arr) = e # es"
  shows "quit (out ! p) = quit e \<and> update_file (out ! p) = update_file e \<and>
    metrics_nr (out ! p) = metrics_nr e \<and> nprocs (out ! p) = nprocs e \<and> timestamp (out ! p) = int p"
  unfolding run_outputs(1) [OF assms(1-8)] assms(9) by (rule pulse_result_fixed)

theorem pulse_result_flags_witness:
  "(\<exists>e \<in> set (pulse_events 0 (map snd negative_run)). quit e = 1) \<and>
   (\<exists>st q out. arrivals list_queue double_arith (cod_init metrics_zero, [], []) (map snd negative_run) = Inr (st, q, out) \<and>
     0 < length out \<and> quit (out ! 0) = 0)"
proof -
  obtain st q out where r: "arrivals list_queue double_arith (cod_init metrics_zero, [], []) (map snd negative_run)
      = Inr (st, q, out)" "0 < length out"
    using negative_run_output by blast
  then show ?thesis
    using pulse_result_flags [OF lq.event_queue_axioms refl negative_run_ok(1,2) _ negative_run_ok(3) r]
    by (simp add: negative_run_events) (simp add: sample_event_def)
qed

end
