(* ===== verification/Aggregate_Bench.thy ===== *)
theory Aggregate_Bench
  imports Aggregate
begin

text \<open>
  The COD program that cod.h gives to the multi stone in the BENCHMARKING build. It differs from the one of the
  default build in the start time that every event carries: the aggregate has the earliest start time of
  its events, where -1 marks an event without one. The equivalence with the default program makes
  all that theory Aggregate_Run shows hold here as well.
\<close>

section \<open>The program\<close>

definition combine_start :: "double \<Rightarrow> double \<Rightarrow> double" where
  "combine_start t agg = (if \<not> dbl_eq t no_start \<and> dbl_less t agg then t else agg)"

definition cod_first_bench :: "('q, metrics_bench) ev_ops \<Rightarrow> metrics_bench cod_state \<Rightarrow> 'q \<Rightarrow>
    (metrics_bench cod_state \<times> 'q) res" where
  "cod_first_bench Q st q =
     (let (found, a) = scan Q q (pulse_timestamp st) 0 None in
      bind_r
        (case found of
           None \<Rightarrow> Inr (st\<lparr>s_count := 0\<rparr>)
         | Some i \<Rightarrow>
             let e = ev_data Q q i in
             bind_r (copy_gather (metrics_nr e) (gather_info e)) (\<lambda>g.
             bind_r (parent_of (max_degree e) (parent_rank e)) (\<lambda>p.
             Inr (st\<lparr>s_count := 0, s_max_degree := max_degree e, first_found_index := i,
               aggregated_event := \<lparr>metrics_nr = metrics_nr e, gather_info = g,
                 max_degree = max_degree e, update_file = update_file e, parent_rank = p,
                 nprocs = nprocs e, timestamp = pulse_timestamp st, quit = quit e,
                 start_time = start_time e\<rparr>\<rparr>))))
        (\<lambda>st1. bind_r (cod_degree (s_max_degree st1) a) (\<lambda>deg.
          Inr (st1\<lparr>current_node_degree := deg, s_count := 1\<rparr>,
               ev_discard Q q (first_found_index st1)))))"

text \<open>The start time is compared inside the loop over the metrics: once for every metric.\<close>

definition cod_next_bench :: "('q, metrics_bench) ev_ops \<Rightarrow> cod_arith \<Rightarrow> metrics_bench cod_state \<Rightarrow> 'q \<Rightarrow>
    (metrics_bench cod_state \<times> 'q) res" where
  "cod_next_bench Q ar st q =
     (case fst (scan Q q (pulse_timestamp st) (first_found_index st) None) of
        None \<Rightarrow> Inr (st, q)
      | Some i \<Rightarrow>
          let e = ev_data Q q i; agg = aggregated_event st in
          bind_r (combine_gather ar (metrics_nr e) (gather_info agg) (gather_info e)) (\<lambda>g.
          Inr (st\<lparr>aggregated_event := agg\<lparr>gather_info := g,
                   start_time := (combine_start (start_time e) ^^ nat (metrics_nr e)) (start_time agg)\<rparr>,
                 s_count := s_count st + 1, first_found_index := i\<rparr>,
               ev_discard Q q i)))"

definition cod_pass_bench :: "('q, metrics_bench) ev_ops \<Rightarrow> cod_arith \<Rightarrow> metrics_bench cod_state \<Rightarrow> 'q \<Rightarrow>
    (metrics_bench cod_state \<times> 'q \<times> metrics_bench list \<times> bool) res" where
  "cod_pass_bench Q ar st q =
     bind_r
       (if first_found_index st = -1 then cod_first_bench Q st q
        else if s_count st < current_node_degree st + 1 then cod_next_bench Q ar st q
        else Inr (st, q))
       (\<lambda>(st1, q1).
         if s_count st1 = current_node_degree st1 + 1 then
           bind_r (c_int (pulse_timestamp st1 + 1)) (\<lambda>p.
           Inr (st1\<lparr>pulse_timestamp := p, first_found_index := -1, s_count := 0\<rparr>, q1,
                [aggregated_event st1], fst (scan Q q1 p 0 None) \<noteq> None))
         else Inr (st1, q1, [], False))"

fun multi_loop_bench :: "nat \<Rightarrow> ('q, metrics_bench) ev_ops \<Rightarrow> cod_arith \<Rightarrow> metrics_bench cod_state \<Rightarrow> 'q \<Rightarrow>
    (metrics_bench cod_state \<times> 'q \<times> metrics_bench list) res" where
  "multi_loop_bench 0 Q ar st q = Inl OutOfFuel"
| "multi_loop_bench (Suc fuel) Q ar st q =
     bind_r (cod_pass_bench Q ar st q) (\<lambda>(st1, q1, out, again).
       if again then
         bind_r (multi_loop_bench fuel Q ar st1 q1) (\<lambda>(st2, q2, out2). Inr (st2, q2, out @ out2))
       else Inr (st1, q1, out))"

definition multi_func_bench :: "('q, metrics_bench) ev_ops \<Rightarrow> cod_arith \<Rightarrow> metrics_bench cod_state \<Rightarrow> 'q \<Rightarrow>
    (metrics_bench cod_state \<times> 'q \<times> metrics_bench list) res" where
  "multi_func_bench Q ar st q = multi_loop_bench (nat (ev_count Q q) + 2) Q ar st q"

definition arrive_bench :: "('q, metrics_bench) ev_ops \<Rightarrow> cod_arith \<Rightarrow>
    metrics_bench cod_state \<times> 'q \<times> metrics_bench list \<Rightarrow> metrics_bench \<Rightarrow>
    (metrics_bench cod_state \<times> 'q \<times> metrics_bench list) res" where
  "arrive_bench Q ar s e =
     (case s of (st, q, out) \<Rightarrow>
       bind_r (multi_func_bench Q ar st (ev_enqueue Q q e)) (\<lambda>(st1, q1, out1).
         Inr (st1, q1, out @ out1)))"

fun arrivals_bench :: "('q, metrics_bench) ev_ops \<Rightarrow> cod_arith \<Rightarrow>
    metrics_bench cod_state \<times> 'q \<times> metrics_bench list \<Rightarrow> metrics_bench list \<Rightarrow>
    (metrics_bench cod_state \<times> 'q \<times> metrics_bench list) res" where
  "arrivals_bench Q ar s [] = Inr s"
| "arrivals_bench Q ar s (e # es) = bind_r (arrive_bench Q ar s e) (\<lambda>s1. arrivals_bench Q ar s1 es)"

section \<open>Without the start times\<close>

abbreviation plain :: "metrics_bench \<Rightarrow> metrics" where
  "plain \<equiv> metrics.truncate"

lemma plain_simps [simp]:
  "metrics_nr (plain e) = metrics_nr e" "gather_info (plain e) = gather_info e"
  "max_degree (plain e) = max_degree e" "update_file (plain e) = update_file e"
  "parent_rank (plain e) = parent_rank e" "nprocs (plain e) = nprocs e"
  "timestamp (plain e) = timestamp e" "quit (plain e) = quit e"
  by (simp_all add: metrics.defs)

lemma plain_update: "plain (e\<lparr>gather_info := g, start_time := t\<rparr>) = (plain e)\<lparr>gather_info := g\<rparr>"
  by (simp add: metrics.defs)

lemma plain_make:
  "plain \<lparr>metrics_nr = n, gather_info = g, max_degree = d, update_file = u, parent_rank = p, nprocs = np,
     timestamp = t, quit = q, start_time = s\<rparr> =
   \<lparr>metrics_nr = n, gather_info = g, max_degree = d, update_file = u, parent_rank = p, nprocs = np,
     timestamp = t, quit = q\<rparr>"
  by (simp add: metrics.defs)

definition plain_state :: "metrics_bench cod_state \<Rightarrow> metrics cod_state" where
  "plain_state st = \<lparr>s_max_degree = s_max_degree st, first_found_index = first_found_index st,
     aggregated_event = plain (aggregated_event st), current_node_degree = current_node_degree st,
     pulse_timestamp = pulse_timestamp st, s_count = s_count st\<rparr>"

definition plain_run :: "(metrics_bench cod_state \<times> metrics_bench list \<times> metrics_bench list) res \<Rightarrow>
    (metrics cod_state \<times> metrics list \<times> metrics list) res" where
  "plain_run = map_sum id (map_prod plain_state (map_prod (map plain) (map plain)))"

lemma plain_run_simps [simp]:
  "plain_run (Inl e) = Inl e" "plain_run (Inr (st, q, out)) = Inr (plain_state st, map plain q, map plain out)"
  by (simp_all add: plain_run_def)

lemma plain_state_simps [simp]:
  "s_max_degree (plain_state st) = s_max_degree st" "first_found_index (plain_state st) = first_found_index st"
  "aggregated_event (plain_state st) = plain (aggregated_event st)"
  "current_node_degree (plain_state st) = current_node_degree st"
  "pulse_timestamp (plain_state st) = pulse_timestamp st" "s_count (plain_state st) = s_count st"
  by (simp_all add: plain_state_def)

lemma plain_discard: "list_discard (map plain q) i = map plain (list_discard q i)"
  by (simp add: list_discard_def take_map drop_map)

lemma plain_scan:
  "0 \<le> i \<Longrightarrow> scan list_queue (map plain q) p i (map_option plain a) =
     map_prod id (map_option plain) (scan list_queue q p i a)"
proof (induction "nat (int (length q) - i)" arbitrary: i a rule: less_induct)
  case less
  show ?case
  proof (cases "i < int (length q)")
    case True
    then have "scan list_queue (map plain q) p (i + 1) (map_option plain b) =
        map_prod id (map_option plain) (scan list_queue q p (i + 1) b)" for b
      using less by simp
    from this [of "Some (q ! nat i)"] show ?thesis
      using True less.prems by (simp add: scan.simps [of list_queue _ p i] nat_less_iff)
  next
    case False
    then show ?thesis by (simp add: scan.simps [of list_queue _ p i])
  qed
qed

lemma plain_scan_None:
  "0 \<le> i \<Longrightarrow> scan list_queue (map plain q) p i None = map_prod id (map_option plain) (scan list_queue q p i None)"
  using plain_scan [of i q p None] by simp

lemma plain_degree: "cod_degree md (map_option plain a) = cod_degree md a"
  by (cases a) (simp_all add: cod_degree_def)

lemma found_nth: "scan list_queue q p i a = (Some j, x) \<Longrightarrow> 0 \<le> i \<Longrightarrow> nat j < length q"
  using scan_range [of list_queue q p i a j x] by auto

lemma plain_first:
  "cod_first list_queue (plain_state st) (map plain q) =
     map_sum id (map_prod plain_state (map plain)) (cod_first_bench list_queue st q)"
proof -
  obtain found a where sc: "scan list_queue q (pulse_timestamp st) 0 None = (found, a)" by fastforce
  note sp = plain_scan_None [of 0 q "pulse_timestamp st", simplified, unfolded sc]
  show ?thesis
  proof (cases found)
    case None
    then show ?thesis using sc sp
      by (cases "cod_degree (s_max_degree st) a")
        (auto simp: cod_first_def cod_first_bench_def plain_degree plain_discard plain_state_def)
  next
    case (Some i)
    then have i: "nat i < length q" using found_nth sc by fastforce
    let ?e = "q ! nat i"
    show ?thesis using sc sp Some i
      by (cases "copy_gather (metrics_nr ?e) (gather_info ?e)"; cases "parent_of (max_degree ?e) (parent_rank ?e)";
          cases "cod_degree (max_degree ?e) a")
        (auto simp: cod_first_def cod_first_bench_def plain_degree plain_discard plain_state_def plain_make Let_def)
  qed
qed

lemma plain_next:
  assumes "0 \<le> first_found_index st"
  shows "cod_next list_queue ar (plain_state st) (map plain q) =
     map_sum id (map_prod plain_state (map plain)) (cod_next_bench list_queue ar st q)"
proof -
  obtain found a where sc: "scan list_queue q (pulse_timestamp st) (first_found_index st) None = (found, a)"
    by fastforce
  note sp = plain_scan_None [OF assms, of q "pulse_timestamp st", unfolded sc]
  show ?thesis
  proof (cases found)
    case None
    then show ?thesis using sc sp by (simp add: cod_next_def cod_next_bench_def)
  next
    case (Some i)
    then have i: "nat i < length q" using found_nth sc assms by fastforce
    let ?e = "q ! nat i"
    show ?thesis using sc sp Some i
      by (cases "combine_gather ar (metrics_nr ?e) (gather_info (aggregated_event st)) (gather_info ?e)")
        (auto simp: cod_next_def cod_next_bench_def plain_discard plain_state_def plain_update Let_def)
  qed
qed

lemma plain_pass:
  assumes "-1 \<le> first_found_index st"
  shows "cod_pass list_queue ar (plain_state st) (map plain q) =
     map_sum id (map_prod plain_state (map_prod (map plain) (map_prod (map plain) id)))
       (cod_pass_bench list_queue ar st q)"
proof -
  let ?m = "if first_found_index st = -1 then cod_first_bench list_queue st q
        else if s_count st < current_node_degree st + 1 then cod_next_bench list_queue ar st q else Inr (st, q)"
  have m: "(if first_found_index st = -1 then cod_first list_queue (plain_state st) (map plain q)
        else if s_count st < current_node_degree st + 1 then cod_next list_queue ar (plain_state st) (map plain q)
        else Inr (plain_state st, map plain q)) = map_sum id (map_prod plain_state (map plain)) ?m"
    using assms by (simp add: plain_first plain_next)
  have n: "cod_pass list_queue ar (plain_state st) (map plain q) =
      bind_r (map_sum id (map_prod plain_state (map plain)) ?m) (\<lambda>(st1, q1).
         if s_count st1 = current_node_degree st1 + 1 then
           bind_r (c_int (pulse_timestamp st1 + 1)) (\<lambda>p.
           Inr (st1\<lparr>pulse_timestamp := p, first_found_index := -1, s_count := 0\<rparr>, q1,
                [aggregated_event st1], fst (scan list_queue q1 p 0 None) \<noteq> None))
         else Inr (st1, q1, [], False))"
    by (simp only: cod_pass_def plain_state_simps m)
  have b: "plain_state (st1\<lparr>pulse_timestamp := p, first_found_index := - 1, s_count := 0\<rparr>) =
        (plain_state st1)\<lparr>pulse_timestamp := p, first_found_index := - 1, s_count := 0\<rparr>" for st1 p
    by (simp add: plain_state_def)
  show ?thesis unfolding n cod_pass_bench_def
    by (cases ?m) (auto simp: b plain_scan_None bind_r_def split: sum.splits)
qed

lemma bench_pass_index:
  assumes "cod_pass_bench list_queue ar st q = Inr (st1, q1, out, again)" "-1 \<le> first_found_index st"
  shows "-1 \<le> first_found_index st1"
proof -
  have "cod_pass list_queue ar (plain_state st) (map plain q) =
      Inr (plain_state st1, map plain q1, map plain out, again)"
    using plain_pass [OF assms(2), of ar q] assms(1) by simp
  then show ?thesis using cod_pass_index [of list_queue ar "plain_state st"] assms(2) by fastforce
qed

lemma plain_loop:
  "-1 \<le> first_found_index st \<Longrightarrow>
    multi_loop fuel list_queue ar (plain_state st) (map plain q) =
      plain_run (multi_loop_bench fuel list_queue ar st q) \<and>
    (\<forall>st1 q1 out. multi_loop_bench fuel list_queue ar st q = Inr (st1, q1, out) \<longrightarrow> -1 \<le> first_found_index st1)"
proof (induction fuel arbitrary: st q)
  case 0
  then show ?case by simp
next
  case (Suc fuel)
  note pass = plain_pass [OF Suc.prems, of ar q]
  show ?case
  proof (cases "cod_pass_bench list_queue ar st q")
    case (Inl e)
    then show ?thesis using pass by simp
  next
    case (Inr r)
    obtain st1 q1 out again where r: "r = (st1, q1, out, again)" by (cases r)
    then have i: "-1 \<le> first_found_index st1" using bench_pass_index Inr Suc.prems by blast
    show ?thesis using pass Inr r Suc.IH [OF i, of q1] i
      by (cases "multi_loop_bench fuel list_queue ar st1 q1") auto
  qed
qed

lemma plain_multi_func:
  assumes "-1 \<le> first_found_index st"
  shows "multi_func list_queue ar (plain_state st) (map plain q) = plain_run (multi_func_bench list_queue ar st q)"
    "multi_func_bench list_queue ar st q = Inr (st1, q1, out) \<Longrightarrow> -1 \<le> first_found_index st1"
  using plain_loop [OF assms, of "length q + 2" ar q] unfolding multi_func_def multi_func_bench_def
  by (simp_all only: list_queue_simps length_map nat_int)

lemma plain_arrivals:
  "-1 \<le> first_found_index st \<Longrightarrow>
    arrivals list_queue ar (plain_state st, map plain q, map plain out) (map plain es) =
      plain_run (arrivals_bench list_queue ar (st, q, out) es)"
proof (induction es arbitrary: st q out)
  case Nil
  then show ?case by simp
next
  case (Cons e es)
  note step = plain_multi_func [OF Cons.prems, of ar "q @ [e]"]
  show ?case
  proof (cases "multi_func_bench list_queue ar st (q @ [e])")
    case (Inl err)
    then show ?thesis using step(1) by (simp add: arrive_def arrive_bench_def)
  next
    case (Inr r)
    obtain st1 q1 out1 where r: "r = (st1, q1, out1)" by (cases r)
    have "-1 \<le> first_found_index st1" using step(2) Inr r by blast
    from Cons.IH [OF this, of q1 "out @ out1"] show ?thesis
      using step(1) Inr r by (simp add: arrive_def arrive_bench_def)
  qed
qed

section \<open>The start time\<close>

lemma no_start_val: "dbl_val no_start < 0" "\<not> dbl_nan no_start"
proof -
  have "dbl_shift (2 ^ 52 * 2 ^ 1022) = 1022" by (rule dbl_shift_normal) simp_all
  then have "dbl_round (2 ^ 1074) 1 = 1023 * 2 ^ 52"
    by (simp add: dbl_round_def nearest_even_def dbl_inf_pattern_def Let_def)
  then have n: "no_start = of_nat (2 ^ 63 + 1023 * 2 ^ 52)"
    by (simp add: no_start_def dbl_of_int_def dbl_pack_def)
  have "unat no_start = 2 ^ 63 + 1023 * 2 ^ 52" by (subst n) simp
  then show "dbl_val no_start < 0" "\<not> dbl_nan no_start"
    by (simp_all add: dbl_val_def dbl_neg_def dbl_mag_def dbl_nan_def dbl_exp_def dbl_frac_def)
qed

text \<open>A start time as MPI_Wtime measures it, or none.\<close>

definition start_ok :: "double \<Rightarrow> bool" where
  "start_ok t \<longleftrightarrow> t = no_start \<or> (\<not> dbl_nan t \<and> 0 \<le> dbl_val t)"

lemma combine_start_ok:
  assumes "start_ok t"
  shows "combine_start t no_start = no_start" "combine_start no_start agg = agg"
    "t \<noteq> no_start \<Longrightarrow> \<not> dbl_nan agg \<Longrightarrow> combine_start t agg = (if dbl_val t < dbl_val agg then t else agg)"
  using assms no_start_val by (auto simp: start_ok_def combine_start_def dbl_eq_def dbl_less_def)

lemma combine_start_pow: "0 < n \<Longrightarrow> (combine_start t ^^ n) agg = combine_start t agg"
proof (induction n)
  case (Suc n)
  have "combine_start t (combine_start t agg) = combine_start t agg"
    by (auto simp: combine_start_def dbl_less_def)
  then show ?case using Suc by (cases "n = 0") simp_all
qed simp

definition fold_start :: "double \<Rightarrow> metrics_bench list \<Rightarrow> double" where
  "fold_start = foldl (\<lambda>agg e. combine_start (start_time e) agg)"

lemma fold_start_none:
  "\<forall>e \<in> set es. start_ok (start_time e) \<Longrightarrow> fold_start no_start es = no_start"
  unfolding fold_start_def by (induction es) (simp_all add: combine_start_ok)

lemma fold_start_least:
  assumes "\<forall>e \<in> set es. start_ok (start_time e)" "start_ok t" "t \<noteq> no_start"
  shows "start_ok (fold_start t es) \<and> fold_start t es \<noteq> no_start \<and>
    (fold_start t es = t \<or> fold_start t es \<in> start_time ` set es) \<and> dbl_val (fold_start t es) \<le> dbl_val t \<and>
    (\<forall>e \<in> set es. start_time e \<noteq> no_start \<longrightarrow> dbl_val (fold_start t es) \<le> dbl_val (start_time e))"
  using assms
proof (induction es arbitrary: t)
  case Nil
  then show ?case by (simp add: fold_start_def)
next
  case (Cons e es)
  let ?t = "combine_start (start_time e) t"
  have e: "start_ok (start_time e)" and es: "\<forall>e \<in> set es. start_ok (start_time e)" using Cons.prems(1) by simp_all
  have nan: "\<not> dbl_nan t" using Cons.prems(2,3) by (simp add: start_ok_def)
  have t: "?t = (if start_time e \<noteq> no_start \<and> dbl_val (start_time e) < dbl_val t then start_time e else t)"
    using combine_start_ok [OF e] nan by (cases "start_time e = no_start") simp_all
  then have "start_ok ?t" "?t \<noteq> no_start" using e Cons.prems by auto
  note IH = Cons.IH [OF es this]
  have f: "fold_start t (e # es) = fold_start ?t es" by (simp add: fold_start_def)
  show ?case unfolding f using IH t by (auto split: if_splits)
qed

text \<open>A pulse whose events arrive one after the other, with \<open>n\<close> metrics each, at a node of degree \<open>k\<close>.\<close>

definition pulse_event :: "int \<Rightarrow> nat \<Rightarrow> int \<Rightarrow> metrics_bench \<Rightarrow> bool" where
  "pulse_event p n k e \<longleftrightarrow> timestamp e = p \<and> metrics_nr e = int n \<and> length (gather_info e) = n \<and>
     degree_loop (max_degree e) (nprocs e) (parent_rank e) 1 0 = Inr k \<and>
     is_ok (parent_of (max_degree e) (parent_rank e)) \<and> start_ok (start_time e)"

lemma scan_empty: "scan list_queue [] p 0 a = (None, a)"
  by (simp add: scan.simps)

lemma scan_single: "timestamp e = p \<Longrightarrow> scan list_queue [e] p 0 a = (Some 0, Some e)"
  by (simp add: scan.simps)

lemma bench_first:
  assumes "pulse_event (pulse_timestamp st) n k e" "first_found_index st = -1" "0 < k"
  shows "\<exists>st1. arrive_bench list_queue ar (st, [], out) e = Inr (st1, [], out) \<and> s_count st1 = 1 \<and>
    current_node_degree st1 = k \<and> first_found_index st1 = 0 \<and> pulse_timestamp st1 = pulse_timestamp st \<and>
    length (gather_info (aggregated_event st1)) = n \<and> start_time (aggregated_event st1) = start_time e"
proof -
  obtain p where p: "parent_of (max_degree e) (parent_rank e) = Inr p"
    using assms(1) by (auto simp: pulse_event_def elim!: is_okE)
  show ?thesis using assms p
    by (simp add: arrive_bench_def multi_func_bench_def numeral_3_eq_3 cod_pass_bench_def cod_first_bench_def
        pulse_event_def scan_single copy_gather_def cod_degree_def list_discard_def Let_def)
qed

lemma bench_next:
  assumes "pulse_event (pulse_timestamp st) n k e" "first_found_index st = 0" "0 < n" "s_count st < k + 1"
    and "current_node_degree st = k" "length (gather_info (aggregated_event st)) = n"
    and "0 \<le> pulse_timestamp st" "pulse_timestamp st < int_max"
  shows "\<exists>st1 a. arrive_bench list_queue ar (st, [], out) e =
      Inr (st1, [], if s_count st = k then out @ [a] else out) \<and>
    start_time a = combine_start (start_time e) (start_time (aggregated_event st)) \<and>
    (s_count st < k \<longrightarrow> s_count st1 = s_count st + 1 \<and> current_node_degree st1 = k \<and> first_found_index st1 = 0 \<and>
      pulse_timestamp st1 = pulse_timestamp st \<and> length (gather_info (aggregated_event st1)) = n \<and>
      aggregated_event st1 = a)"
proof -
  have c: "c_int (pulse_timestamp st + 1) = Inr (pulse_timestamp st + 1)" using assms by (simp add: c_int_def)
  let ?g = "map2 (combine ar) (gather_info (aggregated_event st)) (gather_info e)"
  have "combine_gather ar (metrics_nr e) (gather_info (aggregated_event st)) (gather_info e) = Inr ?g"
    using assms by (simp add: combine_gather_def pulse_event_def)
  then show ?thesis using assms c combine_start_pow [OF assms(3)]
    by (cases "s_count st = k")
      (simp_all add: arrive_bench_def multi_func_bench_def numeral_3_eq_3 cod_pass_bench_def cod_next_bench_def
        pulse_event_def scan_single scan_empty list_discard_def Let_def)
qed

lemma bench_rest:
  assumes "es \<noteq> []" "\<forall>e \<in> set es. pulse_event p n k e" "0 < n" "0 \<le> p" "p < int_max"
    and "first_found_index st = 0" "s_count st = k + 1 - int (length es)" "current_node_degree st = k"
    and "pulse_timestamp st = p" "length (gather_info (aggregated_event st)) = n"
  shows "\<exists>st1 a. arrivals_bench list_queue ar (st, [], out) es = Inr (st1, [], out @ [a]) \<and>
    start_time a = fold_start (start_time (aggregated_event st)) es"
  using assms
proof (induction es arbitrary: st)
  case Nil
  then show ?case by simp
next
  case (Cons e es)
  have e: "pulse_event (pulse_timestamp st) n k e" using Cons.prems by simp
  have lt: "s_count st < k + 1" using Cons.prems by simp
  obtain st1 a where a: "arrive_bench list_queue ar (st, [], out) e =
      Inr (st1, [], if s_count st = k then out @ [a] else out)"
    "start_time a = combine_start (start_time e) (start_time (aggregated_event st))"
    "s_count st < k \<longrightarrow> s_count st1 = s_count st + 1 \<and> current_node_degree st1 = k \<and> first_found_index st1 = 0 \<and>
      pulse_timestamp st1 = pulse_timestamp st \<and> length (gather_info (aggregated_event st1)) = n \<and>
      aggregated_event st1 = a"
    using bench_next [OF e Cons.prems(6,3) lt Cons.prems(8,10), of ar out] Cons.prems(4,5,9) by auto
  show ?case
  proof (cases "es = []")
    case True
    then show ?thesis using a Cons.prems(7) by (simp add: fold_start_def)
  next
    case False
    then have s: "s_count st < k" using Cons.prems(7) by (cases es) simp_all
    then have "\<exists>st2 b. arrivals_bench list_queue ar (st1, [], out) es = Inr (st2, [], out @ [b]) \<and>
        start_time b = fold_start (start_time (aggregated_event st1)) es"
      using a(3) Cons.prems False by (intro Cons.IH) auto
    then show ?thesis using a s by (auto simp: fold_start_def)
  qed
qed

section \<open>Properties\<close>

text \<open>
  C21. The program of the BENCHMARKING build is the one of the default build with start times: on events without
  their start times the default program ends in the same state, queue, submitted events and errors,
  for any order of arrival and any arithmetic.
\<close>

theorem bench_program_equivalent:
  "arrivals list_queue ar (cod_init (plain z), [], []) (map plain es) =
    plain_run (arrivals_bench list_queue ar (cod_init z, [], []) es)"
proof -
  have "plain_state (cod_init z) = cod_init (plain z)" by (simp add: cod_init_def plain_state_def)
  moreover have "-1 \<le> first_found_index (cod_init z)" by (simp add: cod_init_def)
  ultimately show ?thesis using plain_arrivals [of "cod_init z" ar "[]" "[]" es] by simp
qed

text \<open>
  The start time of an aggregate: when a pulse's \<open>k + 1\<close> events arrive one after the other, the submitted event
  has the earliest start time of those that carry one, provided that the event found first does. If
  that event carries none, as the own event of an inner node, the aggregate has none either: the start
  times of the leaves are lost, and the root reports the current time plus one as the latency.
\<close>

theorem bench_start_time:
  assumes "es = e # es'" "es' \<noteq> []" "\<forall>x \<in> set es. pulse_event 0 n k x" "0 < n" "int (length es') = k"
  shows "\<exists>st a. arrivals_bench list_queue ar (cod_init z, [], []) es = Inr (st, [], [a]) \<and>
    (start_time e = no_start \<longrightarrow> start_time a = no_start) \<and>
    (start_time e \<noteq> no_start \<longrightarrow> start_time a \<in> start_time ` set es \<and> start_time a \<noteq> no_start \<and>
      (\<forall>x \<in> set es. start_time x \<noteq> no_start \<longrightarrow> dbl_val (start_time a) \<le> dbl_val (start_time x)))"
proof -
  have k: "0 < k" using assms(2,5) by (cases es') auto
  have e: "pulse_event (pulse_timestamp (cod_init z)) n k e" using assms(1,3) by (simp add: cod_init_def)
  obtain st1 where st1: "arrive_bench list_queue ar (cod_init z, [], []) e = Inr (st1, [], [])" "s_count st1 = 1"
      "current_node_degree st1 = k" "first_found_index st1 = 0" "pulse_timestamp st1 = 0"
      "length (gather_info (aggregated_event st1)) = n" "start_time (aggregated_event st1) = start_time e"
    using bench_first [OF e _ k, of ar "[]"] by (auto simp: cod_init_def)
  obtain st a where a: "arrivals_bench list_queue ar (st1, [], []) es' = Inr (st, [], [a])"
      "start_time a = fold_start (start_time e) es'"
    using bench_rest [of es' 0 n k st1 ar "[]"] assms st1 by auto
  have run: "arrivals_bench list_queue ar (cod_init z, [], []) es = Inr (st, [], [a])"
    using st1(1) a(1) by (simp add: assms(1))
  have ok: "\<forall>x \<in> set es'. start_ok (start_time x)" "start_ok (start_time e)"
    using assms(1,3) by (simp_all add: pulse_event_def)
  show ?thesis
  proof (intro exI conjI impI)
    show "arrivals_bench list_queue ar (cod_init z, [], []) es = Inr (st, [], [a])" by (rule run)
    show "start_time a = no_start" if "start_time e = no_start"
      using that a(2) fold_start_none [OF ok(1)] by simp
  next
    assume s: "start_time e \<noteq> no_start"
    note f = fold_start_least [OF ok s]
    show "start_time a \<in> start_time ` set es" "start_time a \<noteq> no_start" using f a(2) assms(1) by auto
    show "\<forall>x \<in> set es. start_time x \<noteq> no_start \<longrightarrow> dbl_val (start_time a) \<le> dbl_val (start_time x)"
      using f a(2) assms(1) by auto
  qed
qed

text \<open>A node with two children whose own event is found first.\<close>

definition timed_event :: "double \<Rightarrow> metrics_bench" where
  "timed_event t = \<lparr>metrics_nr = 1, gather_info = [\<lparr>agg_min = 1, agg_max = 1, agg_sum = 1\<rparr>], max_degree = 2,
     update_file = 0, parent_rank = 0, nprocs = 3, timestamp = 0, quit = 0, start_time = t\<rparr>"

theorem bench_start_time_witness:
  "\<exists>st a. arrivals_bench list_queue double_arith (cod_init (timed_event 0), [], [])
      [timed_event no_start, timed_event 5, timed_event 7] = Inr (st, [], [a]) \<and> start_time a = no_start"
proof -
  have v: "start_ok no_start" "start_ok 5" "start_ok 7" by (simp_all add: start_ok_def dbl_small)
  have "degree_loop 2 3 0 1 0 = Inr 2" by (simp add: degree_loop.simps c_int_def)
  moreover have "is_ok (parent_of 2 0)" by (simp add: parent_of_def c_int_def c_div_def is_ok_def signed_divide_int_def)
  ultimately have "pulse_event 0 1 2 (timed_event t)" if "start_ok t" for t
    using that by (simp add: pulse_event_def timed_event_def)
  with v have "\<forall>x \<in> set [timed_event no_start, timed_event 5, timed_event 7]. pulse_event 0 1 2 x" by simp
  from bench_start_time [OF refl _ this, of double_arith "timed_event 0"] show ?thesis
    by (auto simp: timed_event_def)
qed

end
