(* ===== verification/Uthash_Hash.thy ===== *)
theory Uthash_Hash
  imports Prelude
begin

text \<open>
  The hash functions of uthash.h on 32-bit words. A key is the list of its bytes, so that the
  reads of a function are the bytes between \<open>key\<close> and \<open>key + keylen\<close> and \<open>keylen\<close>
  is the list's length. Every macro computes the hash value and the bucket number
  \<open>hashv & (num_bkts - 1)\<close>; \<open>HASH_FCN\<close> is Jenkins's function unless the build
  overrides it.
\<close>

unbundle bit_operations_syntax

type_synonym byte = "8 word"

type_synonym u32 = "32 word"

abbreviation u8 :: "byte \<Rightarrow> u32" where "u8 b \<equiv> ucast b"

abbreviation shl :: "u32 \<Rightarrow> nat \<Rightarrow> u32" where "shl x n \<equiv> push_bit n x"

abbreviation shr :: "u32 \<Rightarrow> nat \<Rightarrow> u32" where "shr x n \<equiv> drop_bit n x"

definition HASH_TO_BKT :: "u32 \<Rightarrow> u32 \<Rightarrow> u32" where
  "HASH_TO_BKT hashv num_bkts = hashv AND (num_bkts - 1)"

section \<open>Bernstein, SAX, FNV-1a and one-at-a-time\<close>

fun ber_loop :: "u32 \<Rightarrow> byte list \<Rightarrow> u32" where
  "ber_loop h [] = h"
| "ber_loop h (b # bs) = ber_loop ((shl h 5 + h) + u8 b) bs"

definition HASH_BER :: "byte list \<Rightarrow> u32 \<Rightarrow> u32 \<times> u32" where
  "HASH_BER key num_bkts = (let h = ber_loop 0 key in (h, HASH_TO_BKT h num_bkts))"

fun sax_loop :: "u32 \<Rightarrow> byte list \<Rightarrow> u32" where
  "sax_loop h [] = h"
| "sax_loop h (b # bs) = sax_loop (h XOR (shl h 5 + shr h 2 + u8 b)) bs"

definition HASH_SAX :: "byte list \<Rightarrow> u32 \<Rightarrow> u32 \<times> u32" where
  "HASH_SAX key num_bkts = (let h = sax_loop 0 key in (h, HASH_TO_BKT h num_bkts))"

fun fnv_loop :: "u32 \<Rightarrow> byte list \<Rightarrow> u32" where
  "fnv_loop h [] = h"
| "fnv_loop h (b # bs) = fnv_loop ((h XOR u8 b) * 16777619) bs"

definition HASH_FNV :: "byte list \<Rightarrow> u32 \<Rightarrow> u32 \<times> u32" where
  "HASH_FNV key num_bkts = (let h = fnv_loop 2166136261 key in (h, HASH_TO_BKT h num_bkts))"

fun oat_loop :: "u32 \<Rightarrow> byte list \<Rightarrow> u32" where
  "oat_loop h [] = h"
| "oat_loop h (b # bs) =
     (let h1 = h + u8 b; h2 = h1 + shl h1 10; h3 = h2 XOR shr h2 6 in oat_loop h3 bs)"

definition HASH_OAT :: "byte list \<Rightarrow> u32 \<Rightarrow> u32 \<times> u32" where
  "HASH_OAT key num_bkts =
     (let h = oat_loop 0 key; h1 = h + shl h 3; h2 = h1 XOR shr h1 11; h3 = h2 + shl h2 15
      in (h3, HASH_TO_BKT h3 num_bkts))"

section \<open>Jenkins\<close>

definition HASH_JEN_MIX :: "u32 \<Rightarrow> u32 \<Rightarrow> u32 \<Rightarrow> u32 \<times> u32 \<times> u32" where
  "HASH_JEN_MIX a b c =
     (let a = (a - b - c) XOR shr c 13;
          b = (b - c - a) XOR shl a 8;
          c = (c - a - b) XOR shr b 13;
          a = (a - b - c) XOR shr c 12;
          b = (b - c - a) XOR shl a 16;
          c = (c - a - b) XOR shr b 5;
          a = (a - b - c) XOR shr c 3;
          b = (b - c - a) XOR shl a 10;
          c = (c - a - b) XOR shr b 15
      in (a, b, c))"

text \<open>Four bytes from index \<open>n\<close>, the first one lowest.\<close>

definition get32 :: "byte list \<Rightarrow> nat \<Rightarrow> u32" where
  "get32 k n = u8 (k ! n) + shl (u8 (k ! (n + 1))) 8 + shl (u8 (k ! (n + 2))) 16 + shl (u8 (k ! (n + 3))) 24"

text \<open>The loop over blocks of 12 bytes: \<open>(i, j, hashv)\<close> and the rest of the key.\<close>

function jen_loop :: "u32 \<times> u32 \<times> u32 \<Rightarrow> byte list \<Rightarrow> (u32 \<times> u32 \<times> u32) \<times> byte list" where
  "jen_loop s key =
     (case s of (i, j, h) \<Rightarrow>
       if 12 \<le> length key
       then jen_loop (HASH_JEN_MIX (i + get32 key 0) (j + get32 key 4) (h + get32 key 8)) (drop 12 key)
       else (s, key))"
  by pat_completeness auto
termination by (relation "measure (\<lambda>(s, key). length key)") auto

declare jen_loop.simps [simp del]

text \<open>
  The switch over the last 0 to 11 bytes: every case falls through to the lower ones, so a byte is
  added exactly when it exists.
\<close>

definition jen_byte :: "byte list \<Rightarrow> nat \<Rightarrow> nat \<Rightarrow> u32" where
  "jen_byte k n s = (if n < length k then shl (u8 (k ! n)) s else 0)"

definition jen_tail :: "byte list \<Rightarrow> u32 \<times> u32 \<times> u32 \<Rightarrow> u32 \<times> u32 \<times> u32" where
  "jen_tail k s =
     (case s of (i, j, h) \<Rightarrow>
       let h = h + jen_byte k 10 24; h = h + jen_byte k 9 16; h = h + jen_byte k 8 8;
           j = j + jen_byte k 7 24; j = j + jen_byte k 6 16; j = j + jen_byte k 5 8;
           j = j + jen_byte k 4 0;
           i = i + jen_byte k 3 24; i = i + jen_byte k 2 16; i = i + jen_byte k 1 8;
           i = i + jen_byte k 0 0
       in (i, j, h))"

definition jen_hashv :: "byte list \<Rightarrow> u32" where
  "jen_hashv key =
     (let ((i, j, h), rest) = jen_loop (0x9e3779b9, 0x9e3779b9, 0xfeedbeef) key;
          (i, j, h) = jen_tail rest (i, j, h + of_nat (length key));
          (i, j, h) = HASH_JEN_MIX i j h
      in h)"

definition HASH_JEN :: "byte list \<Rightarrow> u32 \<Rightarrow> u32 \<times> u32" where
  "HASH_JEN key num_bkts = (let h = jen_hashv key in (h, HASH_TO_BKT h num_bkts))"

abbreviation HASH_FCN :: "byte list \<Rightarrow> u32 \<Rightarrow> u32 \<times> u32" where "HASH_FCN \<equiv> HASH_JEN"

section \<open>Paul Hsieh\<close>

definition get16bits :: "byte list \<Rightarrow> nat \<Rightarrow> u32" where
  "get16bits k n = shl (u8 (k ! (n + 1))) 8 + u8 (k ! n)"

function sfh_loop :: "u32 \<Rightarrow> byte list \<Rightarrow> u32 \<times> byte list" where
  "sfh_loop h key =
     (if 4 \<le> length key then
        (let h = h + get16bits key 0;
             tmp = shl (get16bits key 2) 11 XOR h;
             h = shl h 16 XOR tmp;
             h = h + shr h 11
         in sfh_loop h (drop 4 key))
      else (h, key))"
  by pat_completeness auto
termination by (relation "measure (\<lambda>(h, key). length key)") auto

declare sfh_loop.simps [simp del]

definition sfh_tail :: "byte list \<Rightarrow> u32 \<Rightarrow> u32" where
  "sfh_tail k h =
     (if length k = 3 then
        (let h = h + get16bits k 0; h = h XOR shl h 16; h = h XOR shl (u8 (k ! 2)) 18 in h + shr h 11)
      else if length k = 2 then
        (let h = h + get16bits k 0; h = h XOR shl h 11 in h + shr h 17)
      else if length k = 1 then
        (let h = h + u8 (k ! 0); h = h XOR shl h 10 in h + shr h 1)
      else h)"

definition HASH_SFH :: "byte list \<Rightarrow> u32 \<Rightarrow> u32 \<times> u32" where
  "HASH_SFH key num_bkts =
     (let (h, rest) = sfh_loop 0xcafebabe key;
          h = sfh_tail rest h;
          h = h XOR shl h 3; h = h + shr h 5; h = h XOR shl h 4; h = h + shr h 17;
          h = h XOR shl h 25; h = h + shr h 6
      in (h, HASH_TO_BKT h num_bkts))"

section \<open>Murmur\<close>

definition MUR_ROTL32 :: "u32 \<Rightarrow> nat \<Rightarrow> u32" where
  "MUR_ROTL32 x r = shl x r OR shr x (32 - r)"

definition MUR_FMIX :: "u32 \<Rightarrow> u32" where
  "MUR_FMIX h =
     (let h = h XOR shr h 16; h = h * 0x85ebca6b; h = h XOR shr h 13; h = h * 0xc2b2ae35
      in h XOR shr h 16)"

definition mur_k :: "u32 \<Rightarrow> u32" where
  "mur_k k = MUR_ROTL32 (k * 0xcc9e2d51) 15 * 0x1b873593"

text \<open>The loop over whole blocks, read as little-endian words, and the rest of the key.\<close>

function mur_loop :: "u32 \<Rightarrow> byte list \<Rightarrow> u32 \<times> byte list" where
  "mur_loop h key =
     (if 4 \<le> length key
      then mur_loop (MUR_ROTL32 (h XOR mur_k (get32 key 0)) 13 * 5 + 0xe6546b64) (drop 4 key)
      else (h, key))"
  by pat_completeness auto
termination by (relation "measure (\<lambda>(h, key). length key)") auto

declare mur_loop.simps [simp del]

definition mur_tail :: "byte list \<Rightarrow> u32 \<Rightarrow> u32" where
  "mur_tail k h =
     (if k = [] then h
      else h XOR mur_k (jen_byte k 2 16 XOR jen_byte k 1 8 XOR jen_byte k 0 0))"

definition HASH_MUR :: "byte list \<Rightarrow> u32 \<Rightarrow> u32 \<times> u32" where
  "HASH_MUR key num_bkts =
     (let (h, rest) = mur_loop 0xf88D5353 key;
          h = MUR_FMIX (mur_tail rest h XOR of_nat (length key))
      in (h, HASH_TO_BKT h num_bkts))"

section \<open>The bucket number\<close>

text \<open>With a power of two as the number of buckets the bucket number is the low bits of the hash.\<close>

lemma HASH_TO_BKT_pow2:
  "HASH_TO_BKT h (2 ^ k) = take_bit k h"
  by (simp add: HASH_TO_BKT_def take_bit_eq_mask mask_eq_exp_minus_1)

lemma HASH_TO_BKT_less: "unat (HASH_TO_BKT h (2 ^ k)) < 2 ^ k"
  by (simp add: HASH_TO_BKT_pow2 unsigned_take_bit_eq take_bit_nat_def)

lemma HASH_JEN_simps [simp]:
  "fst (HASH_JEN key n) = jen_hashv key" "snd (HASH_JEN key n) = HASH_TO_BKT (jen_hashv key) n"
  by (simp_all add: HASH_JEN_def Let_def)

text \<open>
  Every hash function of uthash.h returns a bucket number within a table whose number of buckets
  is a power of two.
\<close>

theorem hash_bucket_in_range:
  "f \<in> {HASH_BER, HASH_SAX, HASH_FNV, HASH_OAT, HASH_JEN, HASH_SFH, HASH_MUR} \<Longrightarrow>
     unat (snd (f key (2 ^ k))) < 2 ^ k"
  by (auto simp: HASH_BER_def HASH_SAX_def HASH_FNV_def HASH_OAT_def HASH_JEN_def HASH_SFH_def
      HASH_MUR_def Let_def HASH_TO_BKT_less split: prod.split)

theorem hash_bucket_in_range_witness: "unat (snd (HASH_JEN [114, 97, 110, 107] (2 ^ 5))) < 2 ^ 5"
  by (rule hash_bucket_in_range) simp

text \<open>The three rounds of the mixing step; each line of a round can be undone.\<close>

definition jen_round :: "nat \<Rightarrow> nat \<Rightarrow> nat \<Rightarrow> u32 \<times> u32 \<times> u32 \<Rightarrow> u32 \<times> u32 \<times> u32" where
  "jen_round p q r s =
     (case s of (a, b, c) \<Rightarrow>
       let a1 = (a - b - c) XOR shr c p; b1 = (b - c - a1) XOR shl a1 q;
           c1 = (c - a1 - b1) XOR shr b1 r
       in (a1, b1, c1))"

lemma mix_rounds:
  "HASH_JEN_MIX a b c = jen_round 3 10 15 (jen_round 12 16 5 (jen_round 13 8 13 (a, b, c)))"
  by (simp add: HASH_JEN_MIX_def jen_round_def Let_def)

lemma xor_cancel: "(x XOR t = y XOR t) = (x = (y :: u32))"
  by (metis bit.xor_left_self xor.commute)

lemma mix_cancel:
  "(x - y - z) XOR t = (x' - y' - z') XOR t' \<Longrightarrow> y = y' \<Longrightarrow> z = z' \<Longrightarrow> t = t' \<Longrightarrow> x = (x' :: u32)"
  by (simp add: xor_cancel)

lemma jen_round_inj: "jen_round p q r s = jen_round p q r s' \<Longrightarrow> s = s'"
proof -
  assume eq: "jen_round p q r s = jen_round p q r s'"
  obtain a b c a' b' c' where s: "s = (a, b, c)" "s' = (a', b', c')" by (cases s, cases s')
  let ?a = "(a - b - c) XOR shr c p" and ?a' = "(a' - b' - c') XOR shr c' p"
  let ?b = "(b - c - ?a) XOR shl ?a q" and ?b' = "(b' - c' - ?a') XOR shl ?a' q"
  have "?a = ?a' \<and> ?b = ?b' \<and> (c - ?a - ?b) XOR shr ?b r = (c' - ?a' - ?b') XOR shr ?b' r"
    using eq unfolding jen_round_def s Let_def prod.case prod.inject by assumption
  then have e: "?a = ?a'" "?b = ?b'" "(c - ?a - ?b) XOR shr ?b r = (c' - ?a' - ?b') XOR shr ?b' r"
    by blast+
  have c: "c = c'" using mix_cancel [OF e(3,1,2) arg_cong [OF e(2)]] .
  have b: "b = b'" using mix_cancel [OF e(2) c e(1) arg_cong [OF e(1)]] .
  have "a = a'" using mix_cancel [OF e(1) b c arg_cong [OF c]] .
  then show "s = s'" using b c s by simp
qed

text \<open>
  Jenkins's mixing step loses no information: two triples of words that differ are still
  different after it.
\<close>

theorem HASH_JEN_MIX_inj:
  "HASH_JEN_MIX a b c = HASH_JEN_MIX a' b' c' \<Longrightarrow> (a, b, c) = (a', b', c')"
  unfolding mix_rounds by (rule jen_round_inj, rule jen_round_inj, rule jen_round_inj)

theorem HASH_JEN_MIX_inj_witness: "HASH_JEN_MIX 1 2 3 \<noteq> HASH_JEN_MIX 1 2 4"
  using HASH_JEN_MIX_inj [of 1 2 3 1 2 4] by auto

end
