(* ===== verification/Uthash.thy ===== *)
theory Uthash
  imports Uthash_Hash
begin

text \<open>
  The hash table of uthash.h at the level of its pointers. An element is identified with the
  address of its struct (the handle \<open>hh\<close> inside it is at a fixed offset, so the translation
  ELMT_FROM_HH is the identity here); the memory maps addresses to elements. Every element is in
  two doubly linked lists, the one in the order of insertion (prev, next) and the one of its bucket
  (hh_prev, hh_next). The loops over a list take fuel; the number of allocated elements is enough
  because the lists have no cycles (theory Uthash_Inv). Memory allocation is taken to succeed.
\<close>

section \<open>Data\<close>

type_synonym ptr = nat

record 'a uth_elem =
  el_prev :: "ptr option"
  el_next :: "ptr option"
  hh_prev :: "ptr option"
  hh_next :: "ptr option"
  hkey :: "byte list"
  hashv :: u32
  payload :: 'a

record uth_bucket =
  hh_head :: "ptr option"
  bcount :: u32
  expand_mult :: u32

record uth_table =
  buckets :: "uth_bucket list"
  num_buckets :: u32
  log2_num_buckets :: nat
  num_items :: u32
  tail :: "ptr option"
  ideal_chain_maxlen :: u32
  nonideal_items :: u32
  ineff_expands :: u32
  noexpand :: u32

record 'a uth =
  head :: "ptr option"
  tbl :: uth_table
  mem :: "ptr \<Rightarrow> 'a uth_elem"
  brk :: nat

text \<open>The next free address; a struct is allocated there and its fields outside the handle are set.\<close>

definition new_elem :: "'a uth \<Rightarrow> 'a \<Rightarrow> ptr \<times> 'a uth" where
  "new_elem s x =
     (brk s, s\<lparr>mem := (mem s)(brk s := (mem s (brk s))\<lparr>payload := x\<rparr>), brk := brk s + 1\<rparr>)"

section \<open>Lookup\<close>

fun HASH_FIND_IN_BKT :: "nat \<Rightarrow> (ptr \<Rightarrow> 'a uth_elem) \<Rightarrow> byte list \<Rightarrow> ptr option \<Rightarrow> ptr option res" where
  "HASH_FIND_IN_BKT fuel m key None = Inr None"
| "HASH_FIND_IN_BKT 0 m key (Some p) = Inl OutOfFuel"
| "HASH_FIND_IN_BKT (Suc fuel) m key (Some p) =
     (if length (hkey (m p)) = length key \<and> hkey (m p) = key then Inr (Some p)
      else HASH_FIND_IN_BKT fuel m key (hh_next (m p)))"

definition HASH_FIND :: "'a uth \<Rightarrow> byte list \<Rightarrow> ptr option res" where
  "HASH_FIND s key =
     (case head s of
        None \<Rightarrow> Inr None
      | Some _ \<Rightarrow>
          let (h, b) = HASH_FCN key (num_buckets (tbl s)) in
          bind_r (arr_get (buckets (tbl s)) (uint b)) (\<lambda>bkt.
          HASH_FIND_IN_BKT (brk s) (mem s) key (hh_head bkt)))"

section \<open>Insertion\<close>

definition empty_bucket :: uth_bucket where
  "empty_bucket = \<lparr>hh_head = None, bcount = 0, expand_mult = 0\<rparr>"

definition HASH_MAKE_TABLE :: "ptr \<Rightarrow> uth_table" where
  "HASH_MAKE_TABLE p =
     \<lparr>buckets = replicate 32 empty_bucket, num_buckets = 32, log2_num_buckets = 5, num_items = 0,
      tail = Some p, ideal_chain_maxlen = 0, nonideal_items = 0, ineff_expands = 0, noexpand = 0\<rparr>"

text \<open>An element becomes the first one of a bucket's list.\<close>

definition push_mem :: "(ptr \<Rightarrow> 'a uth_elem) \<Rightarrow> ptr option \<Rightarrow> ptr \<Rightarrow> (ptr \<Rightarrow> 'a uth_elem)" where
  "push_mem m h p =
     (let m1 = m(p := (m p)\<lparr>hh_next := h, hh_prev := None\<rparr>)
      in case h of None \<Rightarrow> m1 | Some q \<Rightarrow> m1(q := (m1 q)\<lparr>hh_prev := Some p\<rparr>))"

text \<open>
  Expansion: one element moves into its new bucket; a whole old bucket; all buckets. The state is
  the new bucket array, the count of elements beyond the ideal chain length, and the memory.
\<close>

type_synonym 'a he_state = "uth_bucket list \<times> u32 \<times> (ptr \<Rightarrow> 'a uth_elem)"

definition he_move :: "u32 \<Rightarrow> u32 \<Rightarrow> 'a he_state \<Rightarrow> ptr \<Rightarrow> 'a he_state res" where
  "he_move ideal n2 st p =
     (case st of (bs, nonideal, m) \<Rightarrow>
       let i = uint (HASH_TO_BKT (hashv (m p)) n2) in
       bind_r (arr_get bs i) (\<lambda>b.
       let c = bcount b + 1 in
       bind_r
         (if ideal < c
          then if ideal = 0 then Inl DivByZero
               else Inr (nonideal + 1, b\<lparr>bcount := c, expand_mult := c div ideal\<rparr>)
          else Inr (nonideal, b\<lparr>bcount := c\<rparr>))
         (\<lambda>(nonideal1, b1).
           bind_r (arr_set bs i (b1\<lparr>hh_head := Some p\<rparr>)) (\<lambda>bs1.
           Inr (bs1, nonideal1, push_mem m (hh_head b1) p)))))"

fun he_chain :: "nat \<Rightarrow> u32 \<Rightarrow> u32 \<Rightarrow> 'a he_state \<Rightarrow> ptr option \<Rightarrow> 'a he_state res" where
  "he_chain fuel ideal n2 st None = Inr st"
| "he_chain 0 ideal n2 st (Some p) = Inl OutOfFuel"
| "he_chain (Suc fuel) ideal n2 st (Some p) =
     (let nxt = hh_next (snd (snd st) p) in
      bind_r (he_move ideal n2 st p) (\<lambda>st1. he_chain fuel ideal n2 st1 nxt))"

fun he_buckets :: "nat \<Rightarrow> u32 \<Rightarrow> u32 \<Rightarrow> 'a he_state \<Rightarrow> uth_bucket list \<Rightarrow> 'a he_state res" where
  "he_buckets fuel ideal n2 st [] = Inr st"
| "he_buckets fuel ideal n2 st (b # bs) =
     bind_r (he_chain fuel ideal n2 st (hh_head b)) (\<lambda>st1. he_buckets fuel ideal n2 st1 bs)"

text \<open>
  The shift by \<open>log2_num_buckets + 1\<close> is undefined from 32 on; the table then has 2^31 buckets.
\<close>

definition HASH_EXPAND_BUCKETS :: "'a uth \<Rightarrow> 'a uth res" where
  "HASH_EXPAND_BUCKETS s =
     (let t = tbl s; n2 = num_buckets t * 2 in
      if 32 \<le> log2_num_buckets t + 1 then Inl Overflow
      else if length (buckets t) < unat (num_buckets t) then Inl OutOfBounds
      else
        let ideal = drop_bit (log2_num_buckets t + 1) (num_items t)
              + (if num_items t AND (n2 - 1) \<noteq> 0 then 1 else 0) in
        bind_r
          (he_buckets (brk s) ideal n2 (replicate (2 * unat (num_buckets t)) empty_bucket, 0, mem s)
            (take (unat (num_buckets t)) (buckets t)))
          (\<lambda>(bs, nonideal, m).
            let ineff = (if drop_bit 1 (num_items t) < nonideal then ineff_expands t + 1 else 0) in
            Inr (s\<lparr>mem := m,
              tbl := t\<lparr>ideal_chain_maxlen := ideal, nonideal_items := nonideal, num_buckets := n2,
                log2_num_buckets := log2_num_buckets t + 1, buckets := bs, ineff_expands := ineff,
                noexpand := (if 1 < ineff then 1 else noexpand t)\<rparr>\<rparr>)))"

definition HASH_ADD_TO_BKT :: "'a uth \<Rightarrow> u32 \<Rightarrow> ptr \<Rightarrow> 'a uth res" where
  "HASH_ADD_TO_BKT s i p =
     bind_r (arr_get (buckets (tbl s)) (uint i)) (\<lambda>b.
     let c = bcount b + 1;
         s1 = s\<lparr>mem := push_mem (mem s) (hh_head b) p,
           tbl := (tbl s)\<lparr>buckets := (buckets (tbl s))[unat i := b\<lparr>bcount := c, hh_head := Some p\<rparr>]\<rparr>\<rparr>
     in if (expand_mult b + 1) * 10 \<le> c \<and> noexpand (tbl s) \<noteq> 1 then HASH_EXPAND_BUCKETS s1
        else Inr s1)"

text \<open>The element joins the list in insertion order, at its end.\<close>

definition HASH_ADD_KEYPTR :: "'a uth \<Rightarrow> byte list \<Rightarrow> ptr \<Rightarrow> 'a uth res" where
  "HASH_ADD_KEYPTR s key p =
     (let m = (mem s)(p := (mem s p)\<lparr>el_next := None, hkey := key\<rparr>) in
      bind_r
        (case head s of
           None \<Rightarrow> Inr (s\<lparr>head := Some p, mem := m(p := (m p)\<lparr>el_prev := None\<rparr>), tbl := HASH_MAKE_TABLE p\<rparr>)
         | Some _ \<Rightarrow>
             (case tail (tbl s) of
                None \<Rightarrow> Inl NullDeref
              | Some t \<Rightarrow>
                  let m1 = m(t := (m t)\<lparr>el_next := Some p\<rparr>)
                  in Inr (s\<lparr>mem := m1(p := (m1 p)\<lparr>el_prev := Some t\<rparr>), tbl := (tbl s)\<lparr>tail := Some p\<rparr>\<rparr>)))
        (\<lambda>s1.
          let t = tbl s1;
              (h, b) = HASH_FCN key (num_buckets t);
              s2 = s1\<lparr>tbl := t\<lparr>num_items := num_items t + 1\<rparr>,
                mem := (mem s1)(p := (mem s1 p)\<lparr>hashv := h\<rparr>)\<rparr>
          in HASH_ADD_TO_BKT s2 b p))"

section \<open>Deletion\<close>

text \<open>The patching of the neighbours in a bucket's list.\<close>

definition unlink_mem :: "(ptr \<Rightarrow> 'a uth_elem) \<Rightarrow> ptr \<Rightarrow> (ptr \<Rightarrow> 'a uth_elem)" where
  "unlink_mem m p =
     (let m1 = (case hh_prev (m p) of None \<Rightarrow> m | Some q \<Rightarrow> m(q := (m q)\<lparr>hh_next := hh_next (m p)\<rparr>))
      in case hh_next (m1 p) of None \<Rightarrow> m1 | Some q \<Rightarrow> m1(q := (m1 q)\<lparr>hh_prev := hh_prev (m1 p)\<rparr>))"

definition HASH_DEL_IN_BKT :: "'a uth \<Rightarrow> u32 \<Rightarrow> ptr \<Rightarrow> 'a uth res" where
  "HASH_DEL_IN_BKT s i p =
     bind_r (arr_get (buckets (tbl s)) (uint i)) (\<lambda>b.
     let b1 = b\<lparr>bcount := bcount b - 1\<rparr>;
         b2 = (if hh_head b1 = Some p then b1\<lparr>hh_head := hh_next (mem s p)\<rparr> else b1)
     in Inr (s\<lparr>mem := unlink_mem (mem s) p,
          tbl := (tbl s)\<lparr>buckets := (buckets (tbl s))[unat i := b2]\<rparr>\<rparr>))"

text \<open>The patching of the tail, the head and the neighbours in the list in insertion order.\<close>

definition unlist :: "'a uth \<Rightarrow> ptr \<Rightarrow> 'a uth" where
  "unlist s p =
     (let m = mem s; t = tbl s;
          t1 = (if tail t = Some p then t\<lparr>tail := el_prev (m p)\<rparr> else t);
          m1 = (case el_prev (m p) of None \<Rightarrow> m | Some q \<Rightarrow> m(q := (m q)\<lparr>el_next := el_next (m p)\<rparr>));
          hd1 = (case el_prev (m p) of None \<Rightarrow> el_next (m p) | Some _ \<Rightarrow> head s);
          m2 = (case el_next (m1 p) of None \<Rightarrow> m1 | Some q \<Rightarrow> m1(q := (m1 q)\<lparr>el_prev := el_prev (m1 p)\<rparr>))
      in s\<lparr>head := hd1, mem := m2, tbl := t1\<rparr>)"

definition HASH_DELETE :: "'a uth \<Rightarrow> ptr \<Rightarrow> 'a uth res" where
  "HASH_DELETE s p =
     (if el_prev (mem s p) = None \<and> el_next (mem s p) = None then Inr (s\<lparr>head := None\<rparr>)
      else
        let s1 = unlist s p in
        bind_r (HASH_DEL_IN_BKT s1 (HASH_TO_BKT (hashv (mem s1 p)) (num_buckets (tbl s1))) p) (\<lambda>s2.
        Inr (s2\<lparr>tbl := (tbl s2)\<lparr>num_items := num_items (tbl s2) - 1\<rparr>\<rparr>)))"

definition HASH_REPLACE :: "'a uth \<Rightarrow> byte list \<Rightarrow> ptr \<Rightarrow> ('a uth \<times> ptr option) res" where
  "HASH_REPLACE s key p =
     bind_r (HASH_FIND s key) (\<lambda>replaced.
     bind_r (case replaced of None \<Rightarrow> Inr s | Some q \<Rightarrow> HASH_DELETE s q) (\<lambda>s1.
     bind_r (HASH_ADD_KEYPTR s1 key p) (\<lambda>s2. Inr (s2, replaced))))"

section \<open>The whole table\<close>

definition HASH_CLEAR :: "'a uth \<Rightarrow> 'a uth" where
  "HASH_CLEAR s = (case head s of None \<Rightarrow> s | Some _ \<Rightarrow> s\<lparr>head := None\<rparr>)"

definition HASH_COUNT :: "'a uth \<Rightarrow> u32" where
  "HASH_COUNT s = (case head s of None \<Rightarrow> 0 | Some _ \<Rightarrow> num_items (tbl s))"

text \<open>
  The safe iteration with deletion of the visited element, as both clients of the table use it:
  the successor is read before the body runs.
\<close>

fun iter_delete :: "nat \<Rightarrow> 'a uth \<Rightarrow> ptr option \<Rightarrow> ptr option \<Rightarrow> 'a uth res" where
  "iter_delete fuel s None tmp = Inr s"
| "iter_delete 0 s (Some el) tmp = Inl OutOfFuel"
| "iter_delete (Suc fuel) s (Some el) tmp =
     bind_r (HASH_DELETE s el) (\<lambda>s1.
     iter_delete fuel s1 tmp (case tmp of None \<Rightarrow> None | Some q \<Rightarrow> el_next (mem s1 q)))"

definition HASH_ITER_DEL :: "'a uth \<Rightarrow> 'a uth res" where
  "HASH_ITER_DEL s =
     iter_delete (brk s + 1) s (head s)
       (case head s of None \<Rightarrow> None | Some p \<Rightarrow> el_next (mem s p))"

section \<open>The integrity check\<close>

text \<open>
  HASH_FSCK of a debug build, which exits at the first inconsistency: the back pointers and counts of every
  bucket, the total, and the list in insertion order. The walk along one list returns the number
  of its elements.
\<close>

fun fsck_walk :: "nat \<Rightarrow> (ptr \<Rightarrow> ptr option) \<Rightarrow> (ptr \<Rightarrow> ptr option) \<Rightarrow> ptr option \<Rightarrow> ptr option \<Rightarrow>
    u32 \<Rightarrow> u32 res" where
  "fsck_walk fuel pv nx prev None count = Inr count"
| "fsck_walk 0 pv nx prev (Some p) count = Inl OutOfFuel"
| "fsck_walk (Suc fuel) pv nx prev (Some p) count =
     (if prev \<noteq> pv p then Inl (ExitCode (-1))
      else fsck_walk fuel pv nx (Some p) (nx p) (count + 1))"

fun fsck_buckets :: "nat \<Rightarrow> (ptr \<Rightarrow> 'a uth_elem) \<Rightarrow> uth_bucket list \<Rightarrow> u32 \<Rightarrow> u32 res" where
  "fsck_buckets fuel m [] count = Inr count"
| "fsck_buckets fuel m (b # bs) count =
     bind_r (fsck_walk fuel (\<lambda>x. hh_prev (m x)) (\<lambda>x. hh_next (m x)) None (hh_head b) 0) (\<lambda>c.
     if bcount b \<noteq> c then Inl (ExitCode (-1)) else fsck_buckets fuel m bs (count + c))"

definition HASH_FSCK :: "'a uth \<Rightarrow> unit res" where
  "HASH_FSCK s =
     (case head s of
        None \<Rightarrow> Inr ()
      | Some h \<Rightarrow>
          bind_r (fsck_buckets (brk s) (mem s) (take (unat (num_buckets (tbl s))) (buckets (tbl s))) 0)
            (\<lambda>count. if count \<noteq> num_items (tbl s) then Inl (ExitCode (-1)) else
          bind_r (fsck_walk (brk s) (\<lambda>x. el_prev (mem s x)) (\<lambda>x. el_next (mem s x)) None (Some h) 0)
            (\<lambda>count. if count \<noteq> num_items (tbl s) then Inl (ExitCode (-1)) else Inr ())))"

end
