(* ===== verification/Linked_Lists.thy ===== *)
theory Linked_Lists
  imports Prelude
begin

text \<open>
  Doubly linked lists over a memory, as the hash table of uthash.h uses them twice for every element:
  \<open>seg pv nx p xs q\<close> says that the addresses \<open>xs\<close> are linked in this order by the fields
  \<open>pv\<close> and \<open>nx\<close>, with \<open>p\<close> before the first and \<open>q\<close> after the last one. What it
  takes to add an element at the front or the end and to take one out is proved here once.
\<close>

definition first :: "nat list \<Rightarrow> nat option \<Rightarrow> nat option" where
  "first xs q = (case xs of [] \<Rightarrow> q | x # _ \<Rightarrow> Some x)"

definition final :: "nat list \<Rightarrow> nat option \<Rightarrow> nat option" where
  "final xs p = (if xs = [] then p else Some (last xs))"

lemma first_simps [simp]: "first [] q = q" "first (x # xs) q = Some x"
  by (simp_all add: first_def)

lemma final_simps [simp]:
  "final [] p = p" "final (x # xs) p = final xs (Some x)" "final (xs @ [x]) p = Some x"
  by (simp_all add: final_def)

lemma first_append: "first (xs @ ys) q = first xs (first ys q)"
  by (cases xs) simp_all

lemma final_append: "final (xs @ ys) p = final ys (final xs p)"
  by (simp add: final_def)

lemma first_mem: "first xs None = Some y \<Longrightarrow> y \<in> set xs"
  by (cases xs) auto

lemma final_mem: "final xs None = Some y \<Longrightarrow> y \<in> set xs"
  by (auto simp: final_def split: if_splits)

lemma first_None [simp]: "first xs q = None \<longleftrightarrow> xs = [] \<and> q = None"
  by (cases xs) simp_all

lemma final_None [simp]: "final xs p = None \<longleftrightarrow> xs = [] \<and> p = None"
  by (simp add: final_def)

fun seg :: "(nat \<Rightarrow> nat option) \<Rightarrow> (nat \<Rightarrow> nat option) \<Rightarrow> nat option \<Rightarrow> nat list \<Rightarrow> nat option \<Rightarrow> bool" where
  "seg pv nx p [] q \<longleftrightarrow> True"
| "seg pv nx p (x # xs) q \<longleftrightarrow> pv x = p \<and> nx x = first xs q \<and> seg pv nx (Some x) xs q"

lemma seg_append:
  "seg pv nx p (xs @ ys) q \<longleftrightarrow> seg pv nx p xs (first ys q) \<and> seg pv nx (final xs p) ys q"
  by (induction xs arbitrary: p) (auto simp: first_append)

lemma seg_cong:
  "\<forall>x \<in> set xs. pv x = pv' x \<and> nx x = nx' x \<Longrightarrow> seg pv nx p xs q \<longleftrightarrow> seg pv' nx' p xs q"
  by (induction xs arbitrary: p) auto

lemma seg_upd_other [simp]:
  "x \<notin> set xs \<Longrightarrow> seg (pv(x := v)) nx p xs q \<longleftrightarrow> seg pv nx p xs q"
  "x \<notin> set xs \<Longrightarrow> seg pv (nx(x := v)) p xs q \<longleftrightarrow> seg pv nx p xs q"
  by (rule seg_cong; auto)+

text \<open>A new first element.\<close>

lemma seg_push:
  assumes "seg pv nx None xs None" "x \<notin> set xs" "distinct xs"
    and "nx' = nx(x := first xs None)"
    and "pv' = (case first xs None of None \<Rightarrow> pv(x := None) | Some q \<Rightarrow> pv(x := None, q := Some x))"
  shows "seg pv' nx' None (x # xs) None"
  using assms by (cases xs) auto

text \<open>A new last element.\<close>

lemma seg_snoc:
  assumes "seg pv nx None xs None" "x \<notin> set xs" "distinct xs" "xs \<noteq> []"
  shows "seg (pv(x := Some (last xs))) (nx(x := None, last xs := Some x)) None (xs @ [x]) None"
proof -
  obtain ys y where xs: "xs = ys @ [y]" using assms(4) by (metis append_butlast_last_id)
  show ?thesis using assms(1-3) by (auto simp: xs seg_append)
qed

text \<open>An element is taken out.\<close>

lemma seg_unlink:
  assumes "seg pv nx None (xs @ x # ys) None" "distinct (xs @ x # ys)"
    and "nx' = (case pv x of None \<Rightarrow> nx | Some q \<Rightarrow> nx(q := nx x))"
    and "pv' = (case nx x of None \<Rightarrow> pv | Some q \<Rightarrow> pv(q := pv x))"
  shows "seg pv' nx' None (xs @ ys) None"
proof -
  have x: "pv x = final xs None" "nx x = first ys None" using assms(1) by (simp_all add: seg_append)
  have l: "seg pv nx None xs (Some x)" "seg pv nx (Some x) ys None"
    using assms(1) by (simp_all add: seg_append)
  have nx': "seg pv' nx' None xs (first ys None)"
  proof (cases xs rule: rev_cases)
    case (snoc zs z)
    have "seg pv' nx' None zs (Some z) \<longleftrightarrow> seg pv nx None zs (Some z)"
      using assms(2-4) x by (intro seg_cong) (auto simp: snoc first_def split: option.splits list.splits)
    then show ?thesis using l(1) assms(2-4) x
      by (auto simp: snoc seg_append first_def split: option.splits list.splits)
  qed simp
  have "seg pv' nx' (final xs None) ys None"
  proof (cases ys)
    case (Cons z zs)
    have n: "last xs \<notin> set (z # zs)" if "xs \<noteq> []"
      using last_in_set [OF that] assms(2) by (auto simp: Cons)
    have "seg pv' nx' (Some z) zs None \<longleftrightarrow> seg pv nx (Some z) zs None"
      using assms(2-4) x n
      by (intro seg_cong) (auto simp: Cons final_def split: option.splits if_splits)
    then show ?thesis using l(2) assms(2-4) x n
      by (auto simp: Cons final_def split: option.splits if_splits)
  qed simp
  then show ?thesis using nx' by (simp add: seg_append)
qed

lemma seg_ends:
  assumes "seg pv nx None (xs @ x # ys) None"
  shows "pv x = final xs None" "nx x = first ys None"
  using assms by (simp_all add: seg_append)

end
