(* ===== verification/Uthash_Inv.thy ===== *)
theory Uthash_Inv
  imports Uthash Linked_Lists
begin

text \<open>
  The invariant of the hash table of theory Uthash: every element is in the list in insertion order
  and in the list of exactly the bucket that its hash value selects, the counts are right, and the
  stored hash values are those of the keys. Insertion (with bucket expansion) and deletion keep it.
\<close>

section \<open>One bucket\<close>

definition bkt_ok :: "(ptr \<Rightarrow> 'a uth_elem) \<Rightarrow> uth_bucket \<Rightarrow> ptr list \<Rightarrow> bool" where
  "bkt_ok m b ys \<longleftrightarrow> hh_head b = first ys None \<and> bcount b = of_nat (length ys) \<and>
     seg (\<lambda>x. hh_prev (m x)) (\<lambda>x. hh_next (m x)) None ys None"

definition bkt_of :: "(ptr \<Rightarrow> 'a uth_elem) \<Rightarrow> nat \<Rightarrow> ptr \<Rightarrow> nat" where
  "bkt_of m k x = unat (HASH_TO_BKT (hashv (m x)) (2 ^ k))"

lemma bkt_of_less: "bkt_of m k x < 2 ^ k"
  by (simp add: bkt_of_def HASH_TO_BKT_less)

lemma empty_bkt_ok [simp]: "bkt_ok m empty_bucket []"
  by (simp add: bkt_ok_def empty_bucket_def)

lemma bkt_ok_frame:
  "\<forall>x \<in> set ys. hh_prev (m' x) = hh_prev (m x) \<and> hh_next (m' x) = hh_next (m x) \<Longrightarrow>
     bkt_ok m' b ys \<longleftrightarrow> bkt_ok m b ys"
  unfolding bkt_ok_def using seg_cong [of ys "\<lambda>x. hh_prev (m' x)" "\<lambda>x. hh_prev (m x)"] by fastforce

lemma push_mem_simps [simp]:
  "el_prev (push_mem m h p x) = el_prev (m x)" "el_next (push_mem m h p x) = el_next (m x)"
  "hkey (push_mem m h p x) = hkey (m x)" "hashv (push_mem m h p x) = hashv (m x)"
  "payload (push_mem m h p x) = payload (m x)"
  by (simp_all add: push_mem_def Let_def split: option.split)

lemma push_mem_next: "(\<lambda>x. hh_next (push_mem m h p x)) = (\<lambda>x. hh_next (m x))(p := h)"
  by (auto simp: push_mem_def Let_def split: option.split)

lemma push_mem_prev:
  "(\<lambda>x. hh_prev (push_mem m h p x)) =
     (case h of None \<Rightarrow> (\<lambda>x. hh_prev (m x))(p := None)
      | Some q \<Rightarrow> (\<lambda>x. hh_prev (m x))(p := None, q := Some p))"
  by (auto simp: push_mem_def Let_def split: option.split)

lemma push_mem_other: "x \<noteq> p \<Longrightarrow> h \<noteq> Some x \<Longrightarrow> push_mem m h p x = m x"
  by (auto simp: push_mem_def Let_def split: option.split)

lemma bkt_push:
  assumes "bkt_ok m b ys" "p \<notin> set ys" "distinct ys"
    and "hh_head b' = Some p" "bcount b' = bcount b + 1"
  shows "bkt_ok (push_mem m (hh_head b) p) b' (p # ys)"
  unfolding bkt_ok_def
proof (intro conjI)
  have b: "hh_head b = first ys None" using assms(1) by (simp add: bkt_ok_def)
  show "seg (\<lambda>x. hh_prev (push_mem m (hh_head b) p x)) (\<lambda>x. hh_next (push_mem m (hh_head b) p x))
      None (p # ys) None"
    by (rule seg_push) (use assms(1-3) b in \<open>simp_all add: bkt_ok_def push_mem_next push_mem_prev\<close>)
qed (use assms in \<open>simp_all add: bkt_ok_def\<close>)

section \<open>The bucket array\<close>

definition table_ok :: "(ptr \<Rightarrow> 'a uth_elem) \<Rightarrow> uth_bucket list \<Rightarrow> nat \<Rightarrow> ptr set \<Rightarrow> bool" where
  "table_ok m bs k X \<longleftrightarrow> length bs = 2 ^ k \<and>
     (\<forall>i < 2 ^ k. \<exists>ys. bkt_ok m (bs ! i) ys \<and> distinct ys \<and> set ys = {x \<in> X. bkt_of m k x = i})"

lemma table_okD:
  assumes "table_ok m bs k X" "i < 2 ^ k"
  obtains ys where "bkt_ok m (bs ! i) ys" "distinct ys" "set ys = {x \<in> X. bkt_of m k x = i}"
  using assms unfolding table_ok_def by blast

lemma table_ok_frame:
  assumes "table_ok m bs k X"
    and "\<forall>x \<in> X. hh_prev (m' x) = hh_prev (m x) \<and> hh_next (m' x) = hh_next (m x) \<and> hashv (m' x) = hashv (m x)"
  shows "table_ok m' bs k X"
  unfolding table_ok_def
proof (intro conjI allI impI)
  fix i :: nat
  assume i: "i < 2 ^ k"
  obtain ys where ys: "bkt_ok m (bs ! i) ys" "distinct ys" "set ys = {x \<in> X. bkt_of m k x = i}"
    using table_okD [OF assms(1) i] .
  have "bkt_ok m' (bs ! i) ys" using ys(1,3) assms(2) by (subst bkt_ok_frame [of ys m' m]) auto
  moreover have "set ys = {x \<in> X. bkt_of m' k x = i}" using ys(3) assms(2) by (auto simp: bkt_of_def)
  ultimately show "\<exists>ys. bkt_ok m' (bs ! i) ys \<and> distinct ys \<and> set ys = {x \<in> X. bkt_of m' k x = i}"
    using ys(2) by blast
qed (use assms(1) in \<open>simp add: table_ok_def\<close>)

lemma table_empty: "table_ok m (replicate (2 ^ k) empty_bucket) k {}"
  by (simp add: table_ok_def)

lemma table_push:
  assumes "table_ok m bs k X" "p \<notin> X"
    and "hh_head b' = Some p" "bcount b' = bcount (bs ! bkt_of m k p) + 1"
  shows "table_ok (push_mem m (hh_head (bs ! bkt_of m k p)) p) (bs[bkt_of m k p := b']) k (insert p X)"
proof -
  let ?j = "bkt_of m k p" and ?m = "push_mem m (hh_head (bs ! bkt_of m k p)) p"
  have len: "length bs = 2 ^ k" using assms(1) by (simp add: table_ok_def)
  have of_eq: "bkt_of ?m k x = bkt_of m k x" for x by (simp add: bkt_of_def)
  obtain js where js: "bkt_ok m (bs ! ?j) js" "distinct js" "set js = {x \<in> X. bkt_of m k x = ?j}"
    using table_okD [OF assms(1) bkt_of_less] .
  have "\<exists>ys. bkt_ok ?m (bs[?j := b'] ! i) ys \<and> distinct ys \<and> set ys = {x \<in> insert p X. bkt_of ?m k x = i}"
    if i: "i < 2 ^ k" for i
  proof (cases "i = ?j")
    case True
    have "bkt_ok ?m b' (p # js)"
      by (rule bkt_push [OF js(1)]) (use js(2,3) assms in auto)
    moreover have "set (p # js) = {x \<in> insert p X. bkt_of ?m k x = i}"
      using js(3) True by (auto simp: of_eq)
    moreover have "distinct (p # js)" using js(2,3) assms(2) by simp
    ultimately show ?thesis using True len i by (metis nth_list_update_eq)
  next
    case False
    obtain ys where ys: "bkt_ok m (bs ! i) ys" "distinct ys" "set ys = {x \<in> X. bkt_of m k x = i}"
      using table_okD [OF assms(1) i] .
    have "hh_head (bs ! ?j) = first js None" using js(1) by (simp add: bkt_ok_def)
    then have "?m x = m x" if "x \<in> set ys" for x
      using that ys(3) js(3) False assms(2) first_mem [of js x] by (intro push_mem_other) auto
    then have "bkt_ok ?m (bs ! i) ys" using ys(1) by (subst bkt_ok_frame [of ys ?m m]) auto
    moreover have "set ys = {x \<in> insert p X. bkt_of ?m k x = i}"
      using ys(3) False assms(2) by (auto simp: of_eq)
    ultimately show ?thesis using ys(2) False by auto
  qed
  then show ?thesis using len by (simp add: table_ok_def)
qed

section \<open>Expansion\<close>

text \<open>
  While the old buckets are being emptied: \<open>ps\<close> are the elements that have moved, in this order.
  Every new bucket holds the moved ones of its number, the last one first; the others are as they were.
\<close>

definition he_inv :: "(ptr \<Rightarrow> 'a uth_elem) \<Rightarrow> nat \<Rightarrow> ptr list \<Rightarrow> 'a he_state \<Rightarrow> bool" where
  "he_inv m0 k ps st \<longleftrightarrow>
     (case st of (bs, nonideal, m) \<Rightarrow>
       table_ok m bs k (set ps) \<and> (\<forall>x. x \<notin> set ps \<longrightarrow> m x = m0 x) \<and>
       (\<forall>x. el_prev (m x) = el_prev (m0 x) \<and> el_next (m x) = el_next (m0 x) \<and>
            hkey (m x) = hkey (m0 x) \<and> hashv (m x) = hashv (m0 x) \<and> payload (m x) = payload (m0 x)))"

lemma he_move_inv:
  assumes "he_inv m0 k ps st" "p \<notin> set ps" "ideal \<noteq> 0"
  shows "\<exists>st1. he_move ideal (2 ^ k) st p = Inr st1 \<and> he_inv m0 k (ps @ [p]) st1"
proof -
  obtain bs ni m where st: "st = (bs, ni, m)" by (cases st)
  have t: "table_ok m bs k (set ps)" and out: "\<forall>x. x \<notin> set ps \<longrightarrow> m x = m0 x"
    and same: "\<forall>x. el_prev (m x) = el_prev (m0 x) \<and> el_next (m x) = el_next (m0 x) \<and>
      hkey (m x) = hkey (m0 x) \<and> hashv (m x) = hashv (m0 x) \<and> payload (m x) = payload (m0 x)"
    using assms(1) by (auto simp: he_inv_def st)
  define j where "j = bkt_of m k p"
  have len: "length bs = 2 ^ k" using t by (simp add: table_ok_def)
  have j: "j < length bs" by (simp add: len j_def bkt_of_less)
  have ju: "uint (HASH_TO_BKT (hashv (m p)) (2 ^ k)) = int j" by (simp add: j_def bkt_of_def)
  let ?c = "bcount (bs ! j) + 1" and ?m = "push_mem m (hh_head (bs ! j)) p"
  obtain b' ni1 where b': "hh_head b' = Some p" "bcount b' = ?c"
    and mv: "he_move ideal (2 ^ k) st p = Inr (bs[j := b'], ni1, ?m)"
  proof (cases "ideal < ?c")
    case True
    then show ?thesis
      using that [of "(bs ! j)\<lparr>bcount := ?c, expand_mult := ?c div ideal, hh_head := Some p\<rparr>" "ni + 1"]
        j assms(3) by (simp add: he_move_def st ju Let_def)
  next
    case False
    then show ?thesis
      using that [of "(bs ! j)\<lparr>bcount := ?c, hh_head := Some p\<rparr>" ni] j
      by (simp add: he_move_def st ju Let_def)
  qed
  have "table_ok ?m (bs[j := b']) k (set (ps @ [p]))"
    using table_push [OF t assms(2), of b'] b' by (simp add: j_def)
  moreover have "?m x = m0 x" if "x \<notin> set (ps @ [p])" for x
  proof -
    obtain js where "bkt_ok m (bs ! j) js" "set js = {x \<in> set ps. bkt_of m k x = j}"
      using table_okD [OF t, of j] j len by metis
    then have "hh_head (bs ! j) \<noteq> Some x" using that by (auto simp: bkt_ok_def dest: first_mem)
    then show ?thesis using that out by (simp add: push_mem_other)
  qed
  ultimately have "he_inv m0 k (ps @ [p]) (bs[j := b'], ni1, ?m)"
    using same by (simp add: he_inv_def)
  then show ?thesis using mv by blast
qed

lemma he_chain_inv:
  assumes "he_inv m0 k ps st" "seg (\<lambda>x. hh_prev (m0 x)) (\<lambda>x. hh_next (m0 x)) p ys None"
    and "distinct (ps @ ys)" "ideal \<noteq> 0" "length ys \<le> fuel"
  shows "\<exists>st1. he_chain fuel ideal (2 ^ k) st (first ys None) = Inr st1 \<and> he_inv m0 k (ps @ ys) st1"
  using assms
proof (induction ys arbitrary: ps st p fuel)
  case Nil
  then show ?case by simp
next
  case (Cons y ys)
  obtain f where f: "fuel = Suc f" using Cons.prems(5) by (cases fuel) auto
  have y: "y \<notin> set ps" using Cons.prems(3) by simp
  obtain st1 where m: "he_move ideal (2 ^ k) st y = Inr st1" "he_inv m0 k (ps @ [y]) st1"
    using he_move_inv [OF Cons.prems(1) y Cons.prems(4)] by blast
  have "hh_next (snd (snd st) y) = first ys None"
    using Cons.prems(1,2) y by (auto simp: he_inv_def)
  then show ?case
    using Cons.IH [OF m(2), of "Some y" f] Cons.prems m(1) f by (simp add: Let_def)
qed

lemma he_buckets_inv:
  assumes "he_inv m0 k ps st" "list_all2 (bkt_ok m0) bs css" "distinct (ps @ concat css)"
    and "ideal \<noteq> 0" "\<forall>ys \<in> set css. length ys \<le> fuel"
  shows "\<exists>st1. he_buckets fuel ideal (2 ^ k) st bs = Inr st1 \<and> he_inv m0 k (ps @ concat css) st1"
  using assms(2,1,3-)
proof (induction arbitrary: ps st rule: list_all2_induct)
  case Nil
  then show ?case by simp
next
  case (Cons b bs ys css)
  have b: "hh_head b = first ys None" "seg (\<lambda>x. hh_prev (m0 x)) (\<lambda>x. hh_next (m0 x)) None ys None"
    using Cons.hyps(1) by (auto simp: bkt_ok_def)
  have "distinct (ps @ ys)" "length ys \<le> fuel" using Cons.prems by auto
  then obtain st1 where "he_chain fuel ideal (2 ^ k) st (hh_head b) = Inr st1" "he_inv m0 k (ps @ ys) st1"
    using he_chain_inv [OF Cons.prems(1) b(2) _ Cons.prems(3)] b(1) by metis
  then show ?case using Cons.IH [of "ps @ ys" st1] Cons.prems by simp
qed

text \<open>The bucket lists of a table are disjoint and together are its elements.\<close>

lemma table_chains:
  assumes "table_ok m bs k X"
  obtains css where "list_all2 (bkt_ok m) bs css" "distinct (concat css)" "set (concat css) = X"
    "\<forall>ys \<in> set css. distinct ys \<and> set ys \<subseteq> X"
proof -
  obtain f where f: "\<forall>i < 2 ^ k. bkt_ok m (bs ! i) (f i) \<and> distinct (f i) \<and> set (f i) = {x \<in> X. bkt_of m k x = i}"
    using assms unfolding table_ok_def by metis
  have len: "length bs = 2 ^ k" using assms by (simp add: table_ok_def)
  have "list_all2 (bkt_ok m) bs (map f [0 ..< 2 ^ k])"
    using f len by (simp add: list_all2_conv_all_nth)
  moreover have "distinct (concat (map f [0 ..< n]))" if "n \<le> 2 ^ k" for n
    using that
  proof (induction n)
    case (Suc n)
    have "set (f n) \<inter> set (f i) = {}" if "i < n" for i
      using f Suc.prems that by auto
    then show ?case using Suc f by auto
  qed simp
  moreover have "set (concat (map f [0 ..< 2 ^ k])) = X" using f bkt_of_less by auto
  ultimately show ?thesis using that [of "map f [0 ..< 2 ^ k]"] f by auto
qed

lemma distinct_below_length: "distinct ys \<Longrightarrow> \<forall>x \<in> set ys. x < n \<Longrightarrow> length ys \<le> n"
  using card_mono [of "{..< n}" "set ys"] by (simp add: distinct_card subset_iff)

lemma unat_pow2: "k < 32 \<Longrightarrow> unat (2 ^ k :: u32) = 2 ^ k"
proof -
  assume k: "k < 32"
  have "unat (of_nat (2 ^ k) :: u32) = 2 ^ k"
    using power_strict_increasing [OF k, of "2 :: nat"] by (simp only: unat_of_nat mod_less) simp
  then show ?thesis by simp
qed

text \<open>The ideal chain length is at least 1 when there is an element, so the division by it is defined.\<close>

lemma ideal_nonzero:
  fixes n :: u32
  assumes "n \<noteq> 0"
  shows "drop_bit (Suc k) n + (if n AND (2 ^ Suc k - 1) \<noteq> 0 then 1 else 0) \<noteq> 0"
proof -
  have t: "n AND (2 ^ Suc k - 1) = take_bit (Suc k) n"
    by (simp only: take_bit_eq_mask mask_eq_exp_minus_1)
  show ?thesis
  proof (cases "take_bit (Suc k) n = 0")
    case True
    then have "drop_bit (Suc k) n \<noteq> 0" using bits_ident [of "Suc k" n] assms by auto
    then show ?thesis by (simp only: t True) simp
  next
    case False
    have "unat (drop_bit (Suc k) n) = unat n div 2 ^ Suc k"
      unfolding unat_drop_bit_eq by (simp only: drop_bit_eq_div)
    also have "\<dots> < 2 ^ 31"
    proof -
      have "unat n div 2 ^ Suc k \<le> unat n div 2 ^ 1"
        by (rule div_le_mono2) (simp_all add: power_increasing)
      then show ?thesis using unsigned_less [of n, where ?'a = nat] by simp
    qed
    finally have "unat (drop_bit (Suc k) n + 1) = unat (drop_bit (Suc k) n) + 1"
      by (simp add: unat_word_ariths)
    then have "drop_bit (Suc k) n + 1 \<noteq> 0" by (metis add_is_0 one_neq_zero unat_0)
    then show ?thesis by (simp only: t False) simp
  qed
qed

definition same_list :: "'a uth \<Rightarrow> 'a uth \<Rightarrow> bool" where
  "same_list s s' \<longleftrightarrow> head s' = head s \<and> brk s' = brk s \<and> tail (tbl s') = tail (tbl s) \<and>
     num_items (tbl s') = num_items (tbl s) \<and>
     (\<forall>x. el_prev (mem s' x) = el_prev (mem s x) \<and> el_next (mem s' x) = el_next (mem s x) \<and>
          hkey (mem s' x) = hkey (mem s x) \<and> hashv (mem s' x) = hashv (mem s x) \<and>
          payload (mem s' x) = payload (mem s x))"

definition buckets_ok :: "'a uth \<Rightarrow> ptr set \<Rightarrow> bool" where
  "buckets_ok s X \<longleftrightarrow> num_buckets (tbl s) = 2 ^ log2_num_buckets (tbl s) \<and>
     log2_num_buckets (tbl s) \<le> 31 \<and> table_ok (mem s) (buckets (tbl s)) (log2_num_buckets (tbl s)) X"

lemma HASH_EXPAND_ok:
  assumes "buckets_ok s X" "log2_num_buckets (tbl s) < 31" "num_items (tbl s) \<noteq> 0" "\<forall>x \<in> X. x < brk s"
  shows "\<exists>s1. HASH_EXPAND_BUCKETS s = Inr s1 \<and> same_list s s1 \<and> buckets_ok s1 X \<and>
    log2_num_buckets (tbl s1) = Suc (log2_num_buckets (tbl s))"
proof -
  define k where "k = log2_num_buckets (tbl s)"
  have k: "k < 31" and n: "num_buckets (tbl s) = 2 ^ k"
    and t: "table_ok (mem s) (buckets (tbl s)) k X"
    using assms(1,2) by (auto simp: buckets_ok_def k_def)
  have len: "length (buckets (tbl s)) = 2 ^ k" using t by (simp add: table_ok_def)
  have un: "unat (num_buckets (tbl s)) = 2 ^ k" using k by (simp add: n unat_pow2)
  have n2: "num_buckets (tbl s) * 2 = 2 ^ Suc k" by (simp add: n)
  obtain css where css: "list_all2 (bkt_ok (mem s)) (buckets (tbl s)) css" "distinct (concat css)"
      "set (concat css) = X" "\<forall>ys \<in> set css. distinct ys \<and> set ys \<subseteq> X"
    using table_chains [OF t] .
  have fuel: "\<forall>ys \<in> set css. length ys \<le> brk s"
    using css(4) assms(4) by (meson distinct_below_length subsetD)
  let ?ideal = "drop_bit (Suc k) (num_items (tbl s))
      + (if num_items (tbl s) AND (2 ^ Suc k - 1) \<noteq> 0 then 1 else 0)"
  have start: "he_inv (mem s) (Suc k) [] (replicate (2 ^ Suc k) empty_bucket, 0, mem s)"
    using table_empty [of "mem s" "Suc k"] by (simp add: he_inv_def)
  obtain bs ni m where r: "he_buckets (brk s) ?ideal (2 ^ Suc k)
        (replicate (2 ^ Suc k) empty_bucket, 0, mem s) (buckets (tbl s)) = Inr (bs, ni, m)"
      and inv: "he_inv (mem s) (Suc k) (concat css) (bs, ni, m)"
    using he_buckets_inv [OF start css(1) _ ideal_nonzero fuel] css(2) assms(3) by fastforce
  let ?in = "if drop_bit 1 (num_items (tbl s)) < ni then ineff_expands (tbl s) + 1 else 0"
  let ?s1 = "s\<lparr>mem := m, tbl := (tbl s)\<lparr>ideal_chain_maxlen := ?ideal, nonideal_items := ni,
      num_buckets := 2 ^ Suc k, log2_num_buckets := Suc k, buckets := bs, ineff_expands := ?in,
      noexpand := (if 1 < ?in then 1 else noexpand (tbl s))\<rparr>\<rparr>"
  have "HASH_EXPAND_BUCKETS s = Inr ?s1"
    using k r unfolding HASH_EXPAND_BUCKETS_def Let_def n2 un len k_def [symmetric]
    by (simp add: len mult.commute del: power_Suc flip: power_Suc)
  moreover have "same_list s ?s1" using inv by (simp add: same_list_def he_inv_def)
  moreover have "buckets_ok ?s1 X" using inv k css(3) by (simp add: buckets_ok_def he_inv_def)
  ultimately show ?thesis using k_def by auto
qed

section \<open>Insertion\<close>

text \<open>A table that has never been expanded; with fewer than 10 elements it stays so.\<close>

definition small :: "'a uth \<Rightarrow> bool" where
  "small s \<longleftrightarrow> head s \<noteq> None \<longrightarrow>
     log2_num_buckets (tbl s) = 5 \<and> (\<forall>b \<in> set (buckets (tbl s)). expand_mult b = 0)"

definition pushed :: "'a uth \<Rightarrow> nat \<Rightarrow> ptr \<Rightarrow> 'a uth" where
  "pushed s i p =
     (let b = buckets (tbl s) ! i in
      s\<lparr>mem := push_mem (mem s) (hh_head b) p,
        tbl := (tbl s)\<lparr>buckets := (buckets (tbl s))[i := b\<lparr>bcount := bcount b + 1, hh_head := Some p\<rparr>]\<rparr>\<rparr>)"

lemma pushed_ok:
  assumes "buckets_ok s X" "p \<notin> X" "i = bkt_of (mem s) (log2_num_buckets (tbl s)) p"
  shows "buckets_ok (pushed s i p) (insert p X)" "same_list s (pushed s i p)"
proof -
  show "buckets_ok (pushed s i p) (insert p X)"
    using assms table_push [of "mem s" "buckets (tbl s)" "log2_num_buckets (tbl s)" X p]
    by (simp add: buckets_ok_def pushed_def Let_def)
  show "same_list s (pushed s i p)" by (simp add: pushed_def same_list_def Let_def)
qed

lemma same_list_trans: "same_list s s1 \<Longrightarrow> same_list s1 s2 \<Longrightarrow> same_list s s2"
  by (simp add: same_list_def)

lemma add_to_bkt_pushed:
  assumes "buckets_ok s X" "j = HASH_TO_BKT (hashv (mem s p)) (num_buckets (tbl s))"
    and "i = bkt_of (mem s) (log2_num_buckets (tbl s)) p"
  shows "HASH_ADD_TO_BKT s j p =
    (if (expand_mult (buckets (tbl s) ! i) + 1) * 10 \<le> bcount (buckets (tbl s) ! i) + 1
        \<and> noexpand (tbl s) \<noteq> 1 then HASH_EXPAND_BUCKETS (pushed s i p) else Inr (pushed s i p))"
proof -
  have j: "unat j = i" using assms by (simp add: buckets_ok_def bkt_of_def)
  have "i < length (buckets (tbl s))"
    using assms(1,3) bkt_of_less by (simp add: buckets_ok_def table_ok_def)
  moreover have "uint j = int i" using j by auto
  ultimately show ?thesis
    by (simp add: HASH_ADD_TO_BKT_def j pushed_def Let_def)
qed

lemma HASH_ADD_TO_BKT_ok:
  assumes "buckets_ok s X" "p \<notin> X" "j = HASH_TO_BKT (hashv (mem s p)) (num_buckets (tbl s))"
    and "\<forall>x \<in> insert p X. x < brk s" "num_items (tbl s) \<noteq> 0" "log2_num_buckets (tbl s) < 31"
  shows "\<exists>s1. HASH_ADD_TO_BKT s j p = Inr s1 \<and> same_list s s1 \<and> buckets_ok s1 (insert p X)"
proof -
  define i where "i = bkt_of (mem s) (log2_num_buckets (tbl s)) p"
  note ps = pushed_ok [OF assms(1,2) i_def]
  have "log2_num_buckets (tbl (pushed s i p)) = log2_num_buckets (tbl s)"
    "num_items (tbl (pushed s i p)) = num_items (tbl s)" "brk (pushed s i p) = brk s"
    by (simp_all add: pushed_def Let_def)
  then obtain s1 where "HASH_EXPAND_BUCKETS (pushed s i p) = Inr s1" "same_list (pushed s i p) s1"
      "buckets_ok s1 (insert p X)"
    using HASH_EXPAND_ok [OF ps(1)] assms(4-6) by auto
  then show ?thesis
    using add_to_bkt_pushed [OF assms(1,3) i_def] ps same_list_trans by auto
qed

text \<open>A table with few elements is not expanded.\<close>

lemma add_small_pushed:
  assumes "buckets_ok s X" "j = HASH_TO_BKT (hashv (mem s p)) (num_buckets (tbl s))"
    and "\<forall>b \<in> set (buckets (tbl s)). expand_mult b = 0" "finite X" "card X < 9"
  defines "i \<equiv> bkt_of (mem s) (log2_num_buckets (tbl s)) p"
  shows "HASH_ADD_TO_BKT s j p = Inr (pushed s i p)"
    "log2_num_buckets (tbl (pushed s i p)) = log2_num_buckets (tbl s)"
    "\<forall>b \<in> set (buckets (tbl (pushed s i p))). expand_mult b = 0"
proof -
  let ?b = "buckets (tbl s) ! i"
  have i: "i < 2 ^ log2_num_buckets (tbl s)" by (simp add: i_def bkt_of_less)
  obtain ys where ys: "bkt_ok (mem s) ?b ys" "distinct ys" "set ys \<subseteq> X"
    using assms(1) i by (auto simp: buckets_ok_def elim!: table_okD)
  have "length ys < 9" using card_mono [OF assms(4) ys(3)] assms(5) ys(2) by (simp add: distinct_card)
  then have "unat (of_nat (length ys) + 1 :: u32) < 10"
    by (simp add: unat_word_ariths unat_of_nat)
  moreover have il: "i < length (buckets (tbl s))"
    using assms(1) i by (simp add: buckets_ok_def table_ok_def)
  then have m: "expand_mult ?b = 0" using assms(3) nth_mem by blast
  ultimately show "HASH_ADD_TO_BKT s j p = Inr (pushed s i p)"
    using ys(1) i_def by (simp add: add_to_bkt_pushed [OF assms(1,2) refl] bkt_ok_def word_le_nat_alt)
  show "log2_num_buckets (tbl (pushed s i p)) = log2_num_buckets (tbl s)"
    by (simp add: pushed_def Let_def)
  show "\<forall>b \<in> set (buckets (tbl (pushed s i p))). expand_mult b = 0"
    using assms(3) m il by (auto simp: pushed_def Let_def dest!: subsetD [OF set_update_subset_insert])
qed

lemma HASH_ADD_TO_BKT_small:
  assumes "buckets_ok s X" "p \<notin> X" "j = HASH_TO_BKT (hashv (mem s p)) (num_buckets (tbl s))"
    and "\<forall>b \<in> set (buckets (tbl s)). expand_mult b = 0" "finite X" "card X < 9"
    and "HASH_ADD_TO_BKT s j p = Inr s1"
  shows "log2_num_buckets (tbl s1) = log2_num_buckets (tbl s)"
    "\<forall>b \<in> set (buckets (tbl s1)). expand_mult b = 0"
  using add_small_pushed [OF assms(1,3-6)] assms(7) by auto

section \<open>The invariant\<close>

definition list_ok :: "'a uth \<Rightarrow> ptr list \<Rightarrow> bool" where
  "list_ok s xs \<longleftrightarrow> tail (tbl s) = Some (last xs) \<and> num_items (tbl s) = of_nat (length xs) \<and>
     seg (\<lambda>x. el_prev (mem s x)) (\<lambda>x. el_next (mem s x)) None xs None \<and>
     (\<forall>x \<in> set xs. hashv (mem s x) = jen_hashv (hkey (mem s x)))"

definition uth_inv :: "'a uth \<Rightarrow> ptr list \<Rightarrow> bool" where
  "uth_inv s xs \<longleftrightarrow> distinct xs \<and> (\<forall>x \<in> set xs. x < brk s) \<and> head s = first xs None \<and>
     (xs \<noteq> [] \<longrightarrow> list_ok s xs \<and> buckets_ok s (set xs))"

lemma list_ok_same: "list_ok s xs \<Longrightarrow> same_list s s1 \<Longrightarrow> list_ok s1 xs"
  by (simp add: list_ok_def same_list_def)

text \<open>An element after the links of the list in insertion order and before those of its bucket.\<close>

definition linked :: "'a uth \<Rightarrow> byte list \<Rightarrow> ptr \<Rightarrow> 'a uth" where
  "linked s key p =
     (let m = mem s in
      case head s of
        None \<Rightarrow> s\<lparr>head := Some p, tbl := (HASH_MAKE_TABLE p)\<lparr>num_items := 1\<rparr>,
          mem := m(p := (m p)\<lparr>el_next := None, hkey := key, el_prev := None, hashv := jen_hashv key\<rparr>)\<rparr>
      | Some _ \<Rightarrow> let t = the (tail (tbl s)) in
          s\<lparr>tbl := (tbl s)\<lparr>tail := Some p, num_items := num_items (tbl s) + 1\<rparr>,
            mem := m(t := (m t)\<lparr>el_next := Some p\<rparr>,
              p := (m p)\<lparr>el_next := None, hkey := key, el_prev := Some t, hashv := jen_hashv key\<rparr>)\<rparr>)"

lemma HASH_ADD_linked:
  assumes "uth_inv s xs" "p \<notin> set xs"
  shows "HASH_ADD_KEYPTR s key p =
    HASH_ADD_TO_BKT (linked s key p) (HASH_TO_BKT (jen_hashv key) (num_buckets (tbl (linked s key p)))) p"
proof (cases xs rule: rev_cases)
  case Nil
  then have "head s = None" using assms(1) by (simp add: uth_inv_def)
  then show ?thesis
    by (simp add: HASH_ADD_KEYPTR_def linked_def HASH_MAKE_TABLE_def HASH_JEN_def Let_def)
next
  case (snoc ys t)
  have "head s \<noteq> None" using assms(1) snoc by (cases ys) (auto simp: uth_inv_def)
  moreover have "tail (tbl s) = Some t" "t \<noteq> p"
    using assms snoc by (auto simp: uth_inv_def list_ok_def)
  ultimately show ?thesis
    by (auto simp: HASH_ADD_KEYPTR_def linked_def HASH_JEN_def Let_def fun_upd_twist)
qed

lemma linked_fields:
  assumes "uth_inv s xs" "p \<notin> set xs"
  shows "payload (mem (linked s key p) x) = payload (mem s x)"
    "hkey (mem (linked s key p) x) = (if x = p then key else hkey (mem s x))"
    "hashv (mem (linked s key p) x) = (if x = p then jen_hashv key else hashv (mem s x))"
    "brk (linked s key p) = brk s" "head (linked s key p) = first (xs @ [p]) None"
    "hh_prev (mem (linked s key p) x) = hh_prev (mem s x)"
    "hh_next (mem (linked s key p) x) = hh_next (mem s x)"
  using assms by (cases xs; auto simp: linked_def uth_inv_def Let_def list_ok_def)+

lemma linked_list_ok:
  assumes "uth_inv s xs" "p \<notin> set xs"
  shows "list_ok (linked s key p) (xs @ [p])"
proof (cases "xs = []")
  case True
  then have "head s = None" using assms(1) by (simp add: uth_inv_def)
  then show ?thesis using True by (simp add: list_ok_def linked_def Let_def HASH_MAKE_TABLE_def)
next
  case False
  then have l: "list_ok s xs" and h: "head s \<noteq> None" and t: "tail (tbl s) = Some (last xs)"
    and ne: "last xs \<noteq> p"
    using assms last_in_set [OF False] by (auto simp: uth_inv_def list_ok_def)
  have pv: "(\<lambda>x. el_prev (mem (linked s key p) x)) = (\<lambda>x. el_prev (mem s x))(p := Some (last xs))"
    and nx: "(\<lambda>x. el_next (mem (linked s key p) x)) = (\<lambda>x. el_next (mem s x))(p := None, last xs := Some p)"
    using h t ne by (auto simp: linked_def Let_def)
  have "seg (\<lambda>x. el_prev (mem (linked s key p) x)) (\<lambda>x. el_next (mem (linked s key p) x)) None (xs @ [p]) None"
    unfolding pv nx by (rule seg_snoc) (use l assms False in \<open>simp_all add: list_ok_def uth_inv_def\<close>)
  moreover have "tail (tbl (linked s key p)) = Some p"
    "num_items (tbl (linked s key p)) = of_nat (length (xs @ [p]))"
    using h l by (auto simp: linked_def Let_def list_ok_def)
  ultimately show ?thesis
    using l by (simp add: list_ok_def linked_fields [OF assms])
qed

lemma linked_buckets_ok:
  assumes "uth_inv s xs" "p \<notin> set xs"
  shows "buckets_ok (linked s key p) (set xs)"
    and "xs \<noteq> [] \<Longrightarrow> log2_num_buckets (tbl (linked s key p)) = log2_num_buckets (tbl s)"
    and "xs = [] \<Longrightarrow> log2_num_buckets (tbl (linked s key p)) = 5"
    and "small s \<Longrightarrow> log2_num_buckets (tbl (linked s key p)) = 5 \<and>
      (\<forall>b \<in> set (buckets (tbl (linked s key p))). expand_mult b = 0)"
proof -
  have h: "head s = None \<longleftrightarrow> xs = []" using assms(1) by (simp add: uth_inv_def)
  have e: "buckets_ok (linked s key p) (set xs)" if "xs = []"
    using table_empty [of "mem (linked s key p)" 5] that h
    by (simp add: buckets_ok_def linked_def Let_def HASH_MAKE_TABLE_def)
  have "buckets_ok (linked s key p) (set xs)" if ne: "xs \<noteq> []"
  proof -
    have b: "buckets_ok s (set xs)" using assms(1) ne by (simp add: uth_inv_def)
    have "table_ok (mem (linked s key p)) (buckets (tbl s)) (log2_num_buckets (tbl s)) (set xs)"
    proof (rule table_ok_frame)
      show "table_ok (mem s) (buckets (tbl s)) (log2_num_buckets (tbl s)) (set xs)"
        using b by (simp add: buckets_ok_def)
    qed (use assms(2) in \<open>auto simp: linked_fields [OF assms]\<close>)
    moreover have "tbl (linked s key p) = (tbl s)\<lparr>tail := Some p, num_items := num_items (tbl s) + 1\<rparr>"
      using ne h by (auto simp: linked_def Let_def)
    ultimately show ?thesis using b by (simp add: buckets_ok_def)
  qed
  then show "buckets_ok (linked s key p) (set xs)" using e by blast
qed (use assms in \<open>auto simp: linked_def Let_def small_def uth_inv_def HASH_MAKE_TABLE_def
    empty_bucket_def split: option.split\<close>)

text \<open>Insertion of an element that is not in the table.\<close>

theorem HASH_ADD_ok:
  assumes "uth_inv s xs" "p \<notin> set xs" "p < brk s"
    and "xs = [] \<or> log2_num_buckets (tbl s) < 31" "length xs < 2 ^ 32 - 1"
  shows "\<exists>s1. HASH_ADD_KEYPTR s key p = Inr s1 \<and> uth_inv s1 (xs @ [p]) \<and> brk s1 = brk s \<and>
    (\<forall>x. payload (mem s1 x) = payload (mem s x)) \<and>
    (\<forall>x. hkey (mem s1 x) = (if x = p then key else hkey (mem s x)))"
proof -
  let ?l = "linked s key p"
  note lf = linked_fields [OF assms(1,2), of key]
  have l: "list_ok ?l (xs @ [p])" by (rule linked_list_ok [OF assms(1,2)])
  have n: "num_items (tbl ?l) \<noteq> 0"
  proof
    assume "num_items (tbl ?l) = 0"
    then have "unat (of_nat (Suc (length xs)) :: u32) = 0" using l by (simp add: list_ok_def)
    then show False using assms(5) by (simp only: unat_of_nat) simp
  qed
  have lg: "log2_num_buckets (tbl ?l) < 31"
    using linked_buckets_ok(2,3) [OF assms(1,2), of key] assms(4) by (cases "xs = []") auto
  have b: "\<forall>x \<in> insert p (set xs). x < brk ?l" using assms(1,3) lf by (simp add: uth_inv_def)
  obtain s1 where s1: "HASH_ADD_KEYPTR s key p = Inr s1" "same_list ?l s1"
      "buckets_ok s1 (insert p (set xs))"
    using HASH_ADD_TO_BKT_ok [OF linked_buckets_ok(1) [OF assms(1,2)] assms(2) _ b n lg, OF refl] lf
    by (auto simp: HASH_ADD_linked [OF assms(1,2)])
  have "uth_inv s1 (xs @ [p])"
    using s1(2,3) list_ok_same [OF l s1(2)] assms lf
    by (auto simp: uth_inv_def same_list_def)
  then show ?thesis using s1 lf by (auto simp: same_list_def)
qed

lemma HASH_ADD_small:
  assumes "uth_inv s xs" "p \<notin> set xs" "small s" "length xs < 9" "HASH_ADD_KEYPTR s key p = Inr s1"
  shows "small s1"
proof -
  let ?l = "linked s key p"
  note lf = linked_fields [OF assms(1,2), of key]
  have c: "card (set xs) < 9" using assms(4) card_length [of xs] by simp
  note lb = linked_buckets_ok [OF assms(1,2), of key]
  have z: "\<forall>b \<in> set (buckets (tbl ?l)). expand_mult b = 0" using lb(4) assms(3) by blast
  have e: "HASH_TO_BKT (jen_hashv key) (num_buckets (tbl ?l))
      = HASH_TO_BKT (hashv (mem ?l p)) (num_buckets (tbl ?l))" using lf(3) [of p] by simp
  note sm = HASH_ADD_TO_BKT_small [OF lb(1) assms(2) e z _ c
      assms(5) [unfolded HASH_ADD_linked [OF assms(1,2)]], OF finite_set]
  have "log2_num_buckets (tbl ?l) = 5" using lb(4) assms(3) by blast
  then show ?thesis using sm unfolding small_def by metis
qed

end
