(* ===== verification/Uthash_Ops.thy ===== *)
theory Uthash_Ops
  imports Uthash_Inv
begin

text \<open>
  Deletion, lookup, the integrity check and the deletion of a whole table, over the invariant of
  theory Uthash_Inv; and the interface that the program's two hash tables are used through, the
  locale \<open>keyed_store\<close>, with its interpretation on the operations of uthash.h.
\<close>

section \<open>Deletion from a bucket\<close>

lemma unlink_mem_simps [simp]:
  "el_prev (unlink_mem m p x) = el_prev (m x)" "el_next (unlink_mem m p x) = el_next (m x)"
  "hkey (unlink_mem m p x) = hkey (m x)" "hashv (unlink_mem m p x) = hashv (m x)"
  "payload (unlink_mem m p x) = payload (m x)"
  by (simp_all add: unlink_mem_def Let_def split: option.split)

lemma unlink_mem_links:
  assumes "hh_prev (m p) \<noteq> Some p"
  shows "(\<lambda>x. hh_next (unlink_mem m p x)) =
      (case hh_prev (m p) of None \<Rightarrow> (\<lambda>x. hh_next (m x)) | Some q \<Rightarrow> (\<lambda>x. hh_next (m x))(q := hh_next (m p)))"
    and "(\<lambda>x. hh_prev (unlink_mem m p x)) =
      (case hh_next (m p) of None \<Rightarrow> (\<lambda>x. hh_prev (m x)) | Some q \<Rightarrow> (\<lambda>x. hh_prev (m x))(q := hh_prev (m p)))"
  using assms by (auto simp: unlink_mem_def Let_def split: option.split)

lemma unlink_mem_other:
  "hh_prev (m p) \<noteq> Some p \<Longrightarrow> hh_prev (m p) \<noteq> Some x \<Longrightarrow> hh_next (m p) \<noteq> Some x \<Longrightarrow>
     unlink_mem m p x = m x"
  by (auto simp: unlink_mem_def Let_def split: option.split)

lemma bkt_unlink:
  assumes "bkt_ok m b (ys @ p # zs)" "distinct (ys @ p # zs)"
    and "hh_head b' = (if hh_head b = Some p then hh_next (m p) else hh_head b)"
    and "bcount b' = bcount b - 1"
  shows "bkt_ok (unlink_mem m p) b' (ys @ zs)"
    and "hh_prev (m p) = final ys None" "hh_next (m p) = first zs None"
proof -
  have s: "seg (\<lambda>x. hh_prev (m x)) (\<lambda>x. hh_next (m x)) None (ys @ p # zs) None"
    using assms(1) by (simp add: bkt_ok_def)
  show e: "hh_prev (m p) = final ys None" "hh_next (m p) = first zs None"
    using seg_ends [OF s] by auto
  have np: "hh_prev (m p) \<noteq> Some p" using e(1) assms(2) by (auto dest: final_mem)
  have "seg (\<lambda>x. hh_prev (unlink_mem m p x)) (\<lambda>x. hh_next (unlink_mem m p x)) None (ys @ zs) None"
    by (rule seg_unlink [OF s assms(2)]) (simp_all add: unlink_mem_links [where m = m and p = p, OF np])
  moreover have "hh_head b' = first (ys @ zs) None"
    using assms(1-3) e(2) by (cases ys) (auto simp: bkt_ok_def)
  moreover have "bcount b' = of_nat (length (ys @ zs))"
    using assms(1,4) by (simp add: bkt_ok_def)
  ultimately show "bkt_ok (unlink_mem m p) b' (ys @ zs)" by (simp add: bkt_ok_def)
qed

lemma table_unlink:
  assumes "table_ok m bs k X" "p \<in> X" "j = bkt_of m k p"
    and "hh_head b' = (if hh_head (bs ! j) = Some p then hh_next (m p) else hh_head (bs ! j))"
    and "bcount b' = bcount (bs ! j) - 1"
  shows "table_ok (unlink_mem m p) (bs[j := b']) k (X - {p})"
proof -
  let ?m = "unlink_mem m p"
  have len: "length bs = 2 ^ k" using assms(1) by (simp add: table_ok_def)
  have j: "j < 2 ^ k" by (simp add: assms(3) bkt_of_less)
  have of_eq: "bkt_of ?m k x = bkt_of m k x" for x by (simp add: bkt_of_def)
  obtain js where js: "bkt_ok m (bs ! j) js" "distinct js" "set js = {x \<in> X. bkt_of m k x = j}"
    using table_okD [OF assms(1) j] .
  have "p \<in> set js" using js(3) assms(2,3) by simp
  then obtain ys zs where sp: "js = ys @ p # zs" by (meson split_list)
  note un = bkt_unlink [OF js(1) [unfolded sp] js(2) [unfolded sp] assms(4,5)]
  have "\<exists>ws. bkt_ok ?m (bs[j := b'] ! i) ws \<and> distinct ws \<and> set ws = {x \<in> X - {p}. bkt_of ?m k x = i}"
    if i: "i < 2 ^ k" for i
  proof (cases "i = j")
    case True
    have "set (ys @ zs) = {x \<in> X - {p}. bkt_of ?m k x = i}"
      using js(2,3) sp True by (auto simp: of_eq)
    then show ?thesis using un(1) js(2) sp True len i
      by (intro exI [of _ "ys @ zs"]) auto
  next
    case False
    obtain ws where ws: "bkt_ok m (bs ! i) ws" "distinct ws" "set ws = {x \<in> X. bkt_of m k x = i}"
      using table_okD [OF assms(1) i] .
    have "?m x = m x" if "x \<in> set ws" for x
    proof (rule unlink_mem_other)
      have "x \<notin> set js" using that ws(3) js(3) False by auto
      then show "hh_prev (m p) \<noteq> Some x" "hh_next (m p) \<noteq> Some x"
        using un(2,3) sp by (auto dest: final_mem first_mem)
      show "hh_prev (m p) \<noteq> Some p" using un(2) js(2) sp by (auto dest: final_mem)
    qed
    then have "bkt_ok ?m (bs ! i) ws" using ws(1) by (subst bkt_ok_frame [of ws ?m m]) auto
    moreover have "set ws = {x \<in> X - {p}. bkt_of ?m k x = i}"
      using ws(3) False assms(3) by (auto simp: of_eq)
    ultimately show ?thesis using ws(2) False by auto
  qed
  then show ?thesis using len by (simp add: table_ok_def)
qed

section \<open>Deletion\<close>

lemma unlist_simps [simp]:
  "hh_prev (mem (unlist s p) x) = hh_prev (mem s x)" "hh_next (mem (unlist s p) x) = hh_next (mem s x)"
  "hkey (mem (unlist s p) x) = hkey (mem s x)" "hashv (mem (unlist s p) x) = hashv (mem s x)"
  "payload (mem (unlist s p) x) = payload (mem s x)" "brk (unlist s p) = brk s"
  "num_buckets (tbl (unlist s p)) = num_buckets (tbl s)" "buckets (tbl (unlist s p)) = buckets (tbl s)"
  "log2_num_buckets (tbl (unlist s p)) = log2_num_buckets (tbl s)"
  "num_items (tbl (unlist s p)) = num_items (tbl s)"
  by (simp_all add: unlist_def Let_def split: option.split)

lemma unlist_links:
  assumes "el_prev (mem s p) \<noteq> Some p"
  shows "(\<lambda>x. el_next (mem (unlist s p) x)) =
      (case el_prev (mem s p) of None \<Rightarrow> (\<lambda>x. el_next (mem s x))
       | Some q \<Rightarrow> (\<lambda>x. el_next (mem s x))(q := el_next (mem s p)))"
    and "(\<lambda>x. el_prev (mem (unlist s p) x)) =
      (case el_next (mem s p) of None \<Rightarrow> (\<lambda>x. el_prev (mem s x))
       | Some q \<Rightarrow> (\<lambda>x. el_prev (mem s x))(q := el_prev (mem s p)))"
  using assms by (auto simp: unlist_def Let_def split: option.split)

lemma HASH_DELETE_unlist:
  assumes "uth_inv s xs" "p \<in> set xs" "xs \<noteq> [p]"
  obtains b where "HASH_DELETE s p = Inr (unlist s p
      \<lparr>mem := unlink_mem (mem (unlist s p)) p,
       tbl := (tbl (unlist s p))\<lparr>num_items := num_items (tbl s) - 1,
         buckets := (buckets (tbl s))[bkt_of (mem s) (log2_num_buckets (tbl s)) p := b]\<rparr>\<rparr>)"
    "hh_head b = (if hh_head (buckets (tbl s) ! bkt_of (mem s) (log2_num_buckets (tbl s)) p) = Some p
       then hh_next (mem s p) else hh_head (buckets (tbl s) ! bkt_of (mem s) (log2_num_buckets (tbl s)) p))"
    "bcount b = bcount (buckets (tbl s) ! bkt_of (mem s) (log2_num_buckets (tbl s)) p) - 1"
    "expand_mult b = expand_mult (buckets (tbl s) ! bkt_of (mem s) (log2_num_buckets (tbl s)) p)"
proof -
  let ?j = "bkt_of (mem s) (log2_num_buckets (tbl s)) p"
  let ?i = "HASH_TO_BKT (hashv (mem s p)) (num_buckets (tbl s))"
  have ne: "xs \<noteq> []" using assms(2) by auto
  then have l: "list_ok s xs" and b: "buckets_ok s (set xs)" using assms(1) by (auto simp: uth_inv_def)
  obtain ys zs where xs: "xs = ys @ p # zs" using assms(2) by (meson split_list)
  have seg: "seg (\<lambda>x. el_prev (mem s x)) (\<lambda>x. el_next (mem s x)) None (ys @ p # zs) None"
    using l xs by (simp add: list_ok_def)
  have two: "\<not> (el_prev (mem s p) = None \<and> el_next (mem s p) = None)"
    using seg_ends [OF seg] assms(3) xs by auto
  have j: "unat ?i = ?j" using b by (simp add: buckets_ok_def bkt_of_def)
  have jl: "?j < length (buckets (tbl s))"
    using b bkt_of_less by (simp add: buckets_ok_def table_ok_def)
  have "uint ?i = int ?j" unfolding j [symmetric] by (rule uint_nat)
  then have g: "arr_get (buckets (tbl s)) (uint ?i) = Inr (buckets (tbl s) ! ?j)" using jl by simp
  have d: "HASH_DELETE s p = bind_r (HASH_DEL_IN_BKT (unlist s p) ?i p)
      (\<lambda>s1. Inr (s1\<lparr>tbl := (tbl s1)\<lparr>num_items := num_items (tbl s1) - 1\<rparr>\<rparr>))"
    using two by (auto simp: HASH_DELETE_def Let_def)
  show ?thesis
    by (rule that [of "let b1 = (buckets (tbl s) ! ?j)\<lparr>bcount := bcount (buckets (tbl s) ! ?j) - 1\<rparr>
          in if hh_head b1 = Some p then b1\<lparr>hh_head := hh_next (mem s p)\<rparr> else b1"])
       (simp_all add: d HASH_DEL_IN_BKT_def g j Let_def)
qed

lemma unlist_list_ok:
  assumes "uth_inv s (ys @ p # zs)" "ys @ zs \<noteq> []"
  shows "tail (tbl (unlist s p)) = Some (last (ys @ zs))"
    "seg (\<lambda>x. el_prev (mem (unlist s p) x)) (\<lambda>x. el_next (mem (unlist s p) x)) None (ys @ zs) None"
    "head (unlist s p) = first (ys @ zs) None"
proof -
  have d: "distinct (ys @ p # zs)" and l: "list_ok s (ys @ p # zs)"
    and h: "head s = first (ys @ p # zs) None"
    using assms(1) by (auto simp: uth_inv_def)
  have sg: "seg (\<lambda>x. el_prev (mem s x)) (\<lambda>x. el_next (mem s x)) None (ys @ p # zs) None"
    using l by (simp add: list_ok_def)
  note e = seg_ends [OF sg]
  have np: "el_prev (mem s p) \<noteq> Some p" using e(1) d by (auto dest: final_mem)
  show "seg (\<lambda>x. el_prev (mem (unlist s p) x)) (\<lambda>x. el_next (mem (unlist s p) x)) None (ys @ zs) None"
    by (rule seg_unlink [OF sg d]) (simp_all add: unlist_links [where s = s and p = p, OF np])
  have "tail (tbl (unlist s p)) = (if tail (tbl s) = Some p then el_prev (mem s p) else tail (tbl s))"
    by (simp add: unlist_def Let_def)
  then show "tail (tbl (unlist s p)) = Some (last (ys @ zs))"
    using l d e(1) assms(2) last_in_set [of zs] by (auto simp: list_ok_def final_def)
  have "head (unlist s p) = (case el_prev (mem s p) of None \<Rightarrow> el_next (mem s p) | Some _ \<Rightarrow> head s)"
    by (simp add: unlist_def Let_def)
  then show "head (unlist s p) = first (ys @ zs) None"
    using e h by (cases ys) (auto split: option.splits)
qed

theorem HASH_DELETE_ok:
  assumes "uth_inv s xs" "p \<in> set xs"
  shows "\<exists>s1. HASH_DELETE s p = Inr s1 \<and> uth_inv s1 (remove1 p xs) \<and> brk s1 = brk s \<and>
    (\<forall>x. payload (mem s1 x) = payload (mem s x) \<and> hkey (mem s1 x) = hkey (mem s x)) \<and>
    (small s \<longrightarrow> small s1)"
proof (cases "xs = [p]")
  case True
  then have "el_prev (mem s p) = None \<and> el_next (mem s p) = None"
    using assms(1) by (simp add: uth_inv_def list_ok_def)
  then show ?thesis using True assms(1) by (simp add: HASH_DELETE_def uth_inv_def small_def)
next
  case False
  obtain ys zs where xs: "xs = ys @ p # zs" using assms(2) by (meson split_list)
  have d: "distinct (ys @ p # zs)" using assms(1) xs by (simp add: uth_inv_def)
  then have r: "remove1 p xs = ys @ zs" by (simp add: xs remove1_append)
  have ne: "ys @ zs \<noteq> []" using False xs by auto
  have l: "list_ok s xs" and b: "buckets_ok s (set xs)" and bd: "\<forall>x \<in> set xs. x < brk s"
    using assms by (auto simp: uth_inv_def xs)
  let ?k = "log2_num_buckets (tbl s)"
  let ?j = "bkt_of (mem s) ?k p"
  obtain b' where del: "HASH_DELETE s p = Inr (unlist s p
        \<lparr>mem := unlink_mem (mem (unlist s p)) p,
         tbl := (tbl (unlist s p))\<lparr>num_items := num_items (tbl s) - 1,
           buckets := (buckets (tbl s))[?j := b']\<rparr>\<rparr>)" (is "_ = Inr ?s1")
      and b': "hh_head b' = (if hh_head (buckets (tbl s) ! ?j) = Some p
         then hh_next (mem s p) else hh_head (buckets (tbl s) ! ?j))"
        "bcount b' = bcount (buckets (tbl s) ! ?j) - 1"
        "expand_mult b' = expand_mult (buckets (tbl s) ! ?j)"
    using HASH_DELETE_unlist [OF assms False] .
  note ul = unlist_list_ok [OF assms(1) [unfolded xs] ne]
  have j: "?j < length (buckets (tbl s))" using b bkt_of_less by (simp add: buckets_ok_def table_ok_def)
  have "list_ok ?s1 (ys @ zs)"
    using ul(1,2) l xs by (auto simp: list_ok_def)
  moreover have "buckets_ok ?s1 (set (ys @ zs))"
  proof -
    have "table_ok (mem (unlist s p)) (buckets (tbl s)) ?k (set xs)"
      by (rule table_ok_frame [of "mem s"]) (use b in \<open>simp_all add: buckets_ok_def\<close>)
    then have "table_ok (unlink_mem (mem (unlist s p)) p) ((buckets (tbl s))[?j := b']) ?k (set xs - {p})"
      by (rule table_unlink) (use assms(2) b' in \<open>simp_all add: bkt_of_def\<close>)
    moreover have "set xs - {p} = set (ys @ zs)" using d xs by auto
    ultimately show ?thesis using b by (simp add: buckets_ok_def)
  qed
  ultimately have "uth_inv ?s1 (ys @ zs)"
    using d bd ul(3) by (simp add: uth_inv_def xs)
  then have "uth_inv ?s1 (remove1 p xs)" unfolding r .
  moreover have "small ?s1" if "small s"
  proof -
    have "head s \<noteq> None" using assms by (auto simp: uth_inv_def)
    then have "\<forall>b \<in> set (buckets (tbl s)). expand_mult b = 0" "?k = 5" using that by (auto simp: small_def)
    moreover then have "expand_mult b' = 0" using b'(3) j nth_mem by metis
    ultimately show ?thesis by (auto simp: small_def dest!: subsetD [OF set_update_subset_insert])
  qed
  ultimately show ?thesis using del by auto
qed

section \<open>Lookup\<close>

lemma find_in_bkt:
  assumes "seg (\<lambda>x. hh_prev (m x)) (\<lambda>x. hh_next (m x)) p ys None" "length ys \<le> fuel"
  shows "HASH_FIND_IN_BKT fuel m key (first ys None) = Inr (List.find (\<lambda>x. hkey (m x) = key) ys)"
  using assms
proof (induction ys arbitrary: p fuel)
  case (Cons y ys)
  then obtain f where "fuel = Suc f" by (cases fuel) auto
  then show ?case using Cons.IH [of "Some y" f] Cons.prems by auto
qed simp

theorem HASH_FIND_ok:
  assumes "uth_inv s xs"
  shows "\<exists>r. HASH_FIND s key = Inr r \<and>
    (case r of None \<Rightarrow> \<forall>x \<in> set xs. hkey (mem s x) \<noteq> key
     | Some x \<Rightarrow> x \<in> set xs \<and> hkey (mem s x) = key)"
proof (cases "xs = []")
  case True
  then show ?thesis using assms by (simp add: HASH_FIND_def uth_inv_def)
next
  case False
  then have l: "list_ok s xs" and b: "buckets_ok s (set xs)" and h: "head s \<noteq> None"
    and d: "\<forall>x \<in> set xs. x < brk s"
    using assms by (auto simp: uth_inv_def)
  let ?k = "log2_num_buckets (tbl s)"
  let ?i = "HASH_TO_BKT (jen_hashv key) (num_buckets (tbl s))"
  have i: "unat ?i < 2 ^ ?k" using b HASH_TO_BKT_less by (simp add: buckets_ok_def)
  have t: "table_ok (mem s) (buckets (tbl s)) ?k (set xs)" using b by (simp add: buckets_ok_def)
  obtain ys where ys: "bkt_ok (mem s) (buckets (tbl s) ! unat ?i) ys" "distinct ys"
      "set ys = {x \<in> set xs. bkt_of (mem s) ?k x = unat ?i}"
    using table_okD [OF t i] .
  have "unat ?i < length (buckets (tbl s))" using b i by (simp add: buckets_ok_def table_ok_def)
  then have g: "arr_get (buckets (tbl s)) (uint ?i) = Inr (buckets (tbl s) ! unat ?i)"
    unfolding uint_nat by (rule arr_get_nat)
  have "length ys \<le> brk s" using ys(2,3) d by (intro distinct_below_length) auto
  then have f: "HASH_FIND s key = Inr (List.find (\<lambda>x. hkey (mem s x) = key) ys)"
    using h g ys(1) find_in_bkt [of "mem s" None ys "brk s" key]
    by (auto simp: HASH_FIND_def HASH_JEN_def Let_def bkt_ok_def)
  have in_ys: "x \<in> set ys" if "x \<in> set xs" "hkey (mem s x) = key" for x
    using that l b ys(3) by (auto simp: list_ok_def bkt_of_def buckets_ok_def)
  show ?thesis
  proof (cases "List.find (\<lambda>x. hkey (mem s x) = key) ys")
    case None
    then have "\<forall>x \<in> set ys. hkey (mem s x) \<noteq> key" by (auto simp: find_None_iff)
    then have "\<forall>x \<in> set xs. hkey (mem s x) \<noteq> key" using in_ys by blast
    then show ?thesis using f None by simp
  next
    case (Some x)
    then have "x \<in> set ys" "hkey (mem s x) = key" by (auto simp: find_Some_iff)
    then show ?thesis using f Some ys(3) by auto
  qed
qed

section \<open>The integrity check\<close>

lemma fsck_walk_seg:
  assumes "seg pv nx p ys None" "length ys \<le> fuel"
  shows "fsck_walk fuel pv nx p (first ys None) c = Inr (c + of_nat (length ys))"
  using assms
proof (induction ys arbitrary: p fuel c)
  case (Cons y ys)
  then obtain f where "fuel = Suc f" by (cases fuel) auto
  then show ?case using Cons.IH [of "Some y" f "c + 1"] Cons.prems by auto
qed simp

lemma fsck_buckets_ok:
  assumes "list_all2 (bkt_ok m) bs css" "\<forall>ys \<in> set css. length ys \<le> fuel"
  shows "fsck_buckets fuel m bs c = Inr (c + of_nat (length (concat css)))"
  using assms
proof (induction arbitrary: c rule: list_all2_induct)
  case (Cons b bs ys css)
  then have "fsck_walk fuel (\<lambda>x. hh_prev (m x)) (\<lambda>x. hh_next (m x)) None (hh_head b) 0 = Inr (of_nat (length ys))"
    using fsck_walk_seg [of _ _ None ys fuel 0] by (auto simp: bkt_ok_def)
  then show ?case using Cons by (simp add: bkt_ok_def add.assoc)
qed simp

theorem HASH_FSCK_ok:
  assumes "uth_inv s xs"
  shows "HASH_FSCK s = Inr ()"
proof (cases "xs = []")
  case True
  then show ?thesis using assms by (simp add: HASH_FSCK_def uth_inv_def)
next
  case False
  then have l: "list_ok s xs" and b: "buckets_ok s (set xs)" and h: "head s = first xs None"
    and d: "distinct xs" "\<forall>x \<in> set xs. x < brk s"
    using assms by (auto simp: uth_inv_def)
  let ?k = "log2_num_buckets (tbl s)"
  have t: "table_ok (mem s) (buckets (tbl s)) ?k (set xs)" and k: "?k < 32"
    and n: "num_buckets (tbl s) = 2 ^ ?k"
    using b by (auto simp: buckets_ok_def)
  obtain css where css: "list_all2 (bkt_ok (mem s)) (buckets (tbl s)) css" "distinct (concat css)"
      "set (concat css) = set xs" "\<forall>ys \<in> set css. distinct ys \<and> set ys \<subseteq> set xs"
    using table_chains [OF t] .
  have fuel: "\<forall>ys \<in> set css. length ys \<le> brk s"
    using css(4) d(2) by (meson distinct_below_length subsetD)
  have "length (concat css) = length xs"
    using css(2,3) d(1) by (metis distinct_card)
  moreover have "take (unat (num_buckets (tbl s))) (buckets (tbl s)) = buckets (tbl s)"
    using t k by (simp add: n unat_pow2 table_ok_def)
  ultimately have 1: "fsck_buckets (brk s) (mem s)
      (take (unat (num_buckets (tbl s))) (buckets (tbl s))) 0 = Inr (num_items (tbl s))"
    using fsck_buckets_ok [OF css(1) fuel, of 0] l by (simp add: list_ok_def)
  have "fsck_walk (brk s) (\<lambda>x. el_prev (mem s x)) (\<lambda>x. el_next (mem s x)) None (head s) 0
      = Inr (num_items (tbl s))"
    using fsck_walk_seg [of _ _ None xs "brk s" 0] l d distinct_below_length h by (simp add: list_ok_def)
  then show ?thesis using 1 h False by (cases xs) (simp_all add: HASH_FSCK_def)
qed

section \<open>Deletion of all elements\<close>

lemma iter_delete_ok:
  assumes "uth_inv s xs" "length xs \<le> fuel"
  shows "\<exists>s1. iter_delete fuel s (first xs None) (first (drop 1 xs) None) = Inr s1 \<and>
    uth_inv s1 [] \<and> brk s1 = brk s"
  using assms
proof (induction xs arbitrary: s fuel)
  case Nil
  then show ?case by simp
next
  case (Cons x ys)
  then obtain f where f: "fuel = Suc f" by (cases fuel) auto
  obtain s1 where d: "HASH_DELETE s x = Inr s1" "uth_inv s1 ys" "brk s1 = brk s"
    using HASH_DELETE_ok [OF Cons.prems(1), of x] by auto
  have "(case first ys None of None \<Rightarrow> None | Some q \<Rightarrow> el_next (mem s1 q)) = first (drop 1 ys) None"
    using d(2) by (cases ys) (auto simp: uth_inv_def list_ok_def)
  then show ?case using Cons.IH [OF d(2), of f] Cons.prems(2) f d by simp
qed

theorem HASH_ITER_DEL_ok:
  assumes "uth_inv s xs"
  shows "\<exists>s1. HASH_ITER_DEL s = Inr s1 \<and> uth_inv s1 [] \<and> brk s1 = brk s"
proof -
  have "length xs \<le> brk s + 1"
    using assms distinct_below_length [of xs "brk s"] by (simp add: uth_inv_def)
  moreover have "head s = first xs None" "(case head s of None \<Rightarrow> None | Some p \<Rightarrow> el_next (mem s p))
      = first (drop 1 xs) None"
    using assms by (cases xs; auto simp: uth_inv_def list_ok_def)+
  ultimately show ?thesis using iter_delete_ok [OF assms] by (simp add: HASH_ITER_DEL_def)
qed

end
