(* ===== verification/Keyed_Store.thy ===== *)
theory Keyed_Store
  imports Uthash_Ops
begin

text \<open>
  The interface through which the program uses its two hash tables, \<open>callbacks_storage\<close> in
  storage.c and \<open>hash_ts\<close> in metrics_aggregator.c: lookup, insertion of a newly allocated struct,
  update of a struct's field, deletion, and the deletion of everything. The locale
  \<open>keyed_store\<close> states its laws in terms of the list of keys and addresses, and derives from them
  what a client sees, a finite map (\<open>holds\<close>). It is interpreted on the operations of uthash.h,
  whose table is never expanded below 10 elements.
\<close>

record ('s, 'e) hash_ops =
  h_find :: "'s \<Rightarrow> byte list \<Rightarrow> ptr option res"
  h_insert :: "'s \<Rightarrow> byte list \<Rightarrow> 'e \<Rightarrow> 's res"
  h_get :: "'s \<Rightarrow> ptr \<Rightarrow> 'e"
  h_set :: "'s \<Rightarrow> ptr \<Rightarrow> 'e \<Rightarrow> 's"
  h_del :: "'s \<Rightarrow> ptr \<Rightarrow> 's res"
  h_wipe :: "'s \<Rightarrow> 's res"

locale keyed_store =
  fixes H :: "('s, 'e) hash_ops" and rep :: "'s \<Rightarrow> (byte list \<times> ptr) list \<Rightarrow> bool" and cap :: nat
  assumes rep_distinct: "rep s es \<Longrightarrow> distinct (map fst es) \<and> distinct (map snd es)"
    and find_law: "rep s es \<Longrightarrow> h_find H s k = Inr (map_of es k)"
    and insert_law: "rep s es \<Longrightarrow> k \<notin> fst ` set es \<Longrightarrow> length es < cap \<Longrightarrow>
      \<exists>s1 p. h_insert H s k x = Inr s1 \<and> rep s1 (es @ [(k, p)]) \<and> h_get H s1 p = x \<and>
        (\<forall>q \<in> snd ` set es. h_get H s1 q = h_get H s q)"
    and set_law: "rep s es \<Longrightarrow> p \<in> snd ` set es \<Longrightarrow>
      rep (h_set H s p x) es \<and> h_get H (h_set H s p x) = (h_get H s)(p := x)"
    and del_law: "rep s es \<Longrightarrow> (k, p) \<in> set es \<Longrightarrow>
      \<exists>s1. h_del H s p = Inr s1 \<and> rep s1 (remove1 (k, p) es) \<and>
        (\<forall>q \<in> snd ` set es. h_get H s1 q = h_get H s q)"
    and wipe_law: "rep s es \<Longrightarrow> \<exists>s1. h_wipe H s = Inr s1 \<and> rep s1 []"
begin

definition holds :: "'s \<Rightarrow> (byte list \<rightharpoonup> 'e) \<Rightarrow> nat \<Rightarrow> bool" where
  "holds s m n \<longleftrightarrow> (\<exists>es. rep s es \<and> length es = n \<and> m = (\<lambda>k. map_option (h_get H s) (map_of es k)))"

lemma holds_card:
  assumes "holds s m n"
  shows "finite (dom m)" "card (dom m) = n"
proof -
  obtain es where es: "rep s es" "length es = n" "m = (\<lambda>k. map_option (h_get H s) (map_of es k))"
    using assms by (auto simp: holds_def)
  have d: "dom m = set (map fst es)" by (auto simp: es(3) dom_map_option dom_map_of_conv_image_fst)
  show "finite (dom m)" by (simp add: d)
  show "card (dom m) = n" using rep_distinct [OF es(1)] es(2) unfolding d by (metis distinct_card length_map)
qed

lemma holds_empty: "rep s [] \<Longrightarrow> holds s Map.empty 0"
  by (auto simp: holds_def)

lemma holds_find:
  assumes "holds s m n"
  shows "\<exists>r. h_find H s k = Inr r \<and> map_option (h_get H s) r = m k"
  using assms find_law by (auto simp: holds_def)

lemma holds_insert:
  assumes "holds s m n" "m k = None" "n < cap"
  shows "\<exists>s1. h_insert H s k x = Inr s1 \<and> holds s1 (m(k \<mapsto> x)) (Suc n)"
proof -
  obtain es where es: "rep s es" "length es = n" "m = (\<lambda>k. map_option (h_get H s) (map_of es k))"
    using assms(1) by (auto simp: holds_def)
  have k: "k \<notin> fst ` set es" using assms(2) es(3) by (simp add: map_of_eq_None_iff)
  obtain s1 p where s1: "h_insert H s k x = Inr s1" "rep s1 (es @ [(k, p)])" "h_get H s1 p = x"
      "\<forall>q \<in> snd ` set es. h_get H s1 q = h_get H s q"
    using insert_law [OF es(1) k] assms(3) es(2) by blast
  have "m(k \<mapsto> x) = (\<lambda>j. map_option (h_get H s1) (map_of (es @ [(k, p)]) j))"
  proof
    fix j
    show "(m(k \<mapsto> x)) j = map_option (h_get H s1) (map_of (es @ [(k, p)]) j)"
    proof (cases "map_of es j")
      case None
      then show ?thesis using s1(3) es(3) by (auto simp: map_add_def)
    next
      case (Some q)
      then have "q \<in> snd ` set es" "j \<noteq> k" using k by (force dest: map_of_SomeD)+
      then show ?thesis using s1(4) es(3) k Some by (auto simp: map_add_def dest: map_of_SomeD)
    qed
  qed
  then show ?thesis using s1(1,2) es(2) unfolding holds_def
    by (intro exI [of _ s1] conjI exI [of _ "es @ [(k, p)]"]) auto
qed

lemma holds_found:
  assumes "holds s m n" "m k = Some x"
  obtains p where "h_find H s k = Inr (Some p)" "h_get H s p = x"
    "\<And>y. holds (h_set H s p y) (m(k \<mapsto> y)) n \<and> h_find H (h_set H s p y) k = Inr (Some p) \<and>
       h_get H (h_set H s p y) p = y"
    "\<exists>s1. h_del H s p = Inr s1 \<and> holds s1 (m(k := None)) (n - 1)"
proof -
  obtain es where es: "rep s es" "length es = n" "m = (\<lambda>k. map_option (h_get H s) (map_of es k))"
    using assms(1) by (auto simp: holds_def)
  note d = rep_distinct [OF es(1)]
  obtain p where p: "map_of es k = Some p" "h_get H s p = x" using assms(2) es(3) by auto
  have kp: "(k, p) \<in> set es" using p(1) by (rule map_of_SomeD)
  have ps: "p \<in> snd ` set es" using kp by force
  have other: "q \<noteq> p" if "map_of es j = Some q" "j \<noteq> k" for j q
    using d kp map_of_SomeD [OF that(1)] that(2) by (metis distinct_map fst_conv inj_onD snd_conv)
  have st: "rep (h_set H s p y) es" "h_get H (h_set H s p y) = (h_get H s)(p := y)" for y
    using set_law [OF es(1) ps] by blast+
  have "m(k \<mapsto> y) = (\<lambda>j. map_option (h_get H (h_set H s p y)) (map_of es j))" for y
    using p(1) other by (auto simp: st(2) es(3) split: option.splits intro!: ext)
       (metis (no_types, lifting) fun_upd_other map_option_cong other)+
  then have h: "holds (h_set H s p y) (m(k \<mapsto> y)) n" for y
    using st(1) es(2) unfolding holds_def by blast
  obtain s1 where s1: "h_del H s p = Inr s1" "rep s1 (remove1 (k, p) es)"
      "\<forall>q \<in> snd ` set es. h_get H s1 q = h_get H s q"
    using del_law [OF es(1) kp] by blast
  have mo: "map_of (remove1 (k, p) es) j = (if j = k then None else map_of es j)" for j
    using d kp
  proof (induction es)
    case (Cons e es)
    then show ?case by (cases e) (auto simp: map_of_eq_None_iff image_iff, force)
  qed simp
  have "m(k := None) = (\<lambda>j. map_option (h_get H s1) (map_of (remove1 (k, p) es) j))"
  proof
    fix j
    show "(m(k := None)) j = map_option (h_get H s1) (map_of (remove1 (k, p) es) j)"
      using s1(3) by (cases "map_of es j") (auto simp: mo es(3) dest!: map_of_SomeD)
  qed
  then have "holds s1 (m(k := None)) (n - 1)"
    using s1(2) es(2) kp unfolding holds_def
    by (intro exI [of _ "remove1 (k, p) es"]) (auto simp: length_remove1)
  then show ?thesis
    using that [of p] find_law [OF es(1)] find_law [OF st(1)] p h s1(1) st(2) by auto
qed

lemma holds_wipe: "holds s m n \<Longrightarrow> \<exists>s1. h_wipe H s = Inr s1 \<and> holds s1 Map.empty 0"
  using wipe_law holds_empty unfolding holds_def by blast

end

section \<open>The interface on uthash.h\<close>

text \<open>malloc, the assignments to the struct's own fields, and HASH_ADD.\<close>

definition uth_insert :: "'a uth \<Rightarrow> byte list \<Rightarrow> 'a \<Rightarrow> 'a uth res" where
  "uth_insert s k x = (let (p, s1) = new_elem s x in HASH_ADD_KEYPTR s1 k p)"

definition uth_set :: "'a uth \<Rightarrow> ptr \<Rightarrow> 'a \<Rightarrow> 'a uth" where
  "uth_set s p x = s\<lparr>mem := (mem s)(p := (mem s p)\<lparr>payload := x\<rparr>)\<rparr>"

definition uth_ops :: "('a uth, 'a) hash_ops" where
  "uth_ops = \<lparr>h_find = HASH_FIND, h_insert = uth_insert, h_get = (\<lambda>s p. payload (mem s p)),
     h_set = uth_set, h_del = HASH_DELETE, h_wipe = HASH_ITER_DEL\<rparr>"

lemma uth_ops_simps [simp]:
  "h_find uth_ops = HASH_FIND" "h_insert uth_ops = uth_insert"
  "h_get uth_ops = (\<lambda>s p. payload (mem s p))" "h_set uth_ops = uth_set"
  "h_del uth_ops = HASH_DELETE" "h_wipe uth_ops = HASH_ITER_DEL"
  by (simp_all add: uth_ops_def)

text \<open>A table without elements, before anything has been allocated.\<close>

definition uth_empty :: "'a \<Rightarrow> 'a uth" where
  "uth_empty x = \<lparr>head = None, tbl = HASH_MAKE_TABLE 0,
     mem = (\<lambda>_. \<lparr>el_prev = None, el_next = None, hh_prev = None, hh_next = None, hkey = [], hashv = 0,
       payload = x\<rparr>), brk = 0\<rparr>"

definition uth_rep :: "'a uth \<Rightarrow> (byte list \<times> ptr) list \<Rightarrow> bool" where
  "uth_rep s es \<longleftrightarrow> uth_inv s (map snd es) \<and> distinct (map fst es) \<and>
     (\<forall>(k, p) \<in> set es. hkey (mem s p) = k) \<and> small s"

lemma uth_empty_rep: "uth_rep (uth_empty x) []"
  by (simp add: uth_rep_def uth_empty_def uth_inv_def small_def)

lemma payload_inv:
  assumes "uth_inv s xs" "brk s \<le> n"
  shows "uth_inv (s\<lparr>mem := (mem s)(p := (mem s p)\<lparr>payload := x\<rparr>), brk := n\<rparr>) xs" (is "uth_inv ?s xs")
proof -
  have f: "(\<lambda>y. el_prev (mem ?s y)) = (\<lambda>y. el_prev (mem s y))" "(\<lambda>y. el_next (mem ?s y)) = (\<lambda>y. el_next (mem s y))"
    by auto
  have "table_ok (mem ?s) (buckets (tbl s)) (log2_num_buckets (tbl s)) (set xs)"
    if "table_ok (mem s) (buckets (tbl s)) (log2_num_buckets (tbl s)) (set xs)"
    by (rule table_ok_frame [OF that]) simp
  moreover have "list_ok ?s xs" if "list_ok s xs"
    using that unfolding list_ok_def f by simp
  ultimately show ?thesis using assms by (auto simp: uth_inv_def buckets_ok_def)
qed

lemma uth_insert_law:
  assumes "uth_rep s es" "k \<notin> fst ` set es" "length es < 9"
  shows "\<exists>s1 p. uth_insert s k x = Inr s1 \<and> uth_rep s1 (es @ [(k, p)]) \<and> payload (mem s1 p) = x \<and>
    (\<forall>q \<in> snd ` set es. payload (mem s1 q) = payload (mem s q))"
proof -
  have inv: "uth_inv s (map snd es)" and sm: "small s" using assms(1) by (auto simp: uth_rep_def)
  define p where "p = brk s"
  let ?t = "s\<lparr>mem := (mem s)(p := (mem s p)\<lparr>payload := x\<rparr>), brk := brk s + 1\<rparr>"
  have fresh: "p \<notin> snd ` set es" using inv by (auto simp: uth_inv_def p_def)
  have invt: "uth_inv ?t (map snd es)" by (rule payload_inv [OF inv]) simp
  have smt: "small ?t" using sm by (simp add: small_def)
  have lg: "map snd es = [] \<or> log2_num_buckets (tbl ?t) < 31"
    using inv smt by (cases es) (auto simp: small_def uth_inv_def)
  obtain s1 where s1: "HASH_ADD_KEYPTR ?t k p = Inr s1" "uth_inv s1 (map snd es @ [p])"
      "\<forall>y. payload (mem s1 y) = payload (mem ?t y)"
      "\<forall>y. hkey (mem s1 y) = (if y = p then k else hkey (mem ?t y))"
    using HASH_ADD_ok [OF invt _ _ lg, of p k] fresh assms(3) by (auto simp: p_def)
  have "small s1" using HASH_ADD_small [OF invt _ smt _ s1(1)] fresh assms(3) by simp
  moreover have "\<forall>(j, q) \<in> set es. hkey (mem s1 q) = j"
    using assms(1) fresh s1(4) by (force simp: uth_rep_def)
  moreover have "hkey (mem s1 p) = k" using s1(4) by simp
  ultimately have "uth_rep s1 (es @ [(k, p)])"
    using s1(2) assms(1,2) by (auto simp: uth_rep_def)
  moreover have "payload (mem s1 q) = payload (mem s q)" if "q \<in> snd ` set es" for q
    using that fresh s1(3) by auto
  moreover have "uth_insert s k x = Inr s1" using s1(1) by (simp add: uth_insert_def new_elem_def p_def)
  ultimately show ?thesis using s1(3) by auto
qed

lemma uth_rep_remove:
  assumes "distinct (map fst es)" "distinct (map snd es)" "(k, p) \<in> set es"
  shows "map snd (remove1 (k, p) es) = remove1 p (map snd es)" "distinct (map fst (remove1 (k, p) es))"
  using assms
  by (induction es) (force simp: remove1_idem dest: notin_set_remove1 set_remove1_subset [THEN subsetD])+

interpretation uth: keyed_store uth_ops uth_rep 9
proof
  fix s :: "'a uth" and es k
  assume r: "uth_rep s es"
  then have inv: "uth_inv s (map snd es)" and d: "distinct (map fst es)"
    and keys: "\<forall>(k, p) \<in> set es. hkey (mem s p) = k" and sm: "small s"
    by (auto simp: uth_rep_def)
  show "distinct (map fst es) \<and> distinct (map snd es)" using inv d by (simp add: uth_inv_def)
  then have d2: "distinct (map snd es)" by simp
  show "h_find uth_ops s k = Inr (map_of es k)"
  proof -
    obtain r where f: "HASH_FIND s k = Inr r" and c: "case r of None \<Rightarrow> \<forall>x \<in> set (map snd es). hkey (mem s x) \<noteq> k
        | Some x \<Rightarrow> x \<in> set (map snd es) \<and> hkey (mem s x) = k"
      using HASH_FIND_ok [OF inv] by blast
    have "map_of es k = r"
    proof (cases r)
      case None
      then show ?thesis using c keys by (force simp: map_of_eq_None_iff)
    next
      case (Some x)
      then show ?thesis using c keys d by auto
    qed
    then show ?thesis using f by simp
  qed
  show "\<exists>s1 p. h_insert uth_ops s k x = Inr s1 \<and> uth_rep s1 (es @ [(k, p)]) \<and> h_get uth_ops s1 p = x \<and>
        (\<forall>q \<in> snd ` set es. h_get uth_ops s1 q = h_get uth_ops s q)"
    if "k \<notin> fst ` set es" "length es < 9" for x
    using uth_insert_law [OF r that] by simp
  show "uth_rep (h_set uth_ops s p x) es \<and> h_get uth_ops (h_set uth_ops s p x) = (h_get uth_ops s)(p := x)"
    if "p \<in> snd ` set es" for p x
  proof
    have "uth_inv (uth_set s p x) (map snd es)" using payload_inv [OF inv, of "brk s" p x] by (simp add: uth_set_def)
    then show "uth_rep (h_set uth_ops s p x) es"
      using d keys sm by (auto simp: uth_rep_def uth_set_def small_def)
    show "h_get uth_ops (h_set uth_ops s p x) = (h_get uth_ops s)(p := x)" by (auto simp: uth_set_def)
  qed
  show "\<exists>s1. h_del uth_ops s p = Inr s1 \<and> uth_rep s1 (remove1 (k, p) es) \<and>
        (\<forall>q \<in> snd ` set es. h_get uth_ops s1 q = h_get uth_ops s q)"
    if kp: "(k, p) \<in> set es" for p
  proof -
    have ps: "p \<in> set (map snd es)" using kp by force
    obtain s1 where s1: "HASH_DELETE s p = Inr s1" "uth_inv s1 (remove1 p (map snd es))"
        "\<forall>x. payload (mem s1 x) = payload (mem s x) \<and> hkey (mem s1 x) = hkey (mem s x)" "small s1"
      using HASH_DELETE_ok [OF inv ps] sm by blast
    have "uth_rep s1 (remove1 (k, p) es)"
      using s1 keys uth_rep_remove [OF d d2 kp] set_remove1_subset [of "(k, p)" es]
      by (auto simp: uth_rep_def)
    then show ?thesis using s1 by auto
  qed
  show "\<exists>s1. h_wipe uth_ops s = Inr s1 \<and> uth_rep s1 []"
    using HASH_ITER_DEL_ok [OF inv] by (auto simp: uth_rep_def uth_inv_def small_def)
qed

end
