(* ===== verification/Storage.thy ===== *)
theory Storage
  imports Keyed_Store
begin

text \<open>
  The storage of custom metrics (storage.c, storage.h): the table of the three known callbacks, its
  loading into the hash table \<open>callbacks_storage\<close>, the lookup of an alias and the callbacks
  themselves. The hash table is used through the interface of theory Keyed_Store. PAPI's
  initialisation returns a code that is only reported; \<open>_SC_CLK_TCK\<close>, \<open>/proc/uptime\<close> and the
  rank are inputs.
\<close>

section \<open>Strings as C has them\<close>

text \<open>The bytes of a string, without the terminating zero, as HASH_FIND_STR and HASH_ADD_STR pass them.\<close>

definition str_bytes :: "string \<Rightarrow> byte list" where
  "str_bytes s = map (\<lambda>c. word_of_nat (of_char c)) s"

lemma str_bytes_inj: "str_bytes s = str_bytes t \<longleftrightarrow> s = t"
proof -
  have "inj (\<lambda>c. word_of_nat (of_char c) :: byte)"
  proof (rule injI)
    fix c d :: char
    assume "(word_of_nat (of_char c) :: byte) = word_of_nat (of_char d)"
    then have "unat (word_of_nat (of_char c) :: byte) = unat (word_of_nat (of_char d) :: byte)" by simp
    moreover have "(of_char x :: nat) < 256" for x by simp
    ultimately have "(of_char c :: nat) = of_char d" by (simp add: unat_of_nat)
    then show "c = d" by simp
  qed
  then show ?thesis by (auto simp: str_bytes_def inj_map_eq_map)
qed

section \<open>The known metrics\<close>

datatype callback = return_rank | get_uptime | benchmark_metric

abbreviation MAX_LENGTH_ALIAS :: nat where "MAX_LENGTH_ALIAS \<equiv> 100"

record htable =
  ht_key :: string
  ht_value :: callback

definition callbacks :: "(callback \<times> string) list" where
  "callbacks = [(return_rank, ''rank''), (get_uptime, ''uptime''), (benchmark_metric, ''test'')]"

definition available_metrics_no :: nat where
  "available_metrics_no = 3"

text \<open>
  The loop of \<open>init_known_metrics\<close>: a new pair is allocated, the alias copied into its char array,
  and the pair added under the alias. \<open>HASH_CLEAR\<close> of the old table comes first.
\<close>

fun load_callbacks :: "('s, htable) hash_ops \<Rightarrow> 's \<Rightarrow> (callback \<times> string) list \<Rightarrow> 's res" where
  "load_callbacks H s [] = Inr s"
| "load_callbacks H s ((f, alias) # cs) =
     (if MAX_LENGTH_ALIAS \<le> length alias then Inl BufferOverflow
      else bind_r (h_insert H s (str_bytes alias) \<lparr>ht_key = alias, ht_value = f\<rparr>)
             (\<lambda>s1. load_callbacks H s1 cs))"

definition init_known_metrics :: "('s, htable) hash_ops \<Rightarrow> ('s \<Rightarrow> 's) \<Rightarrow> 's \<Rightarrow> 's res" where
  "init_known_metrics H clear s = load_callbacks H (clear s) (take available_metrics_no callbacks)"

definition free_storage :: "('s, htable) hash_ops \<Rightarrow> 's \<Rightarrow> 's res" where
  "free_storage H s = h_wipe H s"

text \<open>\<open>strlen\<close> of a NULL alias is undefined.\<close>

definition get_value :: "('s, htable) hash_ops \<Rightarrow> 's \<Rightarrow> string option \<Rightarrow> callback option res" where
  "get_value H s alias =
     (case alias of
        None \<Rightarrow> Inl NullDeref
      | Some a \<Rightarrow> bind_r (h_find H s (str_bytes a)) (\<lambda>pair.
          Inr (map_option (\<lambda>p. ht_value (h_get H s p)) pair)))"

section \<open>The callbacks\<close>

text \<open>
  What they read: the process's rank, the ticks per second, and the two numbers that fscanf stores from
  \<open>/proc/uptime\<close> (none of them where it could not read it).
\<close>

record environment =
  env_rank :: int
  env_ticks :: int
  env_uptime :: "(int \<times> int) option"

definition run_callback :: "environment \<Rightarrow> callback \<Rightarrow> int res" where
  "run_callback env f =
     (case f of
        return_rank \<Rightarrow> Inr (env_rank env)
      | get_uptime \<Rightarrow>
          (case env_uptime env of
             None \<Rightarrow> Inl Uninitialised
           | Some (sec, ssec) \<Rightarrow>
               bind_r (c_long (sec * env_ticks env)) (\<lambda>t. c_long (t + ssec)))
      | benchmark_metric \<Rightarrow> Inr 1)"

section \<open>Properties of the storage\<close>

text \<open>The storage after loading, over any hash table with the laws of the interface.\<close>

definition known_metrics :: "byte list \<rightharpoonup> htable" where
  "known_metrics =
     [str_bytes ''rank'' \<mapsto> \<lparr>ht_key = ''rank'', ht_value = return_rank\<rparr>,
      str_bytes ''uptime'' \<mapsto> \<lparr>ht_key = ''uptime'', ht_value = get_uptime\<rparr>,
      str_bytes ''test'' \<mapsto> \<lparr>ht_key = ''test'', ht_value = benchmark_metric\<rparr>]"

definition callback_of :: "string \<Rightarrow> callback option" where
  "callback_of a =
     (if a = ''rank'' then Some return_rank else if a = ''uptime'' then Some get_uptime
      else if a = ''test'' then Some benchmark_metric else None)"

lemma known_metrics_callback:
  "map_option ht_value (known_metrics (str_bytes a)) = callback_of a"
  by (simp add: known_metrics_def callback_of_def str_bytes_inj)

locale callback_store = keyed_store H rep cap
  for H :: "('s, htable) hash_ops" and rep :: "'s \<Rightarrow> (byte list \<times> ptr) list \<Rightarrow> bool" and cap :: nat +
  assumes cap3: "3 \<le> cap"
begin

lemma load_known:
  assumes "holds s Map.empty 0"
  shows "\<exists>s1. load_callbacks H s (take available_metrics_no callbacks) = Inr s1 \<and>
    holds s1 known_metrics 3"
proof -
  have ne: "str_bytes ''uptime'' \<noteq> str_bytes ''rank''" "str_bytes ''test'' \<noteq> str_bytes ''rank''"
    "str_bytes ''test'' \<noteq> str_bytes ''uptime''"
    by (simp_all add: str_bytes_inj)
  let ?e = "\<lambda>f a. \<lparr>ht_key = a, ht_value = f\<rparr>"
  obtain s1 where s1: "h_insert H s (str_bytes ''rank'') (?e return_rank ''rank'') = Inr s1"
      "holds s1 [str_bytes ''rank'' \<mapsto> ?e return_rank ''rank''] (Suc 0)"
    using holds_insert [OF assms] cap3 by fastforce
  obtain s2 where s2: "h_insert H s1 (str_bytes ''uptime'') (?e get_uptime ''uptime'') = Inr s2"
      "holds s2 [str_bytes ''rank'' \<mapsto> ?e return_rank ''rank'',
        str_bytes ''uptime'' \<mapsto> ?e get_uptime ''uptime''] (Suc (Suc 0))"
    using holds_insert [OF s1(2), of "str_bytes ''uptime''"] cap3 ne by fastforce
  obtain s3 where s3: "h_insert H s2 (str_bytes ''test'') (?e benchmark_metric ''test'') = Inr s3"
      "holds s3 known_metrics (Suc (Suc (Suc 0)))"
    using holds_insert [OF s2(2), of "str_bytes ''test''"] cap3 ne unfolding known_metrics_def by fastforce
  show ?thesis using s1(1) s2(1) s3
    by (simp add: callbacks_def available_metrics_no_def eval_nat_numeral)
qed

lemma get_value_known:
  assumes "holds s known_metrics n"
  shows "get_value H s (Some a) = Inr (callback_of a)"
proof -
  obtain r where r: "h_find H s (str_bytes a) = Inr r" "map_option (h_get H s) r = known_metrics (str_bytes a)"
    using holds_find [OF assms] by blast
  have "map_option ht_value (map_option (h_get H s) r) = callback_of a"
    unfolding r(2) by (rule known_metrics_callback)
  then show ?thesis using r(1) by (simp add: get_value_def option.map_comp comp_def)
qed

end

interpretation cb: callback_store uth_ops uth_rep 9
  by unfold_locales simp

lemma HASH_CLEAR_rep: "uth_rep s es \<Longrightarrow> uth_rep (HASH_CLEAR s) []"
  by (auto simp: uth_rep_def HASH_CLEAR_def uth_inv_def small_def split: option.split)

text \<open>
  A storage in which exactly the known metrics are found, as \<open>init_known_metrics\<close> leaves it.
\<close>

definition knows_metrics :: "('s, htable) hash_ops \<Rightarrow> 's \<Rightarrow> bool" where
  "knows_metrics H s \<longleftrightarrow> (\<forall>a. get_value H s (Some a) = Inr (callback_of a))"

lemma init_knows:
  assumes "uth_rep s es"
  shows "\<exists>s1. init_known_metrics uth_ops HASH_CLEAR s = Inr s1 \<and> knows_metrics uth_ops s1 \<and>
    (\<exists>es1. uth_rep s1 es1)"
proof -
  obtain s1 where s1: "init_known_metrics uth_ops HASH_CLEAR s = Inr s1" "uth.holds s1 known_metrics 3"
    using cb.load_known [OF uth.holds_empty [OF HASH_CLEAR_rep [OF assms]]]
    by (auto simp: init_known_metrics_def)
  have "\<exists>es1. uth_rep s1 es1" using s1(2) unfolding uth.holds_def by blast
  then show ?thesis using s1(1) cb.get_value_known [OF s1(2)] by (simp add: knows_metrics_def)
qed

text \<open>
  C20. Loading the known metrics into the hash table of uthash.h, whatever elements it had before,
  succeeds; afterwards the lookup of an alias returns the callback that the table \<open>callbacks\<close> pairs
  it with, and NULL for every other alias; and the storage can be freed.
\<close>

theorem init_known_metrics_lookup:
  assumes "uth_rep s es"
  shows "\<exists>s1. init_known_metrics uth_ops HASH_CLEAR s = Inr s1 \<and>
    (\<forall>a. get_value uth_ops s1 (Some a) = Inr (map_of (map prod.swap callbacks) a)) \<and>
    (\<exists>s2. free_storage uth_ops s1 = Inr s2 \<and> head s2 = None)"
proof -
  obtain s1 es1 where s1: "init_known_metrics uth_ops HASH_CLEAR s = Inr s1"
      "knows_metrics uth_ops s1" "uth_rep s1 es1"
    using init_knows [OF assms] by blast
  have "callback_of a = map_of (map prod.swap callbacks) a" for a
    by (simp add: callback_of_def callbacks_def)
  then have g: "\<forall>a. get_value uth_ops s1 (Some a) = Inr (map_of (map prod.swap callbacks) a)"
    using s1(2) by (simp add: knows_metrics_def)
  have "uth_inv s1 (map snd es1)" using s1(3) by (simp add: uth_rep_def)
  then obtain s2 where "HASH_ITER_DEL s1 = Inr s2" "uth_inv s2 []" using HASH_ITER_DEL_ok by blast
  then have "free_storage uth_ops s1 = Inr s2" "head s2 = None"
    by (simp_all add: free_storage_def uth_inv_def)
  then show ?thesis using s1(1) g by blast
qed

theorem init_known_metrics_lookup_witness:
  "\<exists>s1. init_known_metrics uth_ops HASH_CLEAR (uth_empty \<lparr>ht_key = [], ht_value = return_rank\<rparr>) = Inr s1 \<and>
    (\<forall>a. get_value uth_ops s1 (Some a) = Inr (map_of (map prod.swap callbacks) a)) \<and>
    (\<exists>s2. free_storage uth_ops s1 = Inr s2 \<and> head s2 = None)"
  by (rule init_known_metrics_lookup [OF uth_empty_rep])

end
