(* ===== verification/Metric_Type.thy ===== *)
theory Metric_Type
  imports Storage Messages
begin

text \<open>
  The computation of the requested metrics (metric_type.c): a metric is a custom one, found in the
  storage of theory Storage, or the name of a PAPI event. PAPI is a parameter: a state and the three
  functions that the code calls on it. The global array \<open>Events\<close> is part of the state; the array of
  results arrives with whatever it contains, so that what is left unwritten can be seen.
\<close>

section \<open>PAPI and the state\<close>

text \<open>
  The code of an event name (None: not PAPI_OK), the start of a counter (whether PAPI_OK), and its stop with
  the counted value (None: not PAPI_OK).
\<close>

record 'p papi =
  PAPI_event_name_to_code :: "'p \<Rightarrow> string \<Rightarrow> int option"
  PAPI_start_counters :: "'p \<Rightarrow> int \<Rightarrow> bool \<times> 'p"
  PAPI_stop_counters :: "'p \<Rightarrow> int option \<times> 'p"

type_synonym 'p cm_state = "int list option \<times> 'p"

text \<open>The cells of the new array have any value; 0 stands for it, as every cell is written before it is read.\<close>

definition realloc_papi_events :: "int \<Rightarrow> int list option" where
  "realloc_papi_events sz = Some (replicate (nat sz) 0)"

section \<open>One metric\<close>

text \<open>
  The value of the metric \<open>name\<close>: \<open>Some\<close> value, or \<open>None\<close> where \<open>compute_metric\<close> reports
  an error and returns; with the number of PAPI metrics so far.
\<close>

definition papi_metric :: "'p papi \<Rightarrow> string \<Rightarrow> 'p cm_state \<Rightarrow> int \<Rightarrow>
    (int option \<times> 'p cm_state \<times> int) res" where
  "papi_metric P name st nr =
     (case st of (events, p) \<Rightarrow>
       (case events of
          None \<Rightarrow> Inl NullDeref
        | Some ev \<Rightarrow>
            (case PAPI_event_name_to_code P p name of
               None \<Rightarrow> Inr (None, (events, p), nr)
             | Some code \<Rightarrow>
                 bind_r (arr_set ev nr code) (\<lambda>ev1.
                 let (started, p1) = PAPI_start_counters P p code in
                 if \<not> started then Inr (None, (Some ev1, p1), nr)
                 else
                   let (v, p2) = PAPI_stop_counters P p1 in
                   Inr (v, (Some ev1, p2), nr + 1)))))"

definition metric_value :: "('s, htable) hash_ops \<Rightarrow> 's \<Rightarrow> environment \<Rightarrow> 'p papi \<Rightarrow> string option \<Rightarrow>
    'p cm_state \<Rightarrow> int \<Rightarrow> (int option \<times> 'p cm_state \<times> int) res" where
  "metric_value H s env P name st nr =
     bind_r (get_value H s name) (\<lambda>func.
       case func of
         Some f \<Rightarrow> bind_r (run_callback env f) (\<lambda>v. Inr (Some v, st, nr))
       | None \<Rightarrow> (case name of None \<Rightarrow> Inl NullDeref | Some a \<Rightarrow> papi_metric P a st nr))"

section \<open>The loop\<close>

definition same_value :: "int \<Rightarrow> aggregators" where
  "same_value v = \<lparr>agg_min = word_of_int v, agg_max = word_of_int v, agg_sum = word_of_int v\<rparr>"

function compute_loop :: "('s, htable) hash_ops \<Rightarrow> 's \<Rightarrow> environment \<Rightarrow> 'p papi \<Rightarrow> string option list \<Rightarrow>
    int \<Rightarrow> int \<Rightarrow> 'p cm_state \<Rightarrow> int \<Rightarrow> aggregators list \<Rightarrow> ('p cm_state \<times> aggregators list) res" where
  "compute_loop H s env P names sz i st nr vals =
     (if i < sz then
        bind_r (arr_get names i) (\<lambda>name.
        bind_r (metric_value H s env P name st nr) (\<lambda>(v, st1, nr1).
          case v of
            None \<Rightarrow> Inr (st1, vals)
          | Some x \<Rightarrow>
              bind_r (arr_set vals i (same_value x)) (\<lambda>vals1.
              compute_loop H s env P names sz (i + 1) st1 nr1 vals1)))
      else Inr (st, vals))"
  by pat_completeness auto
termination
  by (relation "measure (\<lambda>(H, s, env, P, names, sz, i, st, nr, vals). nat (sz - i))") auto

declare compute_loop.simps [simp del]

definition compute_metric :: "('s, htable) hash_ops \<Rightarrow> 's \<Rightarrow> environment \<Rightarrow> 'p papi \<Rightarrow> string option list \<Rightarrow>
    aggregators list \<Rightarrow> int \<Rightarrow> bool \<Rightarrow> 'p cm_state \<Rightarrow> ('p cm_state \<times> aggregators list) res" where
  "compute_metric H s env P names vals sz update st =
     compute_loop H s env P names sz 0
       (if update then (realloc_papi_events sz, snd st) else st) 0 vals"

section \<open>What the loop writes\<close>

definition env_ok :: "environment \<Rightarrow> bool" where
  "env_ok env \<longleftrightarrow> (\<forall>f. is_ok (run_callback env f))"

text \<open>PAPI may not deliver the event \<open>a\<close>: in some state its name is unknown, or the counter cannot be started or stopped.\<close>

definition papi_fails :: "'p papi \<Rightarrow> string \<Rightarrow> bool" where
  "papi_fails P a \<longleftrightarrow> (\<exists>p. case PAPI_event_name_to_code P p a of
     None \<Rightarrow> True
   | Some code \<Rightarrow> (case PAPI_start_counters P p code of
       (started, p1) \<Rightarrow> \<not> started \<or> fst (PAPI_stop_counters P p1) = None))"

lemma papi_metric_ok:
  assumes "0 \<le> nr" "nr < int (length ev)"
  shows "\<exists>v ev1 p1 nr1. papi_metric P a (Some ev, p) nr = Inr (v, (Some ev1, p1), nr1) \<and>
    length ev1 = length ev \<and> 0 \<le> nr1 \<and> nr1 \<le> nr + 1 \<and> (v = None \<longrightarrow> papi_fails P a)"
proof -
  obtain n where nr: "nr = int n" using assms(1) by (rule nonneg_int_cases)
  then have n: "nr = int n" "n < length ev" using assms(2) by simp_all
  show ?thesis
  proof (cases "PAPI_event_name_to_code P p a")
    case None
    then have "papi_fails P a" by (auto simp: papi_fails_def intro!: exI [of _ p])
    then show ?thesis using n None by (simp add: papi_metric_def)
  next
    case (Some code)
    obtain b p1 where st: "PAPI_start_counters P p code = (b, p1)" by fastforce
    obtain v p2 where sp: "PAPI_stop_counters P p1 = (v, p2)" by fastforce
    have "\<not> b \<or> v = None \<Longrightarrow> papi_fails P a" using Some st sp by (auto simp: papi_fails_def intro!: exI [of _ p])
    then show ?thesis using n Some st sp by (cases b) (simp_all add: papi_metric_def)
  qed
qed

lemma metric_value_ok:
  assumes "knows_metrics H s" "env_ok env" "0 \<le> nr" "nr < int (length ev)"
  shows "\<exists>v ev1 p1 nr1. metric_value H s env P (Some a) (Some ev, p) nr = Inr (v, (Some ev1, p1), nr1) \<and>
    length ev1 = length ev \<and> 0 \<le> nr1 \<and> nr1 \<le> nr + 1 \<and> (v = None \<longrightarrow> papi_fails P a) \<and>
    (\<forall>f. callback_of a = Some f \<longrightarrow> (\<exists>x. run_callback env f = Inr x \<and> v = Some x \<and> ev1 = ev \<and> p1 = p))"
proof (cases "callback_of a")
  case None
  then show ?thesis using assms(1) papi_metric_ok [OF assms(3,4), of P a p]
    by (simp add: metric_value_def knows_metrics_def)
next
  case (Some f)
  obtain x where "run_callback env f = Inr x" using assms(2) by (auto simp: env_ok_def elim: is_okE)
  then show ?thesis using assms(1,3) Some by (simp add: metric_value_def knows_metrics_def)
qed

text \<open>
  The entries from \<open>i\<close> up to the first metric that PAPI cannot deliver are written, the others are
  left as they were; a custom metric never stops the loop and its entry holds its callback's value.
\<close>

definition written :: "environment \<Rightarrow> string option list \<Rightarrow> nat \<Rightarrow> nat \<Rightarrow> aggregators list \<Rightarrow> aggregators list \<Rightarrow> bool" where
  "written env names i k vals vals1 \<longleftrightarrow> length vals1 = length vals \<and>
     (\<forall>j < length vals. j < i \<or> k \<le> j \<longrightarrow> vals1 ! j = vals ! j) \<and>
     (\<forall>j. i \<le> j \<and> j < k \<longrightarrow> (\<exists>v. vals1 ! j = same_value v \<and>
        (\<forall>f. callback_of (the (names ! j)) = Some f \<longrightarrow> run_callback env f = Inr v)))"

lemma compute_loop_ok:
  assumes "knows_metrics H s" "env_ok env" "\<forall>a \<in> set names. a \<noteq> None"
    and "n = length names" "n \<le> length vals" "n \<le> length ev" "i \<le> n" "0 \<le> nr" "nr \<le> int i"
  shows "\<exists>ev1 p1 vals1 k. compute_loop H s env P names (int n) (int i) (Some ev, p) nr vals
      = Inr ((Some ev1, p1), vals1) \<and> length ev1 = length ev \<and> i \<le> k \<and> k \<le> n \<and>
      written env names i k vals vals1 \<and>
      (k < n \<longrightarrow> callback_of (the (names ! k)) = None \<and> papi_fails P (the (names ! k)))"
  using assms(5-)
proof (induction "n - i" arbitrary: i ev p nr vals)
  case 0
  then have "i = n" by simp
  moreover then have "compute_loop H s env P names (int n) (int i) (Some ev, p) nr vals = Inr ((Some ev, p), vals)"
    by (simp add: compute_loop.simps)
  moreover have "written env names i i vals vals" by (auto simp: written_def)
  ultimately show ?case by blast
next
  case (Suc d)
  then have i: "i < n" by simp
  obtain a where a: "names ! i = Some a" using assms(3,4) i nth_mem by fastforce
  have g: "arr_get names (int i) = Inr (Some a)" using assms(4) i a by simp
  obtain v ev1 p1 nr1 where m: "metric_value H s env P (Some a) (Some ev, p) nr = Inr (v, (Some ev1, p1), nr1)"
      "length ev1 = length ev" "0 \<le> nr1" "nr1 \<le> nr + 1" "v = None \<longrightarrow> papi_fails P a"
      "\<forall>f. callback_of a = Some f \<longrightarrow> (\<exists>x. run_callback env f = Inr x \<and> v = Some x \<and> ev1 = ev \<and> p1 = p)"
    using metric_value_ok [OF assms(1,2), of nr ev P a p] Suc.prems i by auto
  note step = compute_loop.simps [of H s env P names "int n" "int i" "(Some ev, p)" nr vals]
  show ?case
  proof (cases v)
    case None
    then have "callback_of a = None" "papi_fails P a" using m(5,6) by (cases "callback_of a"; auto)+
    then show ?thesis using step g m(1,2) None i a by (auto simp: written_def)
  next
    case (Some x)
    let ?vs = "vals[i := same_value x]"
    have d: "d = n - Suc i" using Suc.hyps(2) by linarith
    have w: "arr_set vals (int i) (same_value x) = Inr ?vs" using i Suc.prems(1) by simp
    obtain ev2 p2 vals1 k where IH: "compute_loop H s env P names (int n) (int (Suc i)) (Some ev1, p1) nr1 ?vs
        = Inr ((Some ev2, p2), vals1)" "length ev2 = length ev1" "Suc i \<le> k" "k \<le> n"
        "written env names (Suc i) k ?vs vals1" "k < n \<longrightarrow> callback_of (the (names ! k)) = None \<and> papi_fails P (the (names ! k))"
      using Suc.hyps(1) [OF d, of ?vs ev1 nr1 p1] Suc.prems m(2-4) i by auto
    have "written env names i k vals vals1"
      unfolding written_def
    proof (intro conjI allI impI)
      show "length vals1 = length vals" using IH(5) by (simp add: written_def)
      show "vals1 ! j = vals ! j" if "j < length vals" "j < i \<or> k \<le> j" for j
        using IH(3,5) that by (auto simp: written_def)
      show "\<exists>v. vals1 ! j = same_value v \<and> (\<forall>f. callback_of (the (names ! j)) = Some f \<longrightarrow>
          run_callback env f = Inr v)" if "i \<le> j \<and> j < k" for j
      proof (cases "j = i")
        case True
        then have "vals1 ! j = same_value x" using IH(5) i Suc.prems(1) by (auto simp: written_def)
        then show ?thesis using True m(6) Some a by auto
      next
        case False
        then show ?thesis using IH(5) that by (auto simp: written_def)
      qed
    qed
    moreover have "compute_loop H s env P names (int n) (int i) (Some ev, p) nr vals = Inr ((Some ev2, p2), vals1)"
      using step g m(1) Some w IH(1) i by (simp add: add.commute)
    moreover have "i \<le> k" "length ev2 = length ev" using IH(2,3) m(2) by simp_all
    ultimately show ?thesis using IH(4,6) by blast
  qed
qed


text \<open>Without an array, as before the first reading of a file, the first metric that is not custom gives PAPI a NULL pointer.\<close>

lemma compute_metric_null:
  assumes "knows_metrics H s" "callback_of a = None"
  shows "compute_metric H s env P (Some a # names) vals (int (length (Some a # names))) False (None, p) = Inl NullDeref"
  using assms
  by (simp add: compute_metric_def compute_loop.simps metric_value_def knows_metrics_def papi_metric_def arr_get_def)

definition sample_env :: environment where
  "sample_env = \<lparr>env_rank = 3, env_ticks = 100, env_uptime = Some (12, 34)\<rparr>"

lemma sample_env_ok: "env_ok sample_env"
  unfolding env_ok_def
proof
  fix f
  show "is_ok (run_callback sample_env f)"
    by (cases f) (simp_all add: run_callback_def sample_env_def c_long_def)
qed

definition no_papi :: "unit papi" where
  "no_papi = \<lparr>PAPI_event_name_to_code = (\<lambda>_ _. None), PAPI_start_counters = (\<lambda>p _. (False, p)),
     PAPI_stop_counters = (\<lambda>p. (None, p))\<rparr>"

text \<open>A PAPI that counts 5 of every event.\<close>

definition five_papi :: "unit papi" where
  "five_papi = \<lparr>PAPI_event_name_to_code = (\<lambda>_ _. Some 1), PAPI_start_counters = (\<lambda>p _. (True, p)),
     PAPI_stop_counters = (\<lambda>p. (Some 5, p))\<rparr>"


end
