(* ===== verification/Aggregator_State.thy ===== *)
theory Aggregator_State
  imports Metric_Type
begin

text \<open>
  The structs of a monitoring process: \<open>sys_metric_t\<close> (maggs_types.h), \<open>node_state_t\<close> and
  \<open>metrics_aggregator_t\<close> (metrics_aggregator.h), with the fields of both builds. A pointer to an
  array is an option of a list, NULL being None. The mutexes, the condition variables and the two
  FILE pointers carry no data of their own; the waiting and signalling is modelled in theory
  Root_Results.
\<close>

record sys_metric =
  sm_min :: long
  sm_max :: long
  sm_avg :: double

text \<open>A stone or the connection manager is None before it has been created.\<close>

record node_state =
  parent_addr :: string
  own_addr :: string
  multi_stone :: "int option"
  bridge_stone :: "int option"
  split_stone :: "int option"
  terminal_stone :: "int option"
  agreg_terminal_stone :: "int option"
  conn_mgr :: "nat option"

record 'h metrics_aggregator =
  aliases_file :: string
  max_timestamps :: "64 word"
  ag_max_degree :: int
  pulse_interval :: "32 word"
  desired_metrics :: "string option list option"
  total_metrics :: int
  old_nr_of_metrics :: int
  current_state :: node_state
  benchmarking_results :: "double list option"
  monitoring_results :: "sys_metric list option"
  root_finished :: bool
  results_available :: bool
  leafs_finished :: bool
  hash_ts :: 'h

text \<open>The count of a timestamp (\<open>h_timestamp_t\<close>, without its hash handle).\<close>

record h_timestamp =
  ht_count :: "64 word"
  ht_ts :: "64 word"

abbreviation MAX_FILENAME_LENGTH :: nat where "MAX_FILENAME_LENGTH \<equiv> 100"

abbreviation ADDRESS_SIZE :: nat where "ADDRESS_SIZE \<equiv> 2048"

text \<open>
  \<open>initialize_metrics_aggregator\<close>: the fields that it sets; the others keep the contents of the allocated
  memory, which is the argument \<open>raw\<close>. The file name is copied into a char array.
\<close>

definition initialize_metrics_aggregator :: "bool \<Rightarrow> 'h \<Rightarrow> 'h metrics_aggregator \<Rightarrow> string \<Rightarrow> 64 word \<Rightarrow>
    int \<Rightarrow> 32 word \<Rightarrow> 'h metrics_aggregator res" where
  "initialize_metrics_aggregator benchmarking no_table raw a_f ts_nr d pulse =
     (if MAX_FILENAME_LENGTH \<le> length a_f then Inl BufferOverflow
      else
        let ag = raw\<lparr>aliases_file := a_f, ag_max_degree := d, pulse_interval := pulse,
              results_available := False, root_finished := False, total_metrics := 0,
              old_nr_of_metrics := 0, desired_metrics := None\<rparr>
        in Inr (if benchmarking
                then ag\<lparr>max_timestamps := ts_nr, benchmarking_results := None\<rparr>
                else ag\<lparr>leafs_finished := False, hash_ts := no_table, monitoring_results := None\<rparr>))"

text \<open>The loop that frees the old aliases touches every cell below \<open>n\<close>.\<close>

definition free_aliases :: "int \<Rightarrow> string option list \<Rightarrow> unit res" where
  "free_aliases n xs = (if n \<le> int (length xs) then Inr () else Inl OutOfBounds)"

definition free_desired :: "'h metrics_aggregator \<Rightarrow> 'h metrics_aggregator res" where
  "free_desired ag =
     (case desired_metrics ag of
        None \<Rightarrow> Inr ag
      | Some xs \<Rightarrow> bind_r (free_aliases (old_nr_of_metrics ag) xs) (\<lambda>_.
          Inr (ag\<lparr>desired_metrics := None\<rparr>)))"

text \<open>A long passed as an int parameter.\<close>

definition long_to_int :: "int \<Rightarrow> int" where
  "long_to_int x = signed_take_bit 31 x"

lemma long_to_int_id: "int_min \<le> x \<Longrightarrow> x \<le> int_max \<Longrightarrow> long_to_int x = x"
  unfolding long_to_int_def by (rule signed_take_bit_int_eq_self) auto

end
