(* ===== verification/Crawler.thy ===== *)
theory Crawler
  imports Aggregator_State
begin

text \<open>
  Reading the metric aliases file (metrics_crawler.c): the number of metrics and one alias per line, read with
  fscanf. A file is its text, None where it cannot be opened. The aliases are kept in the aggregator's
  array \<open>desired_metrics\<close>, and \<open>metrics_crawler_results_file\<close> also computes whether the file has
  changed (\<open>needs_sync\<close>). \<open>measured\<close> says what the computed values of a list of aliases are.
\<close>

section \<open>fscanf\<close>

definition isspace :: "char \<Rightarrow> bool" where
  "isspace c \<longleftrightarrow> (of_char c :: nat) \<in> {9, 10, 11, 12, 13, 32}"

definition isdigit :: "char \<Rightarrow> bool" where
  "isdigit c \<longleftrightarrow> 48 \<le> (of_char c :: nat) \<and> (of_char c :: nat) \<le> 57"

definition skip_ws :: "string \<Rightarrow> string" where
  "skip_ws = dropWhile isspace"

text \<open>The return values -1, 0 and 1 of a call with one conversion, with the value and the rest of the input.\<close>

datatype 'a conv = Eof | NoMatch | Conv 'a string

definition digits_value :: "string \<Rightarrow> int" where
  "digits_value = foldl (\<lambda>n c. 10 * n + (of_char c - 48)) 0"

definition scan_ld :: "string \<Rightarrow> int conv" where
  "scan_ld s =
     (case skip_ws s of
        [] \<Rightarrow> Eof
      | c # cs \<Rightarrow>
          let (sg, t) = (if c = CHR ''-'' then (-1, cs) else if c = CHR ''+'' then (1, cs) else (1, c # cs));
              ds = takeWhile isdigit t
          in if ds = [] then NoMatch else Conv (sg * digits_value ds) (dropWhile isdigit t))"

definition scan_s :: "string \<Rightarrow> string conv" where
  "scan_s s =
     (case skip_ws s of
        [] \<Rightarrow> Eof
      | t \<Rightarrow> Conv (takeWhile (Not \<circ> isspace) t) (dropWhile (Not \<circ> isspace) t))"

section \<open>The number of metrics\<close>

text \<open>
  At the end of the file (return value -1) the code goes on with the old contents of \<open>*nr\<close>, which may never
  have been written. A number outside the range of a long is undefined.
\<close>

definition read_number :: "int option \<Rightarrow> string option \<Rightarrow> int res" where
  "read_number nr file =
     (case file of
        None \<Rightarrow> Inl (ExitCode (-1))
      | Some txt \<Rightarrow>
          (case scan_ld txt of
             Eof \<Rightarrow> (case nr of None \<Rightarrow> Inl Uninitialised | Some n \<Rightarrow> Inr n)
           | NoMatch \<Rightarrow> Inl (ExitCode (-1))
           | Conv v rest \<Rightarrow> c_long v))"

definition initialize_metrics_crawler_number_from_file :: "'h metrics_aggregator \<Rightarrow> int option \<Rightarrow>
    string option \<Rightarrow> ('h metrics_aggregator \<times> int) res" where
  "initialize_metrics_crawler_number_from_file ag nr file =
     bind_r (read_number nr file) (\<lambda>n.
     bind_r (free_desired (ag\<lparr>old_nr_of_metrics := total_metrics ag, total_metrics := n\<rparr>)) (\<lambda>ag1.
     Inr (ag1\<lparr>desired_metrics := (if n < 0 then None else Some (replicate (nat n) None))\<rparr>, n)))"

definition initialize_metrics_crawler_number_from_memory :: "'h metrics_aggregator \<Rightarrow> int" where
  "initialize_metrics_crawler_number_from_memory ag = total_metrics ag"

section \<open>The aliases and their metrics\<close>

text \<open>What the computation of metrics needs from the process: theories Storage and Metric_Type.\<close>

record ('s, 'p) platform =
  pl_hash :: "('s, htable) hash_ops"
  pl_store :: 's
  pl_env :: environment
  pl_papi :: "'p papi"

definition compute_desired :: "('s, 'p) platform \<Rightarrow> 'h metrics_aggregator \<Rightarrow> aggregators list \<Rightarrow> bool \<Rightarrow>
    'p cm_state \<Rightarrow> ('p cm_state \<times> aggregators list) res" where
  "compute_desired pl ag result update cm =
     (let n = long_to_int (total_metrics ag) in
      case desired_metrics ag of
        None \<Rightarrow> if 0 < n then Inl NullDeref
                else compute_metric (pl_hash pl) (pl_store pl) (pl_env pl) (pl_papi pl) [] result n update cm
      | Some names \<Rightarrow>
          compute_metric (pl_hash pl) (pl_store pl) (pl_env pl) (pl_papi pl) names result n update cm)"

definition metrics_crawler_results_memory :: "('s, 'p) platform \<Rightarrow> 'h metrics_aggregator \<Rightarrow>
    aggregators list \<Rightarrow> 'p cm_state \<Rightarrow> ('p cm_state \<times> aggregators list) res" where
  "metrics_crawler_results_memory pl ag result cm = compute_desired pl ag result False cm"

text \<open>
  The loop over the lines: the next word is read before the counter is compared. The state is the
  array of aliases, the counter and \<open>needs_sync\<close>; \<open>strcmp\<close> runs only on an alias that is not NULL.
\<close>

function read_aliases :: "int \<Rightarrow> int \<Rightarrow> int \<Rightarrow> string \<Rightarrow> string option list \<Rightarrow> int \<Rightarrow> bool \<Rightarrow>
    (string option list \<times> bool) res" where
  "read_aliases number old tot txt names i sync =
     (case scan_s txt of
        Conv line rest \<Rightarrow>
          if MAX_LENGTH_ALIAS \<le> length line then Inl BufferOverflow
          else if i < tot then
            bind_r (if number \<noteq> old then Inr True
                    else bind_r (arr_get names i) (\<lambda>a.
                      Inr (case a of None \<Rightarrow> sync | Some b \<Rightarrow> if b \<noteq> line then True else sync)))
              (\<lambda>sync1.
            bind_r (arr_set names i (Some line)) (\<lambda>names1.
            read_aliases number old tot (skip_ws rest) names1 (i + 1) sync1))
          else Inr (names, sync)
      | _ \<Rightarrow> Inr (names, sync))"
  by pat_completeness auto
termination
  by (relation "measure (\<lambda>(number, old, tot, txt, names, i, sync). nat (tot - i))") auto

declare read_aliases.simps [simp del]

definition metrics_crawler_results_file :: "('s, 'p) platform \<Rightarrow> 'h metrics_aggregator \<Rightarrow>
    aggregators list \<Rightarrow> string option \<Rightarrow> 'p cm_state \<Rightarrow>
    ('h metrics_aggregator \<times> aggregators list \<times> bool \<times> 'p cm_state) res" where
  "metrics_crawler_results_file pl ag result file cm =
     (case file of
        None \<Rightarrow> Inl (ExitCode (-1))
      | Some txt \<Rightarrow>
          bind_r
            (case scan_ld txt of
               Eof \<Rightarrow> Inl (ExitCode (-1))
             | NoMatch \<Rightarrow> Inr (0, skip_ws txt)
             | Conv v rest \<Rightarrow> bind_r (c_long v) (\<lambda>n. Inr (n, skip_ws rest)))
            (\<lambda>(number, txt1).
          bind_r
            (case desired_metrics ag of
               None \<Rightarrow> (case read_aliases number (old_nr_of_metrics ag) (total_metrics ag) txt1 [] 0 False of
                          Inr (_, sync) \<Rightarrow> Inr (None, sync)
                        | Inl e \<Rightarrow> Inl (if e = OutOfBounds then NullDeref else e))
             | Some names \<Rightarrow>
                 bind_r (read_aliases number (old_nr_of_metrics ag) (total_metrics ag) txt1 names 0 False)
                   (\<lambda>(names1, sync). Inr (Some names1, sync)))
            (\<lambda>(names1, sync).
          let ag1 = ag\<lparr>desired_metrics := names1\<rparr> in
          bind_r (compute_desired pl ag1 result True cm) (\<lambda>(cm1, result1).
          Inr (ag1, result1, sync, cm1)))))"

section \<open>Reading a well-formed file\<close>

text \<open>The text of a file: the number of aliases, then one alias per line.\<close>

fun decimal :: "nat \<Rightarrow> string" where
  "decimal n = (if n < 10 then [char_of (48 + n)] else decimal (n div 10) @ [char_of (48 + n mod 10)])"

declare decimal.simps [simp del]

text \<open>An alias as a line of the file: not empty, no white space, and short enough for the char array.\<close>

definition alias_ok :: "string \<Rightarrow> bool" where
  "alias_ok a \<longleftrightarrow> a \<noteq> [] \<and> list_all (Not \<circ> isspace) a \<and> length a < MAX_LENGTH_ALIAS"

lemma digits_value_snoc: "digits_value (s @ [c]) = 10 * digits_value s + (of_char c - 48)"
  by (simp add: digits_value_def)

lemma of_digit: "d < 10 \<Longrightarrow> (of_char (char_of (48 + d :: nat)) :: nat) = 48 + d"
  by (simp add: of_char_mod_256)

lemma of_digit_int: "d < 10 \<Longrightarrow> (of_char (char_of (48 + d :: nat)) :: int) = 48 + int d"
  using of_nat_of_char [where 'a = int, of "char_of (48 + d)"] of_digit [of d] by simp

lemma decimal_ok:
  "digits_value (decimal n) = int n \<and> list_all isdigit (decimal n) \<and> decimal n \<noteq> []"
proof (induction n rule: decimal.induct)
  case (1 n)
  have d: "isdigit (char_of (48 + d))" if "d < 10" for d :: nat
    using that by (simp add: isdigit_def of_digit)
  show ?case
  proof (cases "n < 10")
    case True
    then show ?thesis using digits_value_snoc [of "[]"] d
      by (simp add: decimal.simps [of n] of_digit_int) (simp add: digits_value_def)
  next
    case False
    have "int n = 10 * int (n div 10) + int (n mod 10)" by presburger
    then show ?thesis using 1 False d [of "n mod 10"]
      by (simp add: decimal.simps [of n] digits_value_snoc of_digit_int)
  qed
qed

lemma digit_not_space: "isdigit c \<Longrightarrow> \<not> isspace c \<and> c \<noteq> CHR ''-'' \<and> c \<noteq> CHR ''+''"
  by (auto simp: isdigit_def isspace_def)

lemma skip_ws_digit: "isdigit c \<Longrightarrow> skip_ws (c # s) = c # s"
  using digit_not_space by (simp add: skip_ws_def)

lemma scan_decimal: "scan_ld (decimal n @ CHR 0x0A # t) = Conv (int n) (CHR 0x0A # t)"
proof -
  obtain c cs where d: "decimal n = c # cs" using decimal_ok [of n] by (cases "decimal n") auto
  have c: "isdigit c" "list_all isdigit cs" "digits_value (c # cs) = int n"
    using decimal_ok [of n] d by auto
  have "\<not> isdigit (CHR 0x0A)" by (simp add: isdigit_def)
  then have "takeWhile isdigit (c # cs @ CHR 0x0A # t) = c # cs"
    "dropWhile isdigit (c # cs @ CHR 0x0A # t) = CHR 0x0A # t"
    using c(1,2) by (simp_all add: list_all_iff takeWhile_append2 dropWhile_append2)
  then show ?thesis using c(3) digit_not_space [OF c(1)] skip_ws_digit [OF c(1)]
    by (simp add: scan_ld_def d)
qed

lemma alias_not_space: "alias_ok (c # cs) \<Longrightarrow> \<not> isspace c"
  by (simp add: alias_ok_def)

lemma newline_space: "isspace (CHR 0x0A)"
  by (simp add: isspace_def)

lemma scan_alias: "alias_ok a \<Longrightarrow> scan_s (a @ CHR 0x0A # t) = Conv a (CHR 0x0A # t)"
  using newline_space
  by (cases a) (auto simp: alias_ok_def scan_s_def skip_ws_def list_all_iff takeWhile_append2
      dropWhile_append2 comp_def)

lemma skip_ws_idem: "skip_ws (skip_ws s) = skip_ws s"
  by (simp add: skip_ws_def)

lemma scan_skip: "scan_s (skip_ws s) = scan_s s"
  by (simp add: scan_s_def skip_ws_idem)

lemma read_skip: "read_aliases number old tot (skip_ws s) names i sync = read_aliases number old tot s names i sync"
  by (simp add: read_aliases.simps [of _ _ _ "skip_ws s"] read_aliases.simps [of _ _ _ s] scan_skip)

lemma skip_newline: "skip_ws (CHR 0x0A # s) = skip_ws s"
  using newline_space by (simp add: skip_ws_def)

lemma read_newline:
  "read_aliases number old tot (CHR 0x0A # s) names i sync = read_aliases number old tot s names i sync"
  using read_skip [of number old tot "CHR 0x0A # s"] read_skip [of number old tot s]
  by (simp add: skip_newline)

definition lines_of :: "string list \<Rightarrow> string" where
  "lines_of names = concat (map (\<lambda>a. a @ [CHR 0x0A]) names)"

lemma lines_of_simps [simp]:
  "lines_of [] = []" "lines_of (a # names) = a @ CHR 0x0A # lines_of names"
  by (simp_all add: lines_of_def)

text \<open>Some alias of the array, from index \<open>i\<close> on, is not the one of the file.\<close>

definition differs :: "string option list \<Rightarrow> nat \<Rightarrow> string list \<Rightarrow> bool" where
  "differs arr i names \<longleftrightarrow> (\<exists>j < length names. \<exists>b. arr ! (i + j) = Some b \<and> b \<noteq> names ! j)"

lemma differs_Cons:
  "differs arr i (a # names) \<longleftrightarrow> (\<exists>b. arr ! i = Some b \<and> b \<noteq> a) \<or> differs arr (Suc i) names"
  unfolding differs_def by (auto simp: less_Suc_eq_0_disj)

lemma read_aliases_ok:
  assumes "list_all alias_ok names" "i + length names = tot" "length arr = tot"
  shows "read_aliases number old (int tot) (lines_of names) arr (int i) sync =
    Inr (take i arr @ map Some names,
         sync \<or> (names \<noteq> [] \<and> number \<noteq> old) \<or> (number = old \<and> differs arr i names))"
  using assms
proof (induction names arbitrary: i arr sync)
  case Nil
  then show ?case by (simp add: read_aliases.simps scan_s_def skip_ws_def differs_def)
next
  case (Cons a names)
  have i: "i < tot" "i < length arr" using Cons.prems by auto
  define sy where "sy = (if number \<noteq> old then True
    else case arr ! i of None \<Rightarrow> sync | Some b \<Rightarrow> if b \<noteq> a then True else sync)"
  have dif: "differs (arr[i := Some a]) (Suc i) names \<longleftrightarrow> differs arr (Suc i) names"
    by (simp add: differs_def)
  have "read_aliases number old (int tot) (lines_of (a # names)) arr (int i) sync =
      read_aliases number old (int tot) (lines_of names) (arr[i := Some a]) (int (Suc i)) sy"
    using Cons.prems(1) i scan_alias [of a "lines_of names"]
    by (simp add: read_aliases.simps [of _ _ _ "a @ CHR 0x0A # lines_of names"] read_skip
        read_newline sy_def alias_ok_def add.commute)
  also have "\<dots> = Inr (take (Suc i) (arr[i := Some a]) @ map Some names,
      sy \<or> (names \<noteq> [] \<and> number \<noteq> old) \<or> (number = old \<and> differs arr (Suc i) names))"
    using Cons.IH [of "Suc i" "arr[i := Some a]" sy] Cons.prems by (simp add: dif)
  also have "take (Suc i) (arr[i := Some a]) = take i arr @ [Some a]"
    using i by (simp add: take_Suc_conv_app_nth)
  finally show ?case by (auto simp: differs_Cons sy_def split: option.splits)
qed

text \<open>The text of a file that lists the aliases \<open>names\<close>.\<close>

definition aliases_text :: "string list \<Rightarrow> string" where
  "aliases_text names = decimal (length names) @ CHR 0x0A # lines_of names"

text \<open>The array of aliases has as many cells as the current number of metrics.\<close>

definition desired_ok :: "'h metrics_aggregator \<Rightarrow> bool" where
  "desired_ok ag \<longleftrightarrow> 0 \<le> total_metrics ag \<and>
     (case desired_metrics ag of None \<Rightarrow> True | Some xs \<Rightarrow> int (length xs) = total_metrics ag)"

text \<open>The aggregator after a file with \<open>n\<close> aliases has been counted, and after they have been read.\<close>

definition counted :: "'h metrics_aggregator \<Rightarrow> nat \<Rightarrow> 'h metrics_aggregator" where
  "counted ag n = ag\<lparr>old_nr_of_metrics := total_metrics ag, total_metrics := int n,
     desired_metrics := Some (replicate n None)\<rparr>"

definition crawled :: "'h metrics_aggregator \<Rightarrow> string list \<Rightarrow> 'h metrics_aggregator" where
  "crawled ag names = (counted ag (length names))\<lparr>desired_metrics := Some (map Some names)\<rparr>"

lemma crawled_ok: "desired_ok (crawled ag names)"
  by (simp add: crawled_def counted_def desired_ok_def)

lemma number_from_text:
  assumes "desired_ok ag" "int (length names) \<le> long_max"
  shows "initialize_metrics_crawler_number_from_file ag nr (Some (aliases_text names)) =
    Inr (counted ag (length names), int (length names))"
  using assms
  by (cases "desired_metrics ag") (auto simp: initialize_metrics_crawler_number_from_file_def
      read_number_def aliases_text_def scan_decimal c_long_ok free_desired_def free_aliases_def
      desired_ok_def counted_def)

text \<open>
  The measured values: up to some position \<open>k\<close> every entry is a single value in minimum, maximum and sum, and that of a custom
  metric is its callback's, whether it stands before or behind PAPI events; \<open>k\<close> is the end of the list, or a PAPI event that
  PAPI may not deliver. The entries from \<open>k\<close> on hold what the memory held before.
\<close>

definition measured :: "('s, 'p) platform \<Rightarrow> string list \<Rightarrow> aggregators list \<Rightarrow> bool" where
  "measured pl names g \<longleftrightarrow> (\<exists>k \<le> length names.
     (k < length names \<longrightarrow> callback_of (names ! k) = None \<and> papi_fails (pl_papi pl) (names ! k)) \<and>
     (\<forall>j < k. \<exists>v. g ! j = same_value v \<and> (\<forall>f. callback_of (names ! j) = Some f \<longrightarrow> run_callback (pl_env pl) f = Inr v)))"

lemma written_measured:
  assumes "written (pl_env pl) (map Some names) 0 k vals g" "k \<le> length names"
    and "k < length names \<longrightarrow> callback_of (names ! k) = None \<and> papi_fails (pl_papi pl) (names ! k)"
  shows "measured pl names g"
  using assms unfolding measured_def written_def by (intro exI [of _ k]) auto

lemma results_from_text:
  assumes "list_all alias_ok names" "int (length names) \<le> int_max"
    and "knows_metrics (pl_hash pl) (pl_store pl)" "env_ok (pl_env pl)" "length result = length names"
  shows "\<exists>result1 ev p1 k. metrics_crawler_results_file pl (counted ag (length names)) result
      (Some (aliases_text names)) cm =
      Inr (crawled ag names, result1, names \<noteq> [] \<and> int (length names) \<noteq> total_metrics ag, (Some ev, p1)) \<and>
    length ev = length names \<and> k \<le> length names \<and> written (pl_env pl) (map Some names) 0 k result result1 \<and>
    (k < length names \<longrightarrow> callback_of (names ! k) = None \<and> papi_fails (pl_papi pl) (names ! k))"
proof -
  obtain ev p1 result1 k where c: "compute_metric (pl_hash pl) (pl_store pl) (pl_env pl) (pl_papi pl)
        (map Some names) result (int (length names)) True cm = Inr ((Some ev, p1), result1)"
      "length ev = length names" "k \<le> length names" "written (pl_env pl) (map Some names) 0 k result result1"
      "k < length names \<longrightarrow> callback_of (names ! k) = None \<and> papi_fails (pl_papi pl) (names ! k)"
    using compute_loop_ok [OF assms(3,4), of "map Some names" "length names" result
        "replicate (length names) 0" 0 0 "pl_papi pl" "snd cm"] assms(5)
    by (auto simp: compute_metric_def realloc_papi_events_def)
  have "\<not> differs (replicate (length names) None) 0 names" by (simp add: differs_def)
  then have r: "read_aliases (int (length names)) (total_metrics ag) (int (length names))
      (skip_ws (CHR 0x0A # lines_of names)) (replicate (length names) None) 0 False =
      Inr (map Some names, names \<noteq> [] \<and> int (length names) \<noteq> total_metrics ag)"
    using read_aliases_ok [OF assms(1), of 0 "length names" "replicate (length names) None"
        "int (length names)" "total_metrics ag" False]
    by (simp add: read_skip read_newline)
  have "c_long (int (length names)) = Inr (int (length names))" using assms(2) by (simp add: c_long_ok)
  then have "metrics_crawler_results_file pl (counted ag (length names)) result
      (Some (aliases_text names)) cm =
      Inr (crawled ag names, result1, names \<noteq> [] \<and> int (length names) \<noteq> total_metrics ag, (Some ev, p1))"
    using c(1) r assms(2)
    by (simp add: metrics_crawler_results_file_def aliases_text_def scan_decimal counted_def
        compute_desired_def long_to_int_id crawled_def)
  then show ?thesis using c(2-5) by blast
qed

section \<open>A concrete process\<close>

definition sample_node :: node_state where
  "sample_node = \<lparr>parent_addr = [], own_addr = [], multi_stone = None, bridge_stone = None,
     split_stone = None, terminal_stone = None, agreg_terminal_stone = None, conn_mgr = None\<rparr>"

definition sample_aggregator :: "'h \<Rightarrow> 'h metrics_aggregator" where
  "sample_aggregator h = \<lparr>aliases_file = ''metrics.txt'', max_timestamps = 0, ag_max_degree = 2,
     pulse_interval = 0, desired_metrics = None, total_metrics = 0, old_nr_of_metrics = 0,
     current_state = sample_node, benchmarking_results = None, monitoring_results = None,
     root_finished = False, results_available = False, leafs_finished = False, hash_ts = h\<rparr>"

definition sample_platform :: "htable uth \<Rightarrow> (htable uth, unit) platform" where
  "sample_platform s = \<lparr>pl_hash = uth_ops, pl_store = s, pl_env = sample_env, pl_papi = no_papi\<rparr>"

lemma sample_platform_simps [simp]:
  "pl_hash (sample_platform s) = uth_ops" "pl_store (sample_platform s) = s"
  "pl_env (sample_platform s) = sample_env" "pl_papi (sample_platform s) = no_papi"
  by (simp_all add: sample_platform_def)

lemma sample_store: "\<exists>s :: htable uth. knows_metrics uth_ops s"
  using init_knows [OF uth_empty_rep] by blast

lemma sample_aliases [simp]: "alias_ok ''rank''" "alias_ok ''PAPI_L1_DCM''"
  by (simp_all add: alias_ok_def isspace_def)

section \<open>Properties of the crawler\<close>

text \<open>
  C18. Reading a file that lists the aliases \<open>names\<close> (any number of them, each fitting into the char array)
  stores exactly these aliases and their number, computes the values of the custom ones, and reports a
  change exactly when the number of aliases differs from the previous one.
\<close>

theorem crawler_reads_file:
  assumes "desired_ok ag" "list_all alias_ok names" "int (length names) \<le> int_max"
    and "knows_metrics (pl_hash pl) (pl_store pl)" "env_ok (pl_env pl)" "length result = length names"
  shows "\<exists>ag1 ag2 result1 cm1 k.
    initialize_metrics_crawler_number_from_file ag nr (Some (aliases_text names)) = Inr (ag1, int (length names)) \<and>
    metrics_crawler_results_file pl ag1 result (Some (aliases_text names)) cm =
      Inr (ag2, result1, names \<noteq> [] \<and> int (length names) \<noteq> total_metrics ag, cm1) \<and>
    total_metrics ag2 = int (length names) \<and> desired_metrics ag2 = Some (map Some names) \<and>
    desired_ok ag2 \<and> k \<le> length names \<and> written (pl_env pl) (map Some names) 0 k result result1 \<and>
    (k < length names \<longrightarrow> callback_of (names ! k) = None)"
  using number_from_text [OF assms(1), of names nr] results_from_text [OF assms(2-), of ag cm]
    crawled_ok [of ag names] assms(3)
  by (auto simp: crawled_def counted_def)

theorem crawler_reads_file_witness:
  "\<exists>s. knows_metrics uth_ops s \<and> (\<exists>ag1 ag2 result1 cm1 k.
    initialize_metrics_crawler_number_from_file (sample_aggregator ()) None
      (Some (aliases_text [''rank'', ''PAPI_L1_DCM''])) = Inr (ag1, int (length [''rank'', ''PAPI_L1_DCM''])) \<and>
    metrics_crawler_results_file (sample_platform s) ag1 [same_value 7, same_value 8]
      (Some (aliases_text [''rank'', ''PAPI_L1_DCM''])) (None, ()) =
      Inr (ag2, result1, [''rank'', ''PAPI_L1_DCM''] \<noteq> [] \<and>
        int (length [''rank'', ''PAPI_L1_DCM'']) \<noteq> total_metrics (sample_aggregator ()), cm1) \<and>
    total_metrics ag2 = int (length [''rank'', ''PAPI_L1_DCM'']) \<and>
    desired_metrics ag2 = Some (map Some [''rank'', ''PAPI_L1_DCM'']) \<and> desired_ok ag2 \<and>
    k \<le> length [''rank'', ''PAPI_L1_DCM''] \<and>
    written (pl_env (sample_platform s)) (map Some [''rank'', ''PAPI_L1_DCM'']) 0 k
      [same_value 7, same_value 8] result1 \<and>
    (k < length [''rank'', ''PAPI_L1_DCM''] \<longrightarrow> callback_of ([''rank'', ''PAPI_L1_DCM''] ! k) = None))"
proof -
  obtain s :: "htable uth" where s: "knows_metrics uth_ops s" using sample_store by blast
  show ?thesis
    by (rule exI [of _ s], rule conjI [OF s], rule crawler_reads_file)
       (simp_all add: s sample_env_ok desired_ok_def sample_aggregator_def)
qed

text \<open>
  C36. A changed file with as many aliases as before goes unnoticed: reading any other list of the
  same length reports no change, because the array that \<open>strcmp\<close> would compare with has just been
  freed and allocated anew with NULL entries.
\<close>

theorem alias_change_unnoticed:
  assumes "desired_metrics ag = Some (map Some old_names)" "total_metrics ag = int (length old_names)"
    and "length names = length old_names" "list_all alias_ok names" "int (length names) \<le> int_max"
    and "knows_metrics (pl_hash pl) (pl_store pl)" "env_ok (pl_env pl)" "length result = length names"
  shows "\<exists>ag1 ag2 result1 cm1.
    initialize_metrics_crawler_number_from_file ag nr (Some (aliases_text names)) = Inr (ag1, int (length names)) \<and>
    metrics_crawler_results_file pl ag1 result (Some (aliases_text names)) cm = Inr (ag2, result1, False, cm1) \<and>
    desired_metrics ag2 = Some (map Some names)"
proof -
  have "desired_ok ag" using assms(1,2) by (simp add: desired_ok_def)
  then show ?thesis
    using number_from_text [of ag names nr] results_from_text [OF assms(4-), of ag cm] assms(2,3,5)
    by (auto simp: crawled_def counted_def)
qed

theorem alias_change_unnoticed_witness:
  "\<exists>s. knows_metrics uth_ops s \<and> (\<exists>ag1 ag2 result1 cm1.
    initialize_metrics_crawler_number_from_file (crawled (sample_aggregator ()) [''uptime'', ''test'']) None
      (Some (aliases_text [''rank'', ''PAPI_L1_DCM''])) = Inr (ag1, int (length [''rank'', ''PAPI_L1_DCM''])) \<and>
    metrics_crawler_results_file (sample_platform s) ag1 [same_value 7, same_value 8]
      (Some (aliases_text [''rank'', ''PAPI_L1_DCM''])) (None, ()) = Inr (ag2, result1, False, cm1) \<and>
    desired_metrics ag2 = Some (map Some [''rank'', ''PAPI_L1_DCM'']))"
proof -
  obtain s :: "htable uth" where s: "knows_metrics uth_ops s" using sample_store by blast
  show ?thesis
    by (rule exI [of _ s], rule conjI [OF s],
        rule alias_change_unnoticed [where old_names = "[''uptime'', ''test'']"])
       (simp_all add: s sample_env_ok crawled_def counted_def)
qed

end
