(* ===== verification/Inner_Node.thy ===== *)
theory Inner_Node
  imports Crawler Topology
begin

text \<open>
  The terminal handler of an inner node (metrics_aggregator.c): \<open>get_metrics_values\<close> fills in the
  node's own event and \<open>compute_own_metrics\<close> counts the children's events per timestamp in the hash
  table \<open>hash_ts\<close> and submits the own event of the current pulse when all children have delivered
  theirs. Both builds are modelled; the static variables of the handler are a record.
\<close>

section \<open>Keys of the timestamp table\<close>

text \<open>The bytes of a 64-bit and of a 32-bit integer in memory, lowest first.\<close>

definition bytes64 :: "64 word \<Rightarrow> byte list" where
  "bytes64 w = map (\<lambda>i. ucast (drop_bit (8 * i) w)) [0 ..< 8]"

definition bytes32 :: "32 word \<Rightarrow> byte list" where
  "bytes32 w = map (\<lambda>i. ucast (drop_bit (8 * i) w)) [0 ..< 4]"

definition ts_key :: "int \<Rightarrow> byte list" where
  "ts_key t = bytes64 (word_of_int t)"

text \<open>
  The second lookup passes the address of the int \<open>counter\<close> with the size of a uint64_t: it reads the four
  bytes of \<open>counter\<close> and the four bytes \<open>beyond\<close> that the compiler has placed after it.
\<close>

definition counter_key :: "byte list \<Rightarrow> int \<Rightarrow> byte list" where
  "counter_key beyond c = bytes32 (word_of_int c) @ beyond"

section \<open>The own event\<close>

record mpi_world =
  comm_rank :: int
  comm_size :: int

text \<open>The contents of freshly allocated memory for \<open>n\<close> results.\<close>

definition malloc_results :: "(nat \<Rightarrow> aggregators) \<Rightarrow> int \<Rightarrow> aggregators list" where
  "malloc_results junk n = map junk [0 ..< nat n]"

text \<open>
  \<open>get_metrics_values\<close>. The two reads of the file see the same text \<open>file\<close>; \<open>upd\<close> and \<open>q\<close> are
  the event's flags.
\<close>

definition get_metrics_values :: "('s, 'p) platform \<Rightarrow> mpi_world \<Rightarrow> (nat \<Rightarrow> aggregators) \<Rightarrow>
    'h metrics_aggregator \<Rightarrow> string option \<Rightarrow> metrics \<Rightarrow> int \<Rightarrow> metrics \<Rightarrow> 'p cm_state \<Rightarrow>
    ('h metrics_aggregator \<times> metrics \<times> 'p cm_state) res" where
  "get_metrics_values pl W junk ag file event cnt data cm =
     bind_r (get_parent (ag_max_degree ag) (comm_rank W)) (\<lambda>par.
     let d1 = data\<lparr>max_degree := ag_max_degree ag, update_file := update_file event,
               timestamp := cnt, parent_rank := par, nprocs := comm_size W, quit := quit event\<rparr> in
     if update_file event \<noteq> 0 then
       bind_r (initialize_metrics_crawler_number_from_file ag (Some (metrics_nr d1)) file) (\<lambda>(ag1, n).
       bind_r (metrics_crawler_results_file pl ag1 (malloc_results junk n) file cm) (\<lambda>(ag2, g, sync, cm1).
       Inr (ag2, d1\<lparr>metrics_nr := n, gather_info := g\<rparr>, cm1)))
     else
       let n = initialize_metrics_crawler_number_from_memory ag in
       bind_r (metrics_crawler_results_memory pl ag (gather_info d1) cm) (\<lambda>(cm1, g).
       Inr (ag, d1\<lparr>metrics_nr := n, gather_info := g\<rparr>, cm1)))"

section \<open>The handler\<close>

text \<open>The static variables; the submit handle carries no data.\<close>

record own_state =
  counter :: int
  initialized :: bool
  first_pulse :: bool
  own_data :: metrics

type_synonym ('h, 'p) node = "'h metrics_aggregator \<times> own_state \<times> 'p cm_state"

text \<open>The pulse is complete: compute the values if needed, submit, and count on.\<close>

definition own_submit :: "('s, 'p) platform \<Rightarrow> mpi_world \<Rightarrow> (nat \<Rightarrow> aggregators) \<Rightarrow> string option \<Rightarrow>
    metrics \<Rightarrow> ('h, 'p) node \<Rightarrow> (('h, 'p) node \<times> metrics) res" where
  "own_submit pl W junk file event nd =
     (case nd of (ag, own, cm) \<Rightarrow>
       bind_r
         (if first_pulse own \<or> update_file event \<noteq> 0 \<or> quit event \<noteq> 0 then
            bind_r (get_metrics_values pl W junk ag file event (counter own) (own_data own) cm)
              (\<lambda>(ag1, data, cm1). Inr (ag1, own\<lparr>own_data := data, first_pulse := False\<rparr>, cm1))
          else Inr nd)
         (\<lambda>(ag1, own1, cm1).
           bind_r (c_int (counter own1 + 1)) (\<lambda>c.
           Inr ((ag1, own1\<lparr>counter := c\<rparr>, cm1), own_data own1))))"

text \<open>The values for the next pulse.\<close>

definition own_next :: "('s, 'p) platform \<Rightarrow> mpi_world \<Rightarrow> (nat \<Rightarrow> aggregators) \<Rightarrow> string option \<Rightarrow>
    metrics \<Rightarrow> ('h, 'p) node \<Rightarrow> ('h, 'p) node res" where
  "own_next pl W junk file event nd =
     (case nd of (ag, own, cm) \<Rightarrow>
       bind_r (get_metrics_values pl W junk ag file event (counter own) (own_data own) cm)
         (\<lambda>(ag1, data, cm1). Inr (ag1, own\<lparr>own_data := data\<rparr>, cm1)))"

text \<open>
  Counting the event and looking up the count of the current pulse: \<open>found->count\<close> of a missing
  entry is a NULL dereference.
\<close>

definition count_event :: "('h, h_timestamp) hash_ops \<Rightarrow> byte list \<Rightarrow> int \<Rightarrow> metrics \<Rightarrow> 'h \<Rightarrow>
    ('h \<times> ptr) res" where
  "count_event T beyond cnt event h =
     bind_r (h_find T h (ts_key (timestamp event))) (\<lambda>found.
     bind_r
       (case found of
          None \<Rightarrow> h_insert T h (ts_key (timestamp event))
                    \<lparr>ht_count = 1, ht_ts = word_of_int (timestamp event)\<rparr>
        | Some p \<Rightarrow> Inr (h_set T h p ((h_get T h p)\<lparr>ht_count := ht_count (h_get T h p) + 1\<rparr>)))
       (\<lambda>h1.
     bind_r (h_find T h1 (counter_key beyond cnt)) (\<lambda>found1.
     case found1 of None \<Rightarrow> Inl NullDeref | Some p \<Rightarrow> Inr (h1, p))))"

definition compute_own_metrics :: "('s, 'p) platform \<Rightarrow> ('h, h_timestamp) hash_ops \<Rightarrow> mpi_world \<Rightarrow>
    byte list \<Rightarrow> (nat \<Rightarrow> aggregators) \<Rightarrow> string option \<Rightarrow> metrics \<Rightarrow> ('h, 'p) node \<Rightarrow>
    (('h, 'p) node \<times> metrics list) res" where
  "compute_own_metrics pl T W beyond junk file event nd =
     (case nd of (ag, own, cm) \<Rightarrow>
       let own0 = own\<lparr>initialized := True\<rparr> in
       bind_r (count_event T beyond (counter own0) event (hash_ts ag)) (\<lambda>(h, found).
       let ag0 = ag\<lparr>hash_ts := h\<rparr>; count_ts = ht_count (h_get T h found) in
       bind_r (get_degree_node (ag_max_degree ag) (comm_size W) (comm_rank W)) (\<lambda>deg.
       if count_ts = word_of_int deg then
         bind_r (own_submit pl W junk file event (ag0, own0, cm)) (\<lambda>((ag1, own1, cm1), submitted).
         bind_r (h_del T (hash_ts ag1) found) (\<lambda>h1.
         let ag2 = ag1\<lparr>hash_ts := h1\<rparr> in
         if quit event \<noteq> 0 then Inr ((ag2, own1, cm1), [submitted])
         else bind_r (own_next pl W junk file event (ag2, own1, cm1)) (\<lambda>nd2. Inr (nd2, [submitted]))))
       else Inr ((ag0, own0, cm), []))))"

text \<open>
  The BENCHMARKING build counts in an array with \<open>max_timestamps\<close> cells instead. The own event carries no start
  time, which \<open>get_metrics_values\<close> writes before the first submission and nothing changes later.
\<close>

definition untimed :: "metrics \<Rightarrow> metrics_bench" where
  "untimed d = metrics.extend d \<lparr>start_time = no_start\<rparr>"

definition compute_own_metrics_bench :: "('s, 'p) platform \<Rightarrow> mpi_world \<Rightarrow> (nat \<Rightarrow> aggregators) \<Rightarrow>
    string option \<Rightarrow> metrics \<Rightarrow> int list \<Rightarrow> ('h, 'p) node \<Rightarrow>
    (int list \<times> ('h, 'p) node \<times> metrics_bench list) res" where
  "compute_own_metrics_bench pl W junk file event counts nd =
     (case nd of (ag, own, cm) \<Rightarrow>
       let counts0 = (if initialized own then counts else replicate (unat (max_timestamps ag)) 0);
           own0 = own\<lparr>initialized := True\<rparr> in
       bind_r (arr_get counts0 (timestamp event)) (\<lambda>n.
       bind_r (c_int (n + 1)) (\<lambda>n1.
       bind_r (arr_set counts0 (timestamp event) n1) (\<lambda>counts1.
       bind_r (arr_get counts1 (counter own0)) (\<lambda>count_ts.
       bind_r (get_degree_node (ag_max_degree ag) (comm_size W) (comm_rank W)) (\<lambda>deg.
       if count_ts = deg then
         bind_r (own_submit pl W junk file event (ag, own0, cm)) (\<lambda>((ag1, own1, cm1), submitted).
         if word_of_int (timestamp (own_data own1)) = max_timestamps ag1 - 1
         then Inr (counts1, (ag1, own1, cm1), [untimed submitted])
         else bind_r (own_next pl W junk file event (ag1, own1, cm1)) (\<lambda>nd2.
                Inr (counts1, nd2, [untimed submitted])))
       else Inr (counts1, (ag, own0, cm), [])))))))"

section \<open>Keys are faithful\<close>

lemma bytes64_inj:
  assumes "bytes64 v = bytes64 w"
  shows "v = w"
proof (rule bit_word_eqI)
  fix n
  assume "n < LENGTH(64)"
  then have n: "n div 8 < 8" "n mod 8 < 8" by auto
  have "bytes64 v ! (n div 8) = bytes64 w ! (n div 8)" by (simp only: assms)
  then have "(ucast (drop_bit (8 * (n div 8)) v) :: byte) = ucast (drop_bit (8 * (n div 8)) w)"
    using n(1) by (simp add: bytes64_def del: upt_conv_Cons upt_rec_numeral)
  then have "bit (ucast (drop_bit (8 * (n div 8)) v) :: byte) (n mod 8)
      = bit (ucast (drop_bit (8 * (n div 8)) w) :: byte) (n mod 8)" by simp
  then show "bit v n \<longleftrightarrow> bit w n"
    using n(2) by (simp add: bit_ucast_iff bit_drop_bit_eq)
qed

lemma ts_key_inj:
  assumes "0 \<le> t" "t \<le> long_max" "0 \<le> u" "u \<le> long_max"
  shows "ts_key t = ts_key u \<longleftrightarrow> t = u"
proof
  assume "ts_key t = ts_key u"
  then have "(word_of_int t :: 64 word) = word_of_int u" unfolding ts_key_def by (rule bytes64_inj)
  then have "uint (word_of_int t :: 64 word) = uint (word_of_int u :: 64 word)" by simp
  then show "t = u" using assms by (simp add: uint_word_of_int)
qed simp

lemma counter_key_zero:
  assumes "0 \<le> c" "c \<le> int_max"
  shows "counter_key [0, 0, 0, 0] c = ts_key c"
proof (rule nth_equalityI)
  show "length (counter_key [0, 0, 0, 0] c) = length (ts_key c)"
    by (simp add: counter_key_def ts_key_def bytes32_def bytes64_def)
  fix i
  assume "i < length (counter_key [0, 0, 0, 0] c)"
  then have i: "i < 8" by (simp add: counter_key_def bytes32_def)
  have big: "\<not> bit c m" if "31 \<le> m" for m
  proof -
    have "take_bit 31 c = c" using assms by (simp add: take_bit_int_eq_self)
    then show ?thesis using that by (metis bit_take_bit_iff not_le)
  qed
  show "counter_key [0, 0, 0, 0] c ! i = ts_key c ! i"
  proof (cases "i < 4")
    case True
    then have "counter_key [0, 0, 0, 0] c ! i = ucast (drop_bit (8 * i) (word_of_int c :: 32 word))"
      by (simp add: counter_key_def bytes32_def nth_append del: upt_conv_Cons upt_rec_numeral)
    also have "\<dots> = ucast (drop_bit (8 * i) (word_of_int c :: 64 word))"
      using True by (intro bit_word_eqI) (auto simp: bit_ucast_iff bit_drop_bit_eq bit_word_of_int_iff)
    finally show ?thesis using i
      by (simp add: ts_key_def bytes64_def del: upt_conv_Cons upt_rec_numeral)
  next
    case False
    have "drop_bit (8 * i) (word_of_int c :: 64 word) = 0"
      using False big by (intro bit_word_eqI) (auto simp: bit_drop_bit_eq bit_word_of_int_iff)
    moreover have "counter_key [0, 0, 0, 0] c ! i = 0"
      using False i by (auto simp: counter_key_def bytes32_def nth_append nth_Cons' less_Suc_eq eval_nat_numeral)
    ultimately show ?thesis using i
      by (simp add: ts_key_def bytes64_def del: upt_conv_Cons upt_rec_numeral)
  qed
qed

section \<open>The own event is well formed\<close>

text \<open>A process whose storage knows the metrics, whose callbacks return, in a valid topology.\<close>

definition process_ok :: "('s, 'p) platform \<Rightarrow> mpi_world \<Rightarrow> int \<Rightarrow> bool" where
  "process_ok pl W d \<longleftrightarrow> knows_metrics (pl_hash pl) (pl_store pl) \<and> env_ok (pl_env pl) \<and>
     valid_topo d (comm_size W) \<and> 0 \<le> comm_rank W \<and> comm_rank W < comm_size W"

definition file_ok :: "string option \<Rightarrow> bool" where
  "file_ok file \<longleftrightarrow> (\<exists>names. file = Some (aliases_text names) \<and> list_all alias_ok names \<and>
     int (length names) \<le> int_max)"

text \<open>The array of aliases, the array of results and PAPI's array have the size of the current number.\<close>

definition node_ok :: "'h metrics_aggregator \<Rightarrow> metrics \<Rightarrow> 'p cm_state \<Rightarrow> bool" where
  "node_ok ag data cm \<longleftrightarrow> desired_ok ag \<and> total_metrics ag \<le> int_max \<and>
     (case desired_metrics ag of None \<Rightarrow> total_metrics ag = 0 | Some xs \<Rightarrow> \<forall>a \<in> set xs. a \<noteq> None) \<and>
     int (length (gather_info data)) = total_metrics ag \<and>
     (total_metrics ag = 0 \<or> (\<exists>ev. fst cm = Some ev \<and> int (length ev) = total_metrics ag))"

text \<open>The fields of an own event of pulse \<open>c\<close>.\<close>

definition own_event :: "mpi_world \<Rightarrow> int \<Rightarrow> int \<Rightarrow> metrics \<Rightarrow> bool" where
  "own_event W d c e \<longleftrightarrow> timestamp e = c \<and> max_degree e = d \<and> nprocs e = comm_size W \<and>
     get_parent d (comm_rank W) = Inr (parent_rank e) \<and> metrics_nr e = int (length (gather_info e))"

lemma results_from_memory:
  assumes "node_ok ag data cm" "knows_metrics (pl_hash pl) (pl_store pl)" "env_ok (pl_env pl)"
  shows "\<exists>cm1 g. metrics_crawler_results_memory pl ag (gather_info data) cm = Inr (cm1, g) \<and>
    length g = length (gather_info data) \<and> (total_metrics ag = 0 \<or>
      (\<exists>ev. fst cm1 = Some ev \<and> int (length ev) = total_metrics ag)) \<and>
    (\<forall>names. desired_metrics ag = Some (map Some names) \<longrightarrow> measured pl names g)"
proof -
  have t: "0 \<le> total_metrics ag" "total_metrics ag \<le> int_max"
    and g: "int (length (gather_info data)) = total_metrics ag"
    using assms(1) by (auto simp: node_ok_def desired_ok_def)
  have id: "long_to_int (total_metrics ag) = total_metrics ag" using t by (simp add: long_to_int_id)
  show ?thesis
  proof (cases "total_metrics ag = 0")
    case True
    have z: "long_to_int 0 = 0" by (simp add: long_to_int_id)
    have "compute_metric H s env P names vals 0 False cm = Inr (cm, vals)" for H s env P names vals
      by (simp add: compute_metric_def compute_loop.simps)
    then have "metrics_crawler_results_memory pl ag (gather_info data) cm = Inr (cm, gather_info data)"
      using True z by (cases "desired_metrics ag")
        (simp_all add: metrics_crawler_results_memory_def compute_desired_def Let_def)
    moreover have "measured pl names g" if "desired_metrics ag = Some (map Some names)" for names g
      using assms(1) True that by (simp add: node_ok_def desired_ok_def measured_def)
    ultimately show ?thesis using True by auto
  next
    case False
    then obtain xs ev where x: "desired_metrics ag = Some xs" "\<forall>a \<in> set xs. a \<noteq> None"
        "fst cm = Some ev" "int (length ev) = total_metrics ag" "int (length xs) = total_metrics ag"
      using assms(1) by (auto simp: node_ok_def desired_ok_def split: option.splits)
    obtain p where cm: "cm = (Some ev, p)" using x(3) by (cases cm) auto
    have l: "length xs \<le> length (gather_info data)" "length xs \<le> length ev" using x g by simp_all
    obtain ev1 p1 vals1 k where c: "compute_loop (pl_hash pl) (pl_store pl) (pl_env pl) (pl_papi pl) xs
        (int (length xs)) 0 cm 0 (gather_info data) = Inr ((Some ev1, p1), vals1)"
        "length ev1 = length ev" "written (pl_env pl) xs 0 k (gather_info data) vals1" "k \<le> length xs"
        "k < length xs \<longrightarrow> callback_of (the (xs ! k)) = None \<and> papi_fails (pl_papi pl) (the (xs ! k))"
      using compute_loop_ok [OF assms(2,3) x(2) refl l, of 0 0 "pl_papi pl" p] by (auto simp: cm)
    have "metrics_crawler_results_memory pl ag (gather_info data) cm = Inr ((Some ev1, p1), vals1)"
      using c(1) x(1,5) by (simp add: metrics_crawler_results_memory_def compute_desired_def id
          compute_metric_def Let_def)
    moreover have "measured pl names vals1" if "desired_metrics ag = Some (map Some names)" for names
      using c(3-5) x(1) that by (intro written_measured [of pl names k "gather_info data"]) auto
    ultimately show ?thesis using c(2,3) x(4) by (auto simp: written_def)
  qed
qed

lemma get_metrics_values_ok:
  assumes "process_ok pl W (ag_max_degree ag)" "file_ok file" "node_ok ag data cm"
  shows "\<exists>ag1 data1 cm1. get_metrics_values pl W junk ag file event c data cm = Inr (ag1, data1, cm1) \<and>
    node_ok ag1 data1 cm1 \<and> hash_ts ag1 = hash_ts ag \<and> ag_max_degree ag1 = ag_max_degree ag \<and>
    own_event W (ag_max_degree ag) c data1 \<and> quit data1 = quit event \<and> update_file data1 = update_file event"
proof -
  let ?d = "ag_max_degree ag"
  have pr: "knows_metrics (pl_hash pl) (pl_store pl)" "env_ok (pl_env pl)" "valid_topo ?d (comm_size W)"
      "0 \<le> comm_rank W" "comm_rank W < comm_size W"
    using assms(1) by (auto simp: process_ok_def)
  obtain par where par: "get_parent ?d (comm_rank W) = Inr par"
    using get_parent_eq [OF pr(3) _ pr(5)] get_parent_root [OF pr(3)] pr(4)
    by (cases "comm_rank W = 0") auto
  obtain names where f: "file = Some (aliases_text names)" "list_all alias_ok names"
      "int (length names) \<le> int_max"
    using assms(2) by (auto simp: file_ok_def)
  let ?d1 = "data\<lparr>max_degree := ?d, update_file := update_file event, timestamp := c,
      parent_rank := par, nprocs := comm_size W, quit := quit event\<rparr>"
  show ?thesis
  proof (cases "update_file event \<noteq> 0")
    case True
    have dk: "desired_ok ag" using assms(3) by (simp add: node_ok_def)
    have num: "initialize_metrics_crawler_number_from_file ag (Some (metrics_nr data)) file =
        Inr (counted ag (length names), int (length names))"
      using number_from_text [OF dk] f by simp
    obtain g ev p1 k where res: "metrics_crawler_results_file pl (counted ag (length names))
        (malloc_results junk (int (length names))) file cm =
        Inr (crawled ag names, g, names \<noteq> [] \<and> int (length names) \<noteq> total_metrics ag, (Some ev, p1))"
        "length ev = length names"
        "written (pl_env pl) (map Some names) 0 k (malloc_results junk (int (length names))) g"
      using results_from_text [OF f(2,3) pr(1,2), of "malloc_results junk (int (length names))" ag cm] f(1)
      by (auto simp: malloc_results_def)
    have "length g = length names" using res(3) by (simp add: written_def malloc_results_def)
    then show ?thesis using True num res(1,2) par f(3) crawled_ok [of ag names]
      by (simp add: get_metrics_values_def Let_def node_ok_def own_event_def crawled_def counted_def)
  next
    case False
    obtain cm1 g where m: "metrics_crawler_results_memory pl ag (gather_info data) cm = Inr (cm1, g)"
        "length g = length (gather_info data)"
        "total_metrics ag = 0 \<or> (\<exists>ev. fst cm1 = Some ev \<and> int (length ev) = total_metrics ag)"
      using results_from_memory [OF assms(3) pr(1,2)] by blast
    then show ?thesis using False assms(3) par
      by (auto simp: get_metrics_values_def Let_def node_ok_def own_event_def
          initialize_metrics_crawler_number_from_memory_def)
  qed
qed

end
