(* ===== verification/Own_Run.thy ===== *)
theory Own_Run
  imports Inner_Node Aggregate_Run
begin

text \<open>
  The terminal handler of an inner node over a whole run: for any interleaving of the children's
  events that keeps every child's own order, it submits exactly one own event per pulse, in the order
  of the pulses, at the arrival of the last child's event of the pulse; and the lookup of the
  current pulse's count never fails.
\<close>

section \<open>What the timestamp table holds\<close>

definition count_entry :: "int \<Rightarrow> metrics list \<Rightarrow> h_timestamp" where
  "count_entry t es = \<lparr>ht_count = of_nat (length (pulse_events t es)), ht_ts = word_of_int t\<rparr>"

text \<open>One entry for every timestamp from \<open>p\<close> on of which events have arrived.\<close>

definition counts_ok :: "int \<Rightarrow> metrics list \<Rightarrow> (byte list \<rightharpoonup> h_timestamp) \<Rightarrow> bool" where
  "counts_ok p es m \<longleftrightarrow> dom m = ts_key ` {t. p \<le> t \<and> pulse_events t es \<noteq> []} \<and>
     (\<forall>t. p \<le> t \<and> pulse_events t es \<noteq> [] \<longrightarrow> m (ts_key t) = Some (count_entry t es))"

definition stamps_ok :: "metrics list \<Rightarrow> bool" where
  "stamps_ok es \<longleftrightarrow> (\<forall>e \<in> set es. 0 \<le> timestamp e \<and> timestamp e \<le> int_max)"

lemma stamps_pulse: "stamps_ok es \<Longrightarrow> pulse_events t es \<noteq> [] \<Longrightarrow> 0 \<le> t \<and> t \<le> int_max"
  by (auto simp: stamps_ok_def pulse_events_def filter_empty_conv)

lemma ts_key_eq:
  "0 \<le> t \<Longrightarrow> t \<le> int_max \<Longrightarrow> 0 \<le> t' \<Longrightarrow> t' \<le> int_max \<Longrightarrow> ts_key t = ts_key t' \<longleftrightarrow> t = t'"
  by (rule ts_key_inj) auto

lemma counts_ok_empty: "counts_ok p [] Map.empty"
  by (simp add: counts_ok_def)

lemma counts_ok_none:
  assumes "counts_ok p es m" "stamps_ok es" "0 \<le> t" "t \<le> int_max" "pulse_events t es = []"
  shows "m (ts_key t) = None"
proof -
  have "ts_key t \<notin> dom m"
    using assms stamps_pulse [OF assms(2)] by (auto simp: counts_ok_def ts_key_eq)
  then show ?thesis by auto
qed

lemma counts_ok_arrive:
  assumes "counts_ok p es m" "stamps_ok (es @ [e])" "p \<le> timestamp e"
  shows "counts_ok p (es @ [e]) (m(ts_key (timestamp e) \<mapsto> count_entry (timestamp e) (es @ [e])))"
proof -
  let ?t = "timestamp e"
  have b: "0 \<le> ?t" "?t \<le> int_max" "stamps_ok es" using assms(2) by (auto simp: stamps_ok_def)
  have "{t. p \<le> t \<and> pulse_events t (es @ [e]) \<noteq> []} = insert ?t {t. p \<le> t \<and> pulse_events t es \<noteq> []}"
    using assms(3) by auto
  then have "dom (m(ts_key ?t \<mapsto> count_entry ?t (es @ [e]))) =
      ts_key ` {t. p \<le> t \<and> pulse_events t (es @ [e]) \<noteq> []}"
    using assms(1) by (simp add: counts_ok_def)
  moreover have "(m(ts_key ?t \<mapsto> count_entry ?t (es @ [e]))) (ts_key t) = Some (count_entry t (es @ [e]))"
    if "p \<le> t \<and> pulse_events t (es @ [e]) \<noteq> []" for t
  proof (cases "t = ?t")
    case False
    then have "pulse_events t es \<noteq> []" using that by auto
    moreover then have "ts_key t \<noteq> ts_key ?t"
      using stamps_pulse [OF b(3), of t] b False by (simp add: ts_key_eq)
    ultimately show ?thesis using assms(1) that False by (auto simp: counts_ok_def count_entry_def)
  qed simp
  ultimately show ?thesis by (simp add: counts_ok_def)
qed

lemma counts_ok_delete:
  assumes "counts_ok p es m" "stamps_ok es" "0 \<le> p" "p \<le> int_max"
  shows "counts_ok (p + 1) es (m(ts_key p := None))"
proof -
  have ne: "ts_key t \<noteq> ts_key p" if "p + 1 \<le> t" "pulse_events t es \<noteq> []" for t
    using stamps_pulse [OF assms(2) that(2)] that(1) assms(3,4) by (simp add: ts_key_eq)
  have "{t. p \<le> t \<and> pulse_events t es \<noteq> []} - {p} = {t. p + 1 \<le> t \<and> pulse_events t es \<noteq> []}"
    by auto
  then have "dom (m(ts_key p := None)) = ts_key ` {t. p + 1 \<le> t \<and> pulse_events t es \<noteq> []}"
    using assms(1) ne by (auto simp: counts_ok_def)
  then show ?thesis using assms(1) ne by (auto simp: counts_ok_def)
qed

lemma counts_ok_card:
  assumes "counts_ok p es m" "finite (dom m)" "\<forall>t. pulse_events t es \<noteq> [] \<longrightarrow> t < u"
  shows "int (card (dom m)) \<le> max 0 (u - p)"
proof -
  have "dom m \<subseteq> ts_key ` {p ..< u}" using assms(1,3) by (auto simp: counts_ok_def)
  then have "card (dom m) \<le> card (ts_key ` {p ..< u})" by (intro card_mono) auto
  also have "\<dots> \<le> card {p ..< u}" by (rule card_image_le) simp
  finally show ?thesis by simp
qed

section \<open>Counting one event\<close>

locale ts_store = keyed_store T rep cap
  for T :: "('h, h_timestamp) hash_ops" and rep :: "'h \<Rightarrow> (byte list \<times> ptr) list \<Rightarrow> bool" and cap :: nat
begin

lemma count_event_ok:
  assumes "holds h m n" "counts_ok p es m" "stamps_ok (es @ [e])" "0 \<le> p" "p \<le> timestamp e"
    and "pulse_events p (es @ [e]) \<noteq> []"
    and "pulse_events (timestamp e) es = [] \<longrightarrow> n < cap"
  obtains h1 q m1 n1 where "count_event T [0, 0, 0, 0] p e h = Inr (h1, q)" "holds h1 m1 n1"
    "counts_ok p (es @ [e]) m1" "h_get T h1 q = count_entry p (es @ [e])"
    "\<exists>h2. h_del T h1 q = Inr h2 \<and> holds h2 (m1(ts_key p := None)) (n1 - 1)"
proof -
  let ?t = "timestamp e" and ?k = "ts_key (timestamp e)"
  let ?m1 = "m(?k \<mapsto> count_entry ?t (es @ [e]))"
  have b: "0 \<le> ?t" "?t \<le> int_max" "stamps_ok es" using assms(3) by (auto simp: stamps_ok_def)
  have c1: "counts_ok p (es @ [e]) ?m1" by (rule counts_ok_arrive [OF assms(2,3,5)])
  have "\<exists>h1 n1. bind_r (h_find T h ?k) (\<lambda>found. case found of
          None \<Rightarrow> h_insert T h ?k \<lparr>ht_count = 1, ht_ts = word_of_int ?t\<rparr>
        | Some p \<Rightarrow> Inr (h_set T h p ((h_get T h p)\<lparr>ht_count := ht_count (h_get T h p) + 1\<rparr>))) = Inr h1 \<and>
      holds h1 ?m1 n1"
  proof (cases "pulse_events ?t es = []")
    case True
    then have m: "m ?k = None" using counts_ok_none [OF assms(2) b(3,1,2)] by simp
    have "h_find T h ?k = Inr None" using holds_find [OF assms(1), of ?k] m by auto
    moreover have "count_entry ?t (es @ [e]) = \<lparr>ht_count = 1, ht_ts = word_of_int ?t\<rparr>"
      using True by (simp add: count_entry_def)
    moreover obtain s1 where "h_insert T h ?k (count_entry ?t (es @ [e])) = Inr s1" "holds s1 ?m1 (Suc n)"
      using holds_insert [OF assms(1) m] assms(7) True by blast
    ultimately show ?thesis by auto
  next
    case False
    then have m: "m ?k = Some (count_entry ?t es)" using assms(2,5) by (simp add: counts_ok_def)
    obtain q where q: "h_find T h ?k = Inr (Some q)" "h_get T h q = count_entry ?t es"
        "\<And>y. holds (h_set T h q y) (m(?k \<mapsto> y)) n"
      using holds_found [OF assms(1) m] by metis
    have "(count_entry ?t es)\<lparr>ht_count := ht_count (count_entry ?t es) + 1\<rparr> = count_entry ?t (es @ [e])"
      by (simp add: count_entry_def add.commute)
    then show ?thesis using q by auto
  qed
  then obtain h1 n1 where h1: "bind_r (h_find T h ?k) (\<lambda>found. case found of
          None \<Rightarrow> h_insert T h ?k \<lparr>ht_count = 1, ht_ts = word_of_int ?t\<rparr>
        | Some p \<Rightarrow> Inr (h_set T h p ((h_get T h p)\<lparr>ht_count := ht_count (h_get T h p) + 1\<rparr>))) = Inr h1"
      "holds h1 ?m1 n1"
    by blast
  have pb: "0 \<le> p" "p \<le> int_max" using assms(4,5) b(2) by auto
  have m1: "?m1 (ts_key p) = Some (count_entry p (es @ [e]))"
    using c1 assms(6) unfolding counts_ok_def by blast
  obtain q where q: "h_find T h1 (ts_key p) = Inr (Some q)" "h_get T h1 q = count_entry p (es @ [e])"
      "\<exists>h2. h_del T h1 q = Inr h2 \<and> holds h2 (?m1(ts_key p := None)) (n1 - 1)"
    using holds_found [OF h1(2) m1] by metis
  have "count_event T [0, 0, 0, 0] p e h = Inr (h1, q)"
    using h1(1) q(1) unfolding count_event_def counter_key_zero [OF pb]
    by (auto simp: bind_r_assoc [symmetric])
  then show ?thesis using that h1(2) c1 q(2,3) by blast
qed

end

section \<open>The run\<close>

text \<open>The leaves below send their quit flag with their last event: nothing follows it.\<close>

definition quit_last :: "metrics list \<Rightarrow> bool" where
  "quit_last es \<longleftrightarrow> (\<forall>e \<in> set es. \<forall>e' \<in> set es. quit e \<noteq> 0 \<longrightarrow> timestamp e' \<le> timestamp e)"

text \<open>No child is \<open>cap\<close> pulses ahead of another.\<close>

definition ahead :: "nat \<Rightarrow> nat \<Rightarrow> (nat \<times> metrics) list \<Rightarrow> bool" where
  "ahead k cap arr \<longleftrightarrow> (\<forall>i < length arr. \<forall>s < k.
     timestamp (snd (arr ! i)) < int (length (of_sender s (take i arr)) + cap))"

lemma quit_last_snoc: "quit_last (es @ [e]) \<Longrightarrow> quit_last es"
  by (simp add: quit_last_def)

lemma ahead_snoc:
  assumes "ahead k cap (arr @ [(s, e)])"
  shows "ahead k cap arr" "s' < k \<Longrightarrow> timestamp e < int (length (of_sender s' arr) + cap)"
proof -
  show "ahead k cap arr" unfolding ahead_def
  proof (intro allI impI)
    fix i s assume "i < length arr" "s < k"
    then show "timestamp (snd (arr ! i)) < int (length (of_sender s (take i arr)) + cap)"
      using assms [unfolded ahead_def, rule_format, of i s] by (simp add: nth_append)
  qed
  show "s' < k \<Longrightarrow> timestamp e < int (length (of_sender s' arr) + cap)"
    using assms [unfolded ahead_def, rule_format, of "length arr" s'] by simp
qed

lemma fifo_stamps:
  assumes "fifo k arr" "int (length arr) \<le> int_max"
  shows "stamps_ok (map snd arr)"
  using assms
proof (induction arr rule: rev_induct)
  case (snoc x arr)
  obtain s e where x: "x = (s, e)" by (cases x)
  note f = fifo_snoc [OF snoc.prems(1) [unfolded x]]
  have "timestamp e \<le> int_max" using f(3) of_sender_le [of s arr] snoc.prems(2) by simp
  then show ?case using snoc.IH [OF f(1)] snoc.prems(2) f(3) by (auto simp: stamps_ok_def x)
qed (simp add: stamps_ok_def)

lemma fifo_short:
  assumes "fifo k arr" "length (pulse_events (int p) (map snd arr)) < k"
  obtains s where "s < k" "length (of_sender s arr) \<le> p"
proof -
  have "\<not> {..< k} \<subseteq> {s. s < k \<and> p < length (of_sender s arr)}"
  proof
    assume "{..< k} \<subseteq> {s. s < k \<and> p < length (of_sender s arr)}"
    then have "k \<le> card {s. s < k \<and> p < length (of_sender s arr)}"
      using card_mono [of "{s. s < k \<and> p < length (of_sender s arr)}" "{..< k}"] by simp
    then show False using assms(2) by (simp add: fifo_count [OF assms(1)])
  qed
  then show ?thesis using that by fastforce
qed

lemma fifo_later:
  assumes "fifo k arr" "pulse_events (int t) (map snd arr) = []" "pulse_events u (map snd arr) \<noteq> []"
  shows "u < int t"
proof -
  obtain v where v: "u = int v" using fifo_nonneg [OF assms(1), of u] assms(3)
    by (metis nonneg_int_cases not_le)
  have "{s. s < k \<and> v < length (of_sender s arr)} \<noteq> {}"
    using assms(3) fifo_count [OF assms(1), of v] v by (metis card.empty length_0_conv)
  then obtain s where "s < k" "v < length (of_sender s arr)" by blast
  then show ?thesis using fifo_none [OF assms(1,2)] v by fastforce
qed

text \<open>The handler is run for every event, each time on the platform and the file as they are then.\<close>

fun own_run :: "(nat \<Rightarrow> ('s, 'p) platform) \<Rightarrow> ('h, h_timestamp) hash_ops \<Rightarrow> mpi_world \<Rightarrow> byte list \<Rightarrow>
    (nat \<Rightarrow> aggregators) \<Rightarrow> ('h, 'p) node \<times> metrics list \<Rightarrow> (metrics \<times> string option) list \<Rightarrow>
    (('h, 'p) node \<times> metrics list) res" where
  "own_run pl T W beyond junk s [] = Inr s"
| "own_run pl T W beyond junk s (x # xs) =
     bind_r (compute_own_metrics (pl 0) T W beyond junk (snd x) (fst x) (fst s)) (\<lambda>(nd1, out).
     own_run (\<lambda>i. pl (Suc i)) T W beyond junk (nd1, snd s @ out) xs)"

lemma own_run_append:
  "own_run pl T W beyond junk s (xs @ ys) =
     bind_r (own_run pl T W beyond junk s xs) (\<lambda>s1. own_run (\<lambda>i. pl (length xs + i)) T W beyond junk s1 ys)"
proof (induction xs arbitrary: pl s)
  case (Cons x xs)
  then show ?case
    by (cases "compute_own_metrics (pl 0) T W beyond junk (snd x) (fst x) (fst s)") auto
qed simp

lemma own_submit_ok:
  assumes "process_ok pl W (ag_max_degree ag)" "file_ok file" "node_ok ag (own_data own) cm"
    and "first_pulse own \<or> own_event W (ag_max_degree ag) (counter own) (own_data own)"
    and "c_int (counter own + 1) = Inr (counter own + 1)"
  shows "\<exists>ag1 own1 cm1 e. own_submit pl W junk file event (ag, own, cm) = Inr ((ag1, own1, cm1), e) \<and>
    node_ok ag1 (own_data own1) cm1 \<and> hash_ts ag1 = hash_ts ag \<and> ag_max_degree ag1 = ag_max_degree ag \<and>
    counter own1 = counter own + 1 \<and> own_event W (ag_max_degree ag) (counter own) e"
proof (cases "first_pulse own \<or> update_file event \<noteq> 0 \<or> quit event \<noteq> 0")
  case True
  obtain ag1 data1 cm1 where "get_metrics_values pl W junk ag file event (counter own) (own_data own) cm
      = Inr (ag1, data1, cm1)" "node_ok ag1 data1 cm1" "hash_ts ag1 = hash_ts ag"
      "ag_max_degree ag1 = ag_max_degree ag" "own_event W (ag_max_degree ag) (counter own) data1"
    using get_metrics_values_ok [OF assms(1-3)] by blast
  then show ?thesis using True assms(5) by (simp add: own_submit_def)
next
  case False
  then show ?thesis using assms(3-5) by (simp add: own_submit_def)
qed

lemma own_next_ok:
  assumes "process_ok pl W (ag_max_degree ag)" "file_ok file" "node_ok ag (own_data own) cm"
  shows "\<exists>ag1 own1 cm1. own_next pl W junk file event (ag, own, cm) = Inr (ag1, own1, cm1) \<and>
    node_ok ag1 (own_data own1) cm1 \<and> hash_ts ag1 = hash_ts ag \<and> ag_max_degree ag1 = ag_max_degree ag \<and>
    counter own1 = counter own \<and> own_event W (ag_max_degree ag) (counter own) (own_data own1)"
proof -
  obtain ag1 data1 cm1 where "get_metrics_values pl W junk ag file event (counter own) (own_data own) cm
      = Inr (ag1, data1, cm1)" "node_ok ag1 data1 cm1" "hash_ts ag1 = hash_ts ag"
      "ag_max_degree ag1 = ag_max_degree ag" "own_event W (ag_max_degree ag) (counter own) data1"
    using get_metrics_values_ok [OF assms] by blast
  then show ?thesis by (simp add: own_next_def)
qed

lemma node_ok_hash: "node_ok (ag\<lparr>hash_ts := h\<rparr>) data cm = node_ok ag data cm"
  by (simp add: node_ok_def desired_ok_def split: option.split)

section \<open>The invariant\<close>

text \<open>Everything but the table, for \<open>p\<close> complete pulses.\<close>

definition own_inv :: "nat \<Rightarrow> int \<Rightarrow> mpi_world \<Rightarrow> metrics list \<Rightarrow> ('h, 'p) node \<Rightarrow> metrics list \<Rightarrow> nat \<Rightarrow> bool" where
  "own_inv k d W es nd out p \<longleftrightarrow>
     (case nd of (ag, own, cm) \<Rightarrow>
       counter own = int p \<and> (\<forall>t < p. length (pulse_events (int t) es) = k) \<and>
       length (pulse_events (int p) es) < k \<and> node_ok ag (own_data own) cm \<and> ag_max_degree ag = d \<and>
       (first_pulse own \<or> own_event W d (int p) (own_data own) \<or> (\<exists>e \<in> set es. quit e \<noteq> 0 \<and> timestamp e < int p)) \<and>
       length out = p \<and> (\<forall>t < p. own_event W d (int t) (out ! t)))"

lemma own_inv_partial:
  assumes "own_inv k d W es (ag, own, cm) out p" "int p \<le> timestamp e"
    and "length (pulse_events (int p) (es @ [e])) < k"
  shows "own_inv k d W (es @ [e]) (ag\<lparr>hash_ts := h\<rparr>, own\<lparr>initialized := True\<rparr>, cm) out p"
  using assms by (auto simp: own_inv_def node_ok_hash)

lemma own_inv_complete:
  assumes "own_inv k d W es (ag, own, cm) out p" "timestamp e = int p"
    and "length (pulse_events (int p) (es @ [e])) = k" "length (pulse_events (int p + 1) (es @ [e])) < k"
    and "node_ok ag1 (own_data own1) cm1" "ag_max_degree ag1 = d" "counter own1 = int p + 1"
    and "own_event W d (int p) sub" "own_event W d (int p + 1) (own_data own1) \<or> quit e \<noteq> 0"
  shows "own_inv k d W (es @ [e]) (ag1\<lparr>hash_ts := h\<rparr>, own1, cm1) (out @ [sub]) (Suc p)"
proof -
  have "own_event W d (int p + 1) (own_data own1) \<or>
      (\<exists>e' \<in> set (es @ [e]). quit e' \<noteq> 0 \<and> timestamp e' < int p + 1)"
    using assms(2,9) by auto
  then show ?thesis using assms
    by (auto simp: own_inv_def node_ok_hash less_Suc_eq nth_append add.commute)
qed

lemma count_word_eq:
  assumes "l \<le> k" "int k \<le> int_max"
  shows "(of_nat l :: 64 word) = word_of_int (int k) \<longleftrightarrow> l = k"
proof
  assume "(of_nat l :: 64 word) = word_of_int (int k)"
  then have "unat (of_nat l :: 64 word) = unat (of_nat k :: 64 word)" by simp
  then show "l = k" using assms by (simp add: unat_of_nat)
qed simp

context ts_store begin

lemma own_step:
  assumes "own_inv k d W (map snd arr) nd out p" "holds (hash_ts (fst nd)) m n"
    and "counts_ok (int p) (map snd arr) m" "fifo k (arr @ [(s, e)])"
    and "quit_last (map snd arr @ [e])" "\<forall>s' < k. timestamp e < int (length (of_sender s' arr) + cap)"
    and "process_ok pl W d" "file_ok file" "get_degree_node d (comm_size W) (comm_rank W) = Inr (int k)"
    and "int (length arr) + 1 < int_max" "int k \<le> int_max"
  shows "\<exists>nd1 o1 p1 m1 n1.
    compute_own_metrics pl T W [0, 0, 0, 0] junk file e nd = Inr (nd1, o1) \<and>
    own_inv k d W (map snd arr @ [e]) nd1 (out @ o1) p1 \<and>
    holds (hash_ts (fst nd1)) m1 n1 \<and> counts_ok (int p1) (map snd arr @ [e]) m1"
proof -
  obtain ag own cm where nd: "nd = (ag, own, cm)" by (cases nd)
  let ?es = "map snd arr" and ?t = "timestamp e"
  note f = fifo_snoc [OF assms(4)]
  have I: "counter own = int p" "\<forall>t < p. length (pulse_events (int t) ?es) = k"
      "length (pulse_events (int p) ?es) < k" "node_ok ag (own_data own) cm" "ag_max_degree ag = d"
      "first_pulse own \<or> own_event W d (int p) (own_data own) \<or> (\<exists>e \<in> set ?es. quit e \<noteq> 0 \<and> timestamp e < int p)"
    using assms(1) by (auto simp: own_inv_def nd)
  have st: "stamps_ok (?es @ [e])" using fifo_stamps [OF assms(4)] assms(10) by simp
  have "p \<le> length (of_sender s arr)"
  proof (cases p)
    case (Suc p')
    then show ?thesis using fifo_full [OF f(1) I(2) [rule_format, of p'] f(2)] by simp
  qed simp
  then have ge: "int p \<le> ?t" using f(3) by simp
  have pn: "pulse_events (int p) (?es @ [e]) \<noteq> []"
  proof (cases "?t = int p")
    case False
    then have "p < length (of_sender s arr)" using ge f(3) by simp
    then have "{s. s < k \<and> p < length (of_sender s arr)} \<noteq> {}" using f(2) by blast
    then have "0 < length (pulse_events (int p) ?es)"
      by (simp only: fifo_count [OF f(1)] card_gt_0_iff) simp
    then show ?thesis by auto
  qed simp
  obtain s' where s': "s' < k" "length (of_sender s' arr) \<le> p" using fifo_short [OF f(1) I(3)] .
  have nc: "pulse_events ?t ?es = [] \<longrightarrow> n < cap"
  proof
    assume none: "pulse_events ?t ?es = []"
    have "\<forall>u. pulse_events u ?es \<noteq> [] \<longrightarrow> u < ?t"
      using fifo_later [OF f(1), of "nat ?t"] none f(3) by simp
    then have "int n \<le> max 0 (?t - int p)"
      using counts_ok_card [OF assms(3)] holds_card [OF assms(2)] by blast
    moreover have "?t < int p + int cap" using assms(6) s' by fastforce
    ultimately show "n < cap" using ge by simp
  qed
  have h0: "holds (hash_ts ag) m n" using assms(2) by (simp add: nd)
  obtain h1 q m1 n1 where c: "count_event T [0, 0, 0, 0] (int p) e (hash_ts ag) = Inr (h1, q)"
      "holds h1 m1 n1" "counts_ok (int p) (?es @ [e]) m1" "h_get T h1 q = count_entry (int p) (?es @ [e])"
      "\<exists>h2. h_del T h1 q = Inr h2 \<and> holds h2 (m1(ts_key (int p) := None)) (n1 - 1)"
    using count_event_ok [OF h0 assms(3) st of_nat_0_le_iff ge pn nc] .
  let ?l = "length (pulse_events (int p) (?es @ [e]))"
  have lk: "?l \<le> k" using fifo_count_le [OF assms(4), of p] by simp
  have eq: "(of_nat ?l :: 64 word) = word_of_int (int k) \<longleftrightarrow> ?l = k"
    by (rule count_word_eq) (use lk assms(11) in simp_all)
  let ?own = "own\<lparr>initialized := True\<rparr>" and ?ag = "ag\<lparr>hash_ts := h1\<rparr>"
  show ?thesis
  proof (cases "?l = k")
    case False
    then have "ht_count (h_get T h1 q) \<noteq> word_of_int (int k)"
      using eq by (simp only: c(4) count_entry_def h_timestamp.simps) simp
    then have "compute_own_metrics pl T W [0, 0, 0, 0] junk file e nd = Inr ((?ag, ?own, cm), [])"
      using c(1) assms(9) I(1,5) by (simp add: compute_own_metrics_def nd Let_def)
    moreover have "own_inv k d W (?es @ [e]) (?ag, ?own, cm) out p"
      using own_inv_partial [OF assms(1) [unfolded nd] ge] False lk by simp
    ultimately show ?thesis using c(2,3) by fastforce
  next
    case True
    then have t: "?t = int p" using I(3) by (auto split: if_splits)
    have cw: "ht_count (h_get T h1 q) = word_of_int (int k)"
      using True eq by (simp only: c(4) count_entry_def h_timestamp.simps)
    have ready: "first_pulse ?own \<or> own_event W (ag_max_degree ?ag) (counter ?own) (own_data ?own)"
    proof -
      have "\<not> (\<exists>e' \<in> set ?es. quit e' \<noteq> 0 \<and> timestamp e' < int p)"
        using assms(5) t by (fastforce simp: quit_last_def)
      then show ?thesis using I(1,5,6) by auto
    qed
    have ci: "c_int (counter ?own + 1) = Inr (counter ?own + 1)"
    proof (rule c_int_ok)
      have "int p \<le> int (length arr)" using f(3) t of_sender_le [of s arr] by simp
      then show "int_min \<le> counter ?own + 1" "counter ?own + 1 \<le> int_max" using I(1) assms(10) by simp_all
    qed
    have pr: "process_ok pl W (ag_max_degree ?ag)" using assms(7) I(5) by simp
    have nk: "node_ok ?ag (own_data ?own) cm" using I(4) by (simp add: node_ok_hash)
    obtain ag1 own1 cm1 sub where sb: "own_submit pl W junk file e (?ag, ?own, cm) = Inr ((ag1, own1, cm1), sub)"
        "node_ok ag1 (own_data own1) cm1" "hash_ts ag1 = h1" "ag_max_degree ag1 = d"
        "counter own1 = int p + 1" "own_event W d (int p) sub"
      using own_submit_ok [OF pr assms(8) nk ready ci, of junk e] I(1,5) by auto
    obtain h2 where h2: "h_del T h1 q = Inr h2" "holds h2 (m1(ts_key (int p) := None)) (n1 - 1)"
      using c(5) by blast
    have cd: "counts_ok (int (Suc p)) (?es @ [e]) (m1(ts_key (int p) := None))"
      using counts_ok_delete [OF c(3) st] st t by (simp add: stamps_ok_def add.commute)
    have nxt: "length (pulse_events (int p + 1) (?es @ [e])) < k"
    proof -
      have "card {s'. s' < k \<and> Suc p < length (of_sender s' (arr @ [(s, e)]))} < card {..< k}"
        by (rule psubset_card_mono) (use f(2,3) t in \<open>auto simp: of_sender_snoc\<close>)
      then show ?thesis using fifo_count [OF assms(4), of "Suc p"] by (simp add: add.commute)
    qed
    note fin = own_inv_complete [OF assms(1) [unfolded nd] t True nxt]
    show ?thesis
    proof (cases "quit e \<noteq> 0")
      case q: True
      have "compute_own_metrics pl T W [0, 0, 0, 0] junk file e nd = Inr ((ag1\<lparr>hash_ts := h2\<rparr>, own1, cm1), [sub])"
        using c(1) cw assms(9) I(1,5) sb(1,3) h2(1) q
        by (simp add: compute_own_metrics_def nd Let_def)
      moreover have "own_inv k d W (?es @ [e]) (ag1\<lparr>hash_ts := h2\<rparr>, own1, cm1) (out @ [sub]) (Suc p)"
        using fin sb q by simp
      ultimately show ?thesis using h2(2) cd by fastforce
    next
      case q: False
      have pr1: "process_ok pl W (ag_max_degree (ag1\<lparr>hash_ts := h2\<rparr>))" using assms(7) sb(4) by simp
      have nk1: "node_ok (ag1\<lparr>hash_ts := h2\<rparr>) (own_data own1) cm1" using sb(2) by (simp add: node_ok_hash)
      obtain ag2 own2 cm2 where nx: "own_next pl W junk file e (ag1\<lparr>hash_ts := h2\<rparr>, own1, cm1) = Inr (ag2, own2, cm2)"
          "node_ok ag2 (own_data own2) cm2" "hash_ts ag2 = h2" "ag_max_degree ag2 = d"
          "counter own2 = int p + 1" "own_event W d (int p + 1) (own_data own2)"
        using own_next_ok [OF pr1 assms(8) nk1, of junk e] sb(4,5) by auto
      have "compute_own_metrics pl T W [0, 0, 0, 0] junk file e nd = Inr ((ag2, own2, cm2), [sub])"
        using c(1) cw assms(9) I(1,5) sb(1,3) h2(1) nx(1) q
        by (simp add: compute_own_metrics_def nd Let_def)
      moreover have "own_inv k d W (?es @ [e]) (ag2, own2, cm2) (out @ [sub]) (Suc p)"
      proof -
        have "ag2\<lparr>hash_ts := h2\<rparr> = ag2" using nx(3) by (cases ag2) simp
        then show ?thesis using fin [OF nx(2,4,5) sb(6), of h2] nx(6) by metis
      qed
      ultimately show ?thesis using h2(2) cd nx(3) by fastforce
    qed
  qed
qed

lemma own_run_inv_with:
  assumes "own_inv k d W [] nd [] 0" "holds (hash_ts (fst nd)) Map.empty 0"
    and "fifo k arr" "quit_last (map snd arr)" "ahead k cap arr" "int (length arr) < int_max" "int k \<le> int_max"
    and "\<forall>i. process_ok (pl i) W d" "\<forall>f \<in> set files. file_ok f" "length files = length arr"
    and "get_degree_node d (comm_size W) (comm_rank W) = Inr (int k)"
    and "J nd []" "\<forall>(e, f) \<in> set (zip (map snd arr) files). G e f"
    and "\<And>i es e f nd out p nd1 o1 p1. own_inv k d W es nd out p \<Longrightarrow> own_inv k d W (es @ [e]) nd1 (out @ o1) p1 \<Longrightarrow>
      compute_own_metrics (pl i) T W [0, 0, 0, 0] junk f e nd = Inr (nd1, o1) \<Longrightarrow> G e f \<Longrightarrow> J nd out \<Longrightarrow> J nd1 (out @ o1)"
  shows "\<exists>nd1 out p m n. own_run pl T W [0, 0, 0, 0] junk (nd, []) (zip (map snd arr) files) = Inr (nd1, out) \<and>
    own_inv k d W (map snd arr) nd1 out p \<and> holds (hash_ts (fst nd1)) m n \<and> counts_ok (int p) (map snd arr) m \<and>
    J nd1 out"
  using assms(3-6,9,10,13)
proof (induction arr arbitrary: files rule: rev_induct)
  case Nil
  then show ?case using assms(1,2,12) counts_ok_empty by force
next
  case (snoc x arr)
  obtain s e where x: "x = (s, e)" by (cases x)
  have ne: "files \<noteq> []" using snoc.prems(6) by auto
  define fs where "fs = butlast files"
  define f where "f = last files"
  have ff: "files = fs @ [f]" using ne by (simp add: fs_def f_def)
  have fl: "length fs = length arr" using snoc.prems(6) ff by simp
  note fi = fifo_snoc [OF snoc.prems(1) [unfolded x]]
  note ah = ahead_snoc [OF snoc.prems(3) [unfolded x]]
  have ql: "quit_last (map snd arr @ [e])" using snoc.prems(2) x by simp
  obtain nd1 out p m n where IH: "own_run pl T W [0, 0, 0, 0] junk (nd, []) (zip (map snd arr) fs) = Inr (nd1, out)"
      "own_inv k d W (map snd arr) nd1 out p" "holds (hash_ts (fst nd1)) m n"
      "counts_ok (int p) (map snd arr) m" "J nd1 out"
    using snoc.IH [OF fi(1) quit_last_snoc [OF ql] ah(1) _ _ fl] snoc.prems(4,5,7) ff fl by auto
  have g: "G e f" using snoc.prems(7) x ff fl by simp
  have fo: "file_ok f" using snoc.prems(5) ff by simp
  have len: "int (length arr) + 1 < int_max" using snoc.prems(4) by simp
  obtain nd2 o1 p1 m1 n1 where st: "compute_own_metrics (pl (length arr)) T W [0, 0, 0, 0] junk f e nd1 = Inr (nd2, o1)"
      "own_inv k d W (map snd arr @ [e]) nd2 (out @ o1) p1" "holds (hash_ts (fst nd2)) m1 n1"
      "counts_ok (int p1) (map snd arr @ [e]) m1"
    using own_step [OF IH(2-4) snoc.prems(1) [unfolded x] ql _ spec [OF assms(8), of "length arr"] fo assms(11) len assms(7), of junk]
      ah(2) by blast
  have "zip (map snd (arr @ [x])) files = zip (map snd arr) fs @ [(e, f)]"
    using fl by (simp add: x ff)
  then have "own_run pl T W [0, 0, 0, 0] junk (nd, []) (zip (map snd (arr @ [x])) files) = Inr (nd2, out @ o1)"
    using IH(1) st(1) fl by (simp add: own_run_append)
  moreover have "map snd (arr @ [x]) = map snd arr @ [e]" by (simp add: x)
  moreover have "J nd2 (out @ o1)" by (rule assms(14) [OF IH(2) st(2,1) g IH(5)])
  ultimately show ?case using st(2-4) by metis
qed

lemma own_run_inv:
  assumes "own_inv k d W [] nd [] 0" "holds (hash_ts (fst nd)) Map.empty 0"
    and "fifo k arr" "quit_last (map snd arr)" "ahead k cap arr" "int (length arr) < int_max" "int k \<le> int_max"
    and "\<forall>i. process_ok (pl i) W d" "\<forall>f \<in> set files. file_ok f" "length files = length arr"
    and "get_degree_node d (comm_size W) (comm_rank W) = Inr (int k)"
  shows "\<exists>nd1 out p m n. own_run pl T W [0, 0, 0, 0] junk (nd, []) (zip (map snd arr) files) = Inr (nd1, out) \<and>
    own_inv k d W (map snd arr) nd1 out p \<and> holds (hash_ts (fst nd1)) m n \<and> counts_ok (int p) (map snd arr) m"
  using own_run_inv_with [OF assms, of "\<lambda>_ _. True" "\<lambda>_ _. True"] by blast

end

interpretation ts: ts_store uth_ops uth_rep 9
  by unfold_locales

section \<open>Properties\<close>

text \<open>The state of an inner node before its first event: nothing read, the table empty.\<close>

definition own_start :: "metrics \<Rightarrow> own_state" where
  "own_start zero = \<lparr>counter = 0, initialized = False, first_pulse = True, own_data = zero\<rparr>"

definition fresh_node :: "int \<Rightarrow> (h_timestamp uth, 'p) node \<Rightarrow> bool" where
  "fresh_node d nd \<longleftrightarrow> (case nd of (ag, own, cm) \<Rightarrow>
     own = own_start metrics_zero \<and> uth_rep (hash_ts ag) [] \<and> ag_max_degree ag = d \<and>
     total_metrics ag = 0 \<and> desired_metrics ag = None)"

lemma fresh_node_inv:
  assumes "fresh_node d nd" "1 \<le> k"
  shows "own_inv k d W [] nd [] 0" "uth.holds (hash_ts (fst nd)) Map.empty 0"
  using assms uth.holds_empty
  by (auto simp: fresh_node_def own_inv_def node_ok_def desired_ok_def own_start_def metrics_zero_def)

text \<open>
  C7. An inner node with \<open>k\<close> children submits one own event per pulse. For every interleaving of the
  children's events that keeps each child's order, with no child 9 pulses ahead of another (so that the hash table never
  expands), with quit flags only on the last pulse, with a readable aliases file at every event, and provided that the four
  bytes behind \<open>counter\<close>, which the handler's lookup reads as part of the key, are zero (otherwise the first event already ends
  in NULL, \<open>counter_lookup_overreads\<close>), the handler never fails: the
  count of the current pulse is always found in the hash table of uthash.h, and the submitted events are
  those of the pulses \<open>0, ..., p - 1\<close> in this order, where \<open>p\<close> is the number of pulses of which all
  \<open>k\<close> children's events have arrived.
\<close>

theorem own_events_in_order:
  assumes "fresh_node d nd" "\<forall>i. process_ok (pl i) W d"
    and "get_degree_node d (comm_size W) (comm_rank W) = Inr (int k)" "1 \<le> k" "int k \<le> int_max"
    and "fifo k arr" "quit_last (map snd arr)" "ahead k 9 arr" "int (length arr) < int_max"
    and "\<forall>f \<in> set files. file_ok f" "length files = length arr" "beyond = [0, 0, 0, 0]"
  shows "\<exists>nd1 out p. own_run pl uth_ops W beyond junk (nd, []) (zip (map snd arr) files) = Inr (nd1, out) \<and>
    map timestamp out = map int [0 ..< p] \<and>
    (\<forall>t < p. own_event W d (int t) (out ! t)) \<and>
    (\<forall>t. t < p \<longleftrightarrow> length (pulse_events (int t) (map snd arr)) = k)"
proof -
  obtain nd1 out p where r: "own_run pl uth_ops W beyond junk (nd, []) (zip (map snd arr) files) = Inr (nd1, out)"
      "own_inv k d W (map snd arr) nd1 out p"
    using ts.own_run_inv [OF fresh_node_inv [OF assms(1,4)] assms(6-9,5,2,10,11,3), of junk] unfolding assms(12) by blast
  have o: "length out = p" "\<forall>t < p. own_event W d (int t) (out ! t)"
      "\<forall>t < p. length (pulse_events (int t) (map snd arr)) = k"
      "length (pulse_events (int p) (map snd arr)) < k"
    using r(2) by (auto simp: own_inv_def)
  have "map timestamp out = map int [0 ..< p]"
    using o(1,2) by (intro nth_equalityI) (auto simp: own_event_def)
  moreover have "t < p" if "length (pulse_events (int t) (map snd arr)) = k" for t
    using fifo_earlier [OF assms(6) that, of p] o(4) by linarith
  ultimately show ?thesis using r(1) o(2,3) by blast
qed

definition sample_root :: mpi_world where
  "sample_root = \<lparr>comm_rank = 0, comm_size = 3\<rparr>"

definition sample_fresh :: "(h_timestamp uth, unit) node" where
  "sample_fresh = (sample_aggregator (uth_empty \<lparr>ht_count = 0, ht_ts = 0\<rparr>), own_start metrics_zero, (None, ()))"

definition sample_children :: "(nat \<times> metrics) list" where
  "sample_children = [(0, sample_event 2 3 1 0 7), (1, sample_event 2 3 2 0 5), (1, sample_event 2 3 2 1 6)]"

lemma sample_fresh_ok: "fresh_node 2 sample_fresh"
  using uth_empty_rep by (simp add: fresh_node_def sample_fresh_def sample_aggregator_def)

lemma sample_children_ok:
  "fifo 2 sample_children" "quit_last (map snd sample_children)" "ahead 2 9 sample_children"
  by (simp_all add: sample_children_def arrivals_eval quit_last_def ahead_def)

lemma sample_degree: "get_degree_node 2 3 0 = Inr (int 2)"
  by (simp add: get_degree_node_def degree_loop.simps c_int_def)

lemma sample_process_ok: "knows_metrics uth_ops s \<Longrightarrow> process_ok (sample_platform s) sample_root 2"
  by (simp add: process_ok_def sample_env_ok sample_root_def valid_topo_def)

lemma sample_file_ok: "file_ok (Some (aliases_text [''rank'']))"
  unfolding file_ok_def by (intro exI [of _ "[''rank'']"]) simp

theorem own_events_in_order_witness:
  "\<exists>s. knows_metrics uth_ops s \<and>
   (\<exists>nd1 out p. own_run (\<lambda>_. sample_platform s) uth_ops sample_root [0, 0, 0, 0] (\<lambda>_. same_value 7) (sample_fresh, [])
      (zip (map snd sample_children) (replicate 3 (Some (aliases_text [''rank''])))) = Inr (nd1, out) \<and>
    map timestamp out = map int [0 ..< p] \<and>
    (\<forall>t < p. own_event sample_root 2 (int t) (out ! t)) \<and>
    (\<forall>t. t < p \<longleftrightarrow> length (pulse_events (int t) (map snd sample_children)) = 2))"
proof -
  obtain s :: "htable uth" where s: "knows_metrics uth_ops s" using sample_store by blast
  show ?thesis
    by (rule exI [of _ s], rule conjI [OF s],
        rule own_events_in_order [OF sample_fresh_ok allI [OF sample_process_ok [OF s]] _ _ _ sample_children_ok])
       (simp_all add: sample_root_def sample_degree sample_file_ok sample_children_def)
qed

lemma counter_key_beyond:
  assumes "counter_key beyond c = ts_key t" "0 \<le> t" "t \<le> int_max"
  shows "beyond = [0, 0, 0, 0]"
proof -
  have "bytes32 (word_of_int c) @ beyond = bytes32 (word_of_int t) @ [0, 0, 0, 0]"
    using assms(1) counter_key_zero [OF assms(2,3)] by (simp add: counter_key_def)
  moreover have "length (bytes32 (word_of_int c)) = length (bytes32 (word_of_int t))" by (simp add: bytes32_def)
  ultimately show ?thesis using append_eq_append_conv by metis
qed

text \<open>
  C37. The lookup of the current pulse passes \<open>&counter\<close>, the address of a 4-byte int, with a key
  length of 8 bytes. Unless the four bytes behind \<open>counter\<close> happen to be zero, the lookup finds
  nothing, and already the first event of a fresh node ends in the dereference of NULL.
\<close>

theorem counter_lookup_overreads:
  assumes "fresh_node d (ag, own, cm)" "length beyond = 4" "beyond \<noteq> [0, 0, 0, 0]"
    and "0 \<le> timestamp e" "timestamp e \<le> int_max"
  shows "compute_own_metrics pl uth_ops W beyond junk file e (ag, own, cm) = Inl NullDeref"
proof -
  let ?k = "ts_key (timestamp e)" and ?x = "\<lparr>ht_count = 1, ht_ts = word_of_int (timestamp e)\<rparr>"
  have h: "uth.holds (hash_ts ag) Map.empty 0"
    using fresh_node_inv(2) [OF assms(1) order_refl] by simp
  have f: "HASH_FIND (hash_ts ag) ?k = Inr None" using uth.holds_find [OF h, of ?k] by auto
  obtain h1 where h1: "uth_insert (hash_ts ag) ?k ?x = Inr h1" "uth.holds h1 [?k \<mapsto> ?x] (Suc 0)"
    using uth.holds_insert [OF h, of ?k] by auto
  have "counter_key beyond (counter own) \<noteq> ?k"
    using counter_key_beyond [OF _ assms(4,5)] assms(3) by blast
  then have "HASH_FIND h1 (counter_key beyond (counter own)) = Inr None"
    using uth.holds_find [OF h1(2), of "counter_key beyond (counter own)"] by auto
  then have "count_event uth_ops beyond (counter own) e (hash_ts ag) = Inl NullDeref"
    using f h1(1) by (simp add: count_event_def)
  then show ?thesis by (simp add: compute_own_metrics_def Let_def)
qed

theorem counter_lookup_overreads_witness:
  "compute_own_metrics (sample_platform (uth_empty \<lparr>ht_key = [], ht_value = return_rank\<rparr>)) uth_ops
     sample_root [1, 0, 0, 0] (\<lambda>_. same_value 0) None (sample_event 2 3 1 0 7) sample_fresh = Inl NullDeref"
  unfolding sample_fresh_def
  by (rule counter_lookup_overreads [OF sample_fresh_ok [unfolded sample_fresh_def]])
     (simp_all add: sample_event_def)

end
