(* ===== verification/Leaf.thy ===== *)
theory Leaf
  imports Inner_Node
begin

text \<open>
  The communication thread of a leaf (metrics_aggregator.c: \<open>start_communication\<close>), which measures and
  submits one event per pulse until the program has called \<open>monitoring_finalize\<close>, in both builds, and the older
  variant \<open>start_communication_old\<close>, in which the leaves meet at barriers. The loop may run forever, so it has
  fuel: None is a loop that has not ended yet. What changes from pulse to pulse is given as functions of
  the number of the pulse: the platform on which the metrics are computed, the text of the aliases file, the
  value of \<open>leafs_finished\<close> when it is read under its mutex, and the clock.
\<close>

section \<open>One pulse\<close>

text \<open>The state of the thread: the aggregator, PAPI's state, the event \<open>data\<close> and \<open>counter\<close>.\<close>

type_synonym ('h, 'p, 'z) leaf = "'h metrics_aggregator \<times> 'p cm_state \<times> 'z metrics_scheme \<times> int"

text \<open>Before the loop; the other fields keep the contents \<open>raw\<close> of the stack.\<close>

definition leaf_init :: "mpi_world \<Rightarrow> 'z metrics_scheme \<Rightarrow> 'h metrics_aggregator \<Rightarrow> 'p cm_state \<Rightarrow>
    ('h, 'p, 'z) leaf res" where
  "leaf_init W raw ag cm =
     bind_r (get_parent (ag_max_degree ag) (comm_rank W)) (\<lambda>par.
     Inr (ag, cm, raw\<lparr>max_degree := ag_max_degree ag, parent_rank := par, nprocs := comm_size W, quit := 0\<rparr>, 0))"

text \<open>The body after the quit flag has been set: the measured event, and the state for the next pulse.\<close>

definition leaf_measure :: "('s, 'p) platform \<Rightarrow> (nat \<Rightarrow> aggregators) \<Rightarrow> string option \<Rightarrow>
    ('h, 'p, 'z) leaf \<Rightarrow> ('h metrics_aggregator \<times> 'p cm_state \<times> 'z metrics_scheme) res" where
  "leaf_measure pl junk file st =
     (case st of (ag, cm, data, cnt) \<Rightarrow>
       let d1 = data\<lparr>timestamp := cnt\<rparr> in
       bind_r (initialize_metrics_crawler_number_from_file ag (Some (metrics_nr d1)) file) (\<lambda>(ag1, n).
       bind_r (metrics_crawler_results_file pl ag1 (malloc_results junk n) file cm) (\<lambda>(ag2, g, sync, cm1).
       Inr (ag2, cm1, d1\<lparr>metrics_nr := n, gather_info := g, update_file := (if sync then 1 else 0)\<rparr>))))"

definition leaf_pulse :: "('s, 'p) platform \<Rightarrow> (nat \<Rightarrow> aggregators) \<Rightarrow> string option \<Rightarrow> bool \<Rightarrow>
    ('h, 'p, unit) leaf \<Rightarrow> (('h, 'p, unit) leaf \<times> metrics) res" where
  "leaf_pulse pl junk file finished st =
     (case st of (ag, cm, data, cnt) \<Rightarrow>
       bind_r (leaf_measure pl junk file (ag, cm, data\<lparr>quit := (if finished then 1 else 0)\<rparr>, cnt)) (\<lambda>(ag1, cm1, d1).
       bind_r (c_int (cnt + 1)) (\<lambda>c1. Inr ((ag1, cm1, d1, c1), d1))))"

text \<open>In the BENCHMARKING build the number of pulses is fixed, and the event carries its start time.\<close>

definition leaf_pulse_bench :: "('s, 'p) platform \<Rightarrow> (nat \<Rightarrow> aggregators) \<Rightarrow> string option \<Rightarrow> double \<Rightarrow>
    ('h, 'p, \<lparr>start_time :: double\<rparr>) leaf \<Rightarrow> (('h, 'p, \<lparr>start_time :: double\<rparr>) leaf \<times> metrics_bench) res" where
  "leaf_pulse_bench pl junk file wtime st =
     (case st of (ag, cm, data, cnt) \<Rightarrow>
       let data1 = (if word_of_int cnt = max_timestamps ag - 1 then data\<lparr>quit := 1\<rparr> else data) in
       bind_r (leaf_measure pl junk file (ag, cm, data1, cnt)) (\<lambda>(ag1, cm1, d1).
       let d2 = d1\<lparr>start_time := wtime\<rparr> in
       bind_r (c_int (cnt + 1)) (\<lambda>c1. Inr ((ag1, cm1, d2, c1), d2))))"

section \<open>The loop\<close>

text \<open>
  \<open>while (!data.quit)\<close> around a body; \<open>i\<close> counts the pulses. The result has the final state and the
  submitted events.
\<close>

fun pulse_loop :: "(nat \<Rightarrow> ('h, 'p, 'z) leaf \<Rightarrow> (('h, 'p, 'z) leaf \<times> 'z metrics_scheme) res) \<Rightarrow> nat \<Rightarrow> nat \<Rightarrow>
    ('h, 'p, 'z) leaf \<Rightarrow> (('h, 'p, 'z) leaf \<times> 'z metrics_scheme list) res option" where
  "pulse_loop body 0 i st = None"
| "pulse_loop body (Suc fuel) i st =
     (if quit (fst (snd (snd st))) \<noteq> 0 then Some (Inr (st, []))
      else case body i st of
        Inl e \<Rightarrow> Some (Inl e)
      | Inr (st1, event) \<Rightarrow>
          (case pulse_loop body fuel (Suc i) st1 of
             None \<Rightarrow> None
           | Some r \<Rightarrow> Some (bind_r r (\<lambda>(st2, events). Inr (st2, event # events)))))"

definition start_communication :: "(nat \<Rightarrow> ('s, 'p) platform) \<Rightarrow> mpi_world \<Rightarrow> (nat \<Rightarrow> aggregators) \<Rightarrow>
    (nat \<Rightarrow> string option) \<Rightarrow> (nat \<Rightarrow> bool) \<Rightarrow> metrics \<Rightarrow> nat \<Rightarrow> 'h metrics_aggregator \<Rightarrow> 'p cm_state \<Rightarrow>
    (('h, 'p, unit) leaf \<times> metrics list) res option" where
  "start_communication pl W junk files finished raw fuel ag cm =
     (case leaf_init W raw ag cm of
        Inl e \<Rightarrow> Some (Inl e)
      | Inr st \<Rightarrow> pulse_loop (\<lambda>i. leaf_pulse (pl i) junk (files i) (finished i)) fuel 0 st)"

definition start_communication_bench :: "(nat \<Rightarrow> ('s, 'p) platform) \<Rightarrow> mpi_world \<Rightarrow> (nat \<Rightarrow> aggregators) \<Rightarrow>
    (nat \<Rightarrow> string option) \<Rightarrow> (nat \<Rightarrow> double) \<Rightarrow> metrics_bench \<Rightarrow> nat \<Rightarrow> 'h metrics_aggregator \<Rightarrow> 'p cm_state \<Rightarrow>
    (('h, 'p, \<lparr>start_time :: double\<rparr>) leaf \<times> metrics_bench list) res option" where
  "start_communication_bench pl W junk files wtime raw fuel ag cm =
     (case leaf_init W raw ag cm of
        Inl e \<Rightarrow> Some (Inl e)
      | Inr st \<Rightarrow> pulse_loop (\<lambda>i. leaf_pulse_bench (pl i) junk (files i) (wtime i)) fuel 0 st)"

text \<open>
  The thread of a leaf is started detached; the three calls of the pthread library return 0 or an error number, and
  every error ends the process.
\<close>

record pthread_results =
  attr_init :: int
  attr_setdetachstate :: int
  thread_create :: int

definition start_leaf_thread :: "pthread_results \<Rightarrow> unit res" where
  "start_leaf_thread P =
     (if attr_init P \<noteq> 0 then Inl (ExitCode 1)
      else if attr_setdetachstate P \<noteq> 0 then Inl (ExitCode 1)
      else if thread_create P \<noteq> 0 then Inl (ExitCode 1)
      else Inr ())"

section \<open>The older variant\<close>

text \<open>All leaves set the fixed fields of their event before the first round.\<close>

fun old_start :: "metrics \<Rightarrow> (mpi_world \<times> 'h metrics_aggregator \<times> 'p cm_state) list \<Rightarrow> ('h, 'p, unit) leaf list res" where
  "old_start raw [] = Inr []"
| "old_start raw ((W, ag, cm) # leaves) =
     bind_r (leaf_init W raw ag cm) (\<lambda>st. bind_r (old_start raw leaves) (\<lambda>sts. Inr (st # sts)))"

text \<open>
  \<open>MPI_Reduce\<close> with \<open>MPI_BOR\<close> delivers the combined flag to the leaf of rank 0 alone; the others keep
  their own.
\<close>

definition elected_quit :: "int list \<Rightarrow> nat \<Rightarrow> int" where
  "elected_quit quits leaf_rank = (if leaf_rank = 0 then foldr (OR) quits 0 else quits ! leaf_rank)"

text \<open>
  One round of all leaves. The barrier at its start returns only if every leaf reaches it: if some
  have left their loop and others have not, the latter wait forever, which is None.
\<close>

definition old_round :: "('s, 'p) platform \<Rightarrow> (nat \<Rightarrow> aggregators) \<Rightarrow> (nat \<Rightarrow> string option) \<Rightarrow> bool list \<Rightarrow>
    ('h, 'p, unit) leaf list \<Rightarrow> (('h, 'p, unit) leaf \<times> metrics) res list option" where
  "old_round pl junk files finished leaves =
     (if list_ex (\<lambda>st. quit (fst (snd (snd st))) \<noteq> 0) leaves then None
      else
        let quits = map (\<lambda>f. if f then 1 else 0) finished in
        Some (map (\<lambda>r. leaf_pulse pl junk (files r) (elected_quit quits r \<noteq> 0) (leaves ! r)) [0 ..< length leaves]))"

section \<open>Runs of the loop\<close>

lemma pulse_loop_runs:
  assumes step: "\<And>i st. i \<le> n \<Longrightarrow> I i st \<Longrightarrow> \<exists>st1 e. body i st = Inr (st1, e) \<and> I (Suc i) st1 \<and> E i e \<and>
      (quit (fst (snd (snd st1))) \<noteq> 0 \<longleftrightarrow> i = n)"
    and "I i st" "quit (fst (snd (snd st))) = 0" "i \<le> n" "n - i + 2 \<le> fuel"
  shows "\<exists>st1 evs. pulse_loop body fuel i st = Some (Inr (st1, evs)) \<and> length evs = Suc n - i \<and>
    (\<forall>j < length evs. E (i + j) (evs ! j))"
  using assms(2-)
proof (induction "n - i" arbitrary: i st fuel)
  case 0
  then have n: "i = n" by simp
  obtain st1 e where b: "body i st = Inr (st1, e)" "E i e" "quit (fst (snd (snd st1))) \<noteq> 0"
    using step [of i st] 0 n by blast
  obtain f where f: "fuel = Suc (Suc f)" using 0(5) by (metis add_2_eq_Suc' le_Suc_ex add_Suc)
  have "pulse_loop body fuel i st = Some (Inr (st1, [e]))" using b 0(3) by (simp add: f)
  then show ?case using b(2) n by (intro exI [of _ st1] exI [of _ "[e]"]) simp
next
  case (Suc d)
  obtain st1 e where b: "body i st = Inr (st1, e)" "I (Suc i) st1" "E i e" "quit (fst (snd (snd st1))) = 0"
    using step [of i st] Suc by fastforce
  obtain f where f: "fuel = Suc f" using Suc.prems(4) by (cases fuel) auto
  obtain st2 evs where r: "pulse_loop body f (Suc i) st1 = Some (Inr (st2, evs))" "length evs = Suc n - Suc i"
      "\<forall>j < length evs. E (Suc i + j) (evs ! j)"
    using Suc.hyps(1) [of "Suc i" st1 f] Suc.hyps(2) Suc.prems f b by fastforce
  have "pulse_loop body fuel i st = Some (Inr (st2, e # evs))" using b r(1) Suc.prems(2) by (simp add: f)
  moreover have "E (i + j) ((e # evs) ! j)" if "j < length (e # evs)" for j
    using that b(3) r(3) by (cases j) auto
  ultimately show ?case using r(2) Suc.hyps(2)
    by (intro exI [of _ st2] exI [of _ "e # evs"]) auto
qed

lemma pulse_loop_forever:
  assumes step: "\<And>i st. I i st \<Longrightarrow> i < m \<Longrightarrow> \<exists>st1 e. body i st = Inr (st1, e) \<and> I (Suc i) st1"
    and quit0: "\<And>i st. I i st \<Longrightarrow> quit (fst (snd (snd st))) = 0"
    and "I i st" "i + fuel \<le> m"
  shows "pulse_loop body fuel i st = None"
  using assms(3,4)
proof (induction fuel arbitrary: i st)
  case (Suc fuel)
  obtain st1 e where "body i st = Inr (st1, e)" "I (Suc i) st1" using step [of i st] Suc.prems by auto
  then show ?case using Suc quit0 [of i st] by simp
qed simp

text \<open>The number of metrics before pulse \<open>i\<close>, and whether the pulse reports a change.\<close>

definition changed :: "(nat \<Rightarrow> string list) \<Rightarrow> nat \<Rightarrow> bool" where
  "changed names i \<longleftrightarrow> names i \<noteq> [] \<and> length (names i) \<noteq> (if i = 0 then 0 else length (names (i - 1)))"

definition names_ok :: "string list \<Rightarrow> bool" where
  "names_ok names \<longleftrightarrow> list_all alias_ok names \<and> int (length names) \<le> int_max"

text \<open>The event of pulse \<open>i\<close>.\<close>

definition leaf_event :: "mpi_world \<Rightarrow> int \<Rightarrow> (nat \<Rightarrow> string list) \<Rightarrow> nat \<Rightarrow> 'z metrics_scheme \<Rightarrow> bool" where
  "leaf_event W d names i e \<longleftrightarrow> timestamp e = int i \<and> max_degree e = d \<and> nprocs e = comm_size W \<and>
     get_parent d (comm_rank W) = Inr (parent_rank e) \<and>
     metrics_nr e = int (length (names i)) \<and> length (gather_info e) = length (names i) \<and>
     update_file e = (if changed names i then 1 else 0)"

text \<open>The state before pulse \<open>i\<close>.\<close>

definition leaf_ok :: "mpi_world \<Rightarrow> int \<Rightarrow> (nat \<Rightarrow> string list) \<Rightarrow> nat \<Rightarrow> ('h, 'p, 'z) leaf \<Rightarrow> bool" where
  "leaf_ok W d names i st \<longleftrightarrow> (case st of (ag, cm, data, cnt) \<Rightarrow>
     desired_ok ag \<and> ag_max_degree ag = d \<and> cnt = int i \<and>
     total_metrics ag = (if i = 0 then 0 else int (length (names (i - 1)))) \<and>
     max_degree data = d \<and> nprocs data = comm_size W \<and> get_parent d (comm_rank W) = Inr (parent_rank data))"

lemma leaf_measure_ok:
  assumes "process_ok pl W d" "names_ok (names i)" "leaf_ok W d names i (ag, cm, data, cnt)"
  shows "\<exists>cm1 g. leaf_measure pl junk (Some (aliases_text (names i))) (ag, cm, data, cnt) =
    Inr (crawled ag (names i), cm1, data\<lparr>timestamp := cnt, metrics_nr := int (length (names i)),
      gather_info := g, update_file := (if changed names i then 1 else 0)\<rparr>) \<and> length g = length (names i) \<and> measured pl (names i) g"
proof -
  have d: "desired_ok ag" using assms(3) by (simp add: leaf_ok_def)
  have n: "list_all alias_ok (names i)" "int (length (names i)) \<le> int_max" using assms(2) by (auto simp: names_ok_def)
  have pr: "knows_metrics (pl_hash pl) (pl_store pl)" "env_ok (pl_env pl)"
    using assms(1) by (auto simp: process_ok_def)
  have num: "initialize_metrics_crawler_number_from_file ag nr (Some (aliases_text (names i))) =
      Inr (counted ag (length (names i)), int (length (names i)))" for nr
    using number_from_text [OF d] n(2) by simp
  obtain g ev p1 k where res: "metrics_crawler_results_file pl (counted ag (length (names i)))
      (malloc_results junk (int (length (names i)))) (Some (aliases_text (names i))) cm =
      Inr (crawled ag (names i), g, names i \<noteq> [] \<and> int (length (names i)) \<noteq> total_metrics ag, (Some ev, p1))"
      "written (pl_env pl) (map Some (names i)) 0 k (malloc_results junk (int (length (names i)))) g"
      "k \<le> length (names i)" "k < length (names i) \<longrightarrow> callback_of (names i ! k) = None \<and> papi_fails (pl_papi pl) (names i ! k)"
    using results_from_text [OF n pr, of "malloc_results junk (int (length (names i)))" ag cm]
    by (auto simp: malloc_results_def)
  have "length g = length (names i)" using res(2) by (simp add: written_def malloc_results_def)
  moreover have "measured pl (names i) g" by (rule written_measured [OF res(2-4)])
  moreover have "(names i \<noteq> [] \<and> int (length (names i)) \<noteq> total_metrics ag) = changed names i"
    using assms(3) by (simp add: leaf_ok_def changed_def)
  ultimately show ?thesis using num res(1)
    by (intro exI [of _ "(Some ev, p1)"] exI [of _ g]) (simp add: leaf_measure_def Let_def)
qed

lemma leaf_pulse_ok:
  assumes "process_ok pl W d" "names_ok (names i)" "leaf_ok W d names i st" "int i < int_max"
  shows "\<exists>st1 e. leaf_pulse pl junk (Some (aliases_text (names i))) fin st = Inr (st1, e) \<and>
    leaf_ok W d names (Suc i) st1 \<and> leaf_event W d names i e \<and> fst (snd (snd st1)) = e \<and>
    quit e = (if fin then 1 else 0) \<and> measured pl (names i) (gather_info e)"
proof -
  obtain ag cm data cnt where st: "st = (ag, cm, data, cnt)" by (metis prod_cases4)
  let ?d = "data\<lparr>quit := (if fin then 1 else 0)\<rparr>"
  have ok: "leaf_ok W d names i (ag, cm, ?d, cnt)" using assms(3) by (simp add: st leaf_ok_def)
  obtain cm1 g where m: "leaf_measure pl junk (Some (aliases_text (names i))) (ag, cm, ?d, cnt) =
      Inr (crawled ag (names i), cm1, ?d\<lparr>timestamp := cnt, metrics_nr := int (length (names i)),
        gather_info := g, update_file := (if changed names i then 1 else 0)\<rparr>)" "length g = length (names i)" "measured pl (names i) g"
    using leaf_measure_ok [OF assms(1,2) ok] by blast
  have "cnt = int i" using ok by (simp add: leaf_ok_def)
  then have c: "c_int (cnt + 1) = Inr (int (Suc i))" using assms(4) by (simp add: c_int_def)
  show ?thesis using m c ok crawled_ok [of ag "names i"]
    by (simp add: st leaf_pulse_def leaf_ok_def leaf_event_def crawled_def counted_def)
qed

lemma leaf_pulse_bench_ok:
  assumes "process_ok pl W d" "names_ok (names i)" "leaf_ok W d names i st" "int i < int_max"
  shows "\<exists>st1 e. leaf_pulse_bench pl junk (Some (aliases_text (names i))) t st = Inr (st1, e) \<and>
    leaf_ok W d names (Suc i) st1 \<and> leaf_event W d names i e \<and> fst (snd (snd st1)) = e \<and>
    max_timestamps (fst st1) = max_timestamps (fst st) \<and> start_time e = t \<and>
    quit e = (if word_of_int (int i) = max_timestamps (fst st) - 1 then 1 else quit (fst (snd (snd st))))"
proof -
  obtain ag cm data cnt where st: "st = (ag, cm, data, cnt)" by (metis prod_cases4)
  let ?d = "if word_of_int cnt = max_timestamps ag - 1 then data\<lparr>quit := 1\<rparr> else data"
  have ok: "leaf_ok W d names i (ag, cm, ?d, cnt)" using assms(3) by (simp add: st leaf_ok_def)
  obtain cm1 g where m: "leaf_measure pl junk (Some (aliases_text (names i))) (ag, cm, ?d, cnt) =
      Inr (crawled ag (names i), cm1, ?d\<lparr>timestamp := cnt, metrics_nr := int (length (names i)),
        gather_info := g, update_file := (if changed names i then 1 else 0)\<rparr>)" "length g = length (names i)"
    using leaf_measure_ok [OF assms(1,2) ok] by blast
  have i: "cnt = int i" using ok by (simp add: leaf_ok_def)
  then have c: "c_int (cnt + 1) = Inr (int (Suc i))" using assms(4) by (simp add: c_int_def)
  show ?thesis using m(1,2) c ok i crawled_ok [of ag "names i"]
    by (simp add: st leaf_pulse_bench_def leaf_ok_def leaf_event_def crawled_def counted_def Let_def)
qed

lemma leaf_init_ok:
  assumes "process_ok pl W (ag_max_degree ag)" "desired_ok ag" "total_metrics ag = 0"
  shows "\<exists>st. leaf_init W raw ag cm = Inr st \<and> leaf_ok W (ag_max_degree ag) names 0 st \<and>
    quit (fst (snd (snd st))) = 0 \<and> fst st = ag"
proof -
  have v: "valid_topo (ag_max_degree ag) (comm_size W)" "0 \<le> comm_rank W" "comm_rank W < comm_size W"
    using assms(1) by (auto simp: process_ok_def)
  obtain par where "get_parent (ag_max_degree ag) (comm_rank W) = Inr par"
    using get_parent_eq [OF v(1) _ v(3)] get_parent_root [OF v(1)] v(2) by (cases "comm_rank W = 0") auto
  then show ?thesis using assms(2,3) by (simp add: leaf_init_def leaf_ok_def)
qed

end
