(* ===== verification/Leaf_Run.thy ===== *)
theory Leaf_Run
  imports Leaf Aggregate
begin

text \<open>
  Runs of the leaf's thread: how many events it submits, what they carry, when it ends, and what the
  election of the older variant does.
\<close>

section \<open>Until the program finishes\<close>

lemma leaf_loop_ok:
  assumes "\<forall>i. process_ok (pl i) W d" "\<forall>i. names_ok (names i)" "finished n" "\<forall>i < n. \<not> finished i" "int n < int_max"
    and "n + 2 \<le> fuel" "leaf_ok W d names 0 st" "quit (fst (snd (snd st))) = 0"
  shows "\<exists>st1 evs. pulse_loop (\<lambda>i. leaf_pulse (pl i) junk (Some (aliases_text (names i))) (finished i)) fuel 0 st =
      Some (Inr (st1, evs)) \<and> length evs = Suc n \<and>
    (\<forall>i \<le> n. leaf_event W d names i (evs ! i) \<and> quit (evs ! i) = (if i = n then 1 else 0) \<and>
      measured (pl i) (names i) (gather_info (evs ! i)))"
proof -
  let ?body = "\<lambda>i. leaf_pulse (pl i) junk (Some (aliases_text (names i))) (finished i)"
  let ?E = "\<lambda>i e. leaf_event W d names i e \<and> quit e = (if i = n then 1 else 0) \<and> measured (pl i) (names i) (gather_info e)"
  have "\<exists>st1 e. ?body i s = Inr (st1, e) \<and> leaf_ok W d names (Suc i) st1 \<and> ?E i e \<and>
      (quit (fst (snd (snd st1))) \<noteq> 0 \<longleftrightarrow> i = n)" if "i \<le> n" "leaf_ok W d names i s" for i s
  proof -
    have "finished i \<longleftrightarrow> i = n" using assms(3,4) that(1) by (metis le_neq_implies_less)
    then show ?thesis
      using leaf_pulse_ok [OF spec [OF assms(1), of i] assms(2) [rule_format] that(2), of junk "finished i"] assms(5) that(1)
      by fastforce
  qed
  from pulse_loop_runs [of n "leaf_ok W d names" ?body ?E, OF this assms(7,8), of fuel] assms(6)
  show ?thesis by (auto simp: less_Suc_eq_le)
qed



text \<open>
  C29. Without \<open>monitoring_finalize\<close> a leaf never ends by itself: as long as the flag is not raised, the loop
  goes on, for as many pulses as its counter can number.
\<close>

theorem leaf_runs_on:
  assumes "\<forall>i. process_ok (pl i) W (ag_max_degree ag)" "desired_ok ag" "total_metrics ag = 0"
    and "\<forall>i. names_ok (names i)" "\<forall>i < fuel. \<not> finished i" "int fuel < int_max"
  shows "start_communication pl W junk (\<lambda>i. Some (aliases_text (names i))) finished raw fuel ag cm = None"
proof -
  let ?d = "ag_max_degree ag"
  let ?I = "\<lambda>i st. leaf_ok W ?d names i st \<and> quit (fst (snd (snd st))) = 0"
  let ?body = "\<lambda>i. leaf_pulse (pl i) junk (Some (aliases_text (names i))) (finished i)"
  obtain st where st: "leaf_init W raw ag cm = Inr st" "leaf_ok W ?d names 0 st" "quit (fst (snd (snd st))) = 0"
    using leaf_init_ok [OF spec [OF assms(1), of 0] assms(2,3)] by blast
  have "\<exists>st1 e. ?body i s = Inr (st1, e) \<and> ?I (Suc i) st1" if "?I i s" "i < fuel" for i s
    using leaf_pulse_ok [OF spec [OF assms(1), of i] assms(4) [rule_format] conjunct1 [OF that(1)], of junk "finished i"]
      assms(5,6) that(2) by fastforce
  from pulse_loop_forever [of ?I fuel ?body, OF this, of 0 st fuel] show ?thesis
    using st by (simp add: start_communication_def)
qed

theorem leaf_runs_on_witness:
  "\<exists>s. knows_metrics uth_ops s \<and> start_communication (\<lambda>_. sample_platform s)
      \<lparr>comm_rank = 1, comm_size = 3\<rparr> (\<lambda>_. same_value 7) (\<lambda>i. Some (aliases_text [''rank''])) (\<lambda>i. False)
      metrics_zero 1000 (sample_aggregator ()) (None, ()) = None"
proof -
  obtain s :: "htable uth" where s: "knows_metrics uth_ops s" using sample_store by blast
  show ?thesis
    by (rule exI [of _ s], rule conjI [OF s], rule leaf_runs_on)
       (simp_all add: s sample_env_ok process_ok_def valid_topo_def sample_aggregator_def desired_ok_def names_ok_def)
qed

section \<open>The benchmark\<close>

text \<open>One pulse before the last; \<open>pred\<close> is the number of the last one, or none in range.\<close>

lemma bench_step:
  assumes "process_ok pl W d" "\<forall>i. names_ok (names i)" "int i < int_max"
    and "leaf_ok W d names i s" "max_timestamps (fst s) = m" "quit (fst (snd (snd s))) = 0"
  shows "\<exists>st1 e. leaf_pulse_bench pl junk (Some (aliases_text (names i))) (wtime i) s = Inr (st1, e) \<and>
    leaf_ok W d names (Suc i) st1 \<and> max_timestamps (fst st1) = m \<and> leaf_event W d names i e \<and>
    start_time e = wtime i \<and> quit (fst (snd (snd st1))) = quit e \<and>
    quit e = (if of_nat i = m - 1 then 1 else 0)"
  using leaf_pulse_bench_ok [OF assms(1) assms(2) [rule_format] assms(4,3), of junk "wtime i"] assms(5,6)
  by fastforce

lemma of_nat_64:
  assumes "i < 2 ^ 64" "j < 2 ^ 64"
  shows "(of_nat i :: 64 word) = of_nat j \<longleftrightarrow> i = j"
proof -
  have "unat (of_nat i :: 64 word) = i" "unat (of_nat j :: 64 word) = j"
    by (rule of_nat_inverse [OF refl], use assms in simp)+
  then show ?thesis by metis
qed

lemma bench_counts:
  assumes "\<forall>i. process_ok (pl i) W (ag_max_degree ag)" "desired_ok ag" "total_metrics ag = 0"
    and "\<forall>i. names_ok (names i)" "max_timestamps ag = of_nat (Suc n)" "int (Suc n) \<le> int_max" "Suc n < fuel"
  shows "\<exists>st evs. start_communication_bench pl W junk (\<lambda>i. Some (aliases_text (names i))) wtime raw fuel ag cm =
      Some (Inr (st, evs)) \<and> length evs = Suc n \<and>
    (\<forall>i < length evs. leaf_event W (ag_max_degree ag) names i (evs ! i) \<and> start_time (evs ! i) = wtime i \<and>
      quit (evs ! i) = (if i = n then 1 else 0))"
proof -
  let ?d = "ag_max_degree ag" and ?m = "max_timestamps ag"
  let ?I = "\<lambda>i st. leaf_ok W ?d names i st \<and> max_timestamps (fst st) = ?m \<and>
    (i \<le> n \<longrightarrow> quit (fst (snd (snd st))) = 0)"
  let ?body = "\<lambda>i. leaf_pulse_bench (pl i) junk (Some (aliases_text (names i))) (wtime i)"
  let ?E = "\<lambda>i e. leaf_event W ?d names i e \<and> start_time e = wtime i \<and> quit e = (if i = n then 1 else 0)"
  obtain st where st: "leaf_init W raw ag cm = Inr st" "?I 0 st" "quit (fst (snd (snd st))) = 0"
    using leaf_init_ok [OF spec [OF assms(1), of 0] assms(2,3)] by blast
  have "\<exists>st1 e. ?body i s = Inr (st1, e) \<and> ?I (Suc i) st1 \<and> ?E i e \<and>
      (quit (fst (snd (snd st1))) \<noteq> 0 \<longleftrightarrow> i = n)" if "i \<le> n" "?I i s" for i s
  proof -
    note le = that(1) and I = that(2)
    have "?m - 1 = of_nat n" using assms(5) by simp
    moreover have "(of_nat i :: 64 word) = of_nat n \<longleftrightarrow> i = n"
      by (rule of_nat_64) (use that(1) assms(6) in simp_all)
    ultimately have l: "of_nat i = ?m - 1 \<longleftrightarrow> i = n" by simp
    have "int i < int_max" using that(1) assms(6) by simp
    obtain st1 e where e: "?body i s = Inr (st1, e)" "leaf_ok W ?d names (Suc i) st1"
        "max_timestamps (fst st1) = ?m" "leaf_event W ?d names i e" "start_time e = wtime i"
        "quit (fst (snd (snd st1))) = quit e" "quit e = (if i = n then 1 else 0)"
      using bench_step [OF spec [OF assms(1), of i] assms(4) \<open>int i < int_max\<close> conjunct1 [OF I], of ?m junk wtime]
        le conjunct2 [OF I] unfolding l by blast
    then show ?thesis using that(1) by (intro exI [of _ st1] exI [of _ e]) auto
  qed
  note step = this
  have fuel: "n - 0 + 2 \<le> fuel" using assms(7) by simp
  obtain st1 evs where "pulse_loop ?body fuel 0 st = Some (Inr (st1, evs))" "length evs = Suc n - 0"
      "\<forall>j < length evs. ?E (0 + j) (evs ! j)"
    using pulse_loop_runs [of n ?I ?body ?E, OF step st(2,3) le0 fuel] by blast
  then show ?thesis using st(1) by (intro exI [of _ st1] exI [of _ evs]) (simp add: start_communication_bench_def)
qed

lemma bench_zero:
  assumes "\<forall>i. process_ok (pl i) W (ag_max_degree ag)" "desired_ok ag" "total_metrics ag = 0"
    and "\<forall>i. names_ok (names i)" "max_timestamps ag = 0" "int fuel < int_max"
  shows "start_communication_bench pl W junk (\<lambda>i. Some (aliases_text (names i))) wtime raw fuel ag cm = None"
proof -
  let ?d = "ag_max_degree ag"
  let ?I = "\<lambda>i st. leaf_ok W ?d names i st \<and> max_timestamps (fst st) = 0 \<and> quit (fst (snd (snd st))) = 0"
  let ?body = "\<lambda>i. leaf_pulse_bench (pl i) junk (Some (aliases_text (names i))) (wtime i)"
  obtain st where st: "leaf_init W raw ag cm = Inr st" "?I 0 st"
    using leaf_init_ok [OF spec [OF assms(1), of 0] assms(2,3)] assms(5) by metis
  have "\<exists>st1 e. ?body i s = Inr (st1, e) \<and> ?I (Suc i) st1" if "?I i s" "i < fuel" for i s
  proof -
    have "(of_nat i :: 64 word) \<noteq> of_nat (2 ^ 64 - 1)"
      using that(2) assms(6) of_nat_64 [of i "2 ^ 64 - 1"] by simp
    moreover have "of_nat (2 ^ 64 - 1) = (0 - 1 :: 64 word)" by simp
    ultimately have "(of_nat i :: 64 word) \<noteq> 0 - 1" by metis
    then show ?thesis
      using bench_step [OF spec [OF assms(1), of i] assms(4), of i s 0 junk wtime] that assms(6) by fastforce
  qed
  from pulse_loop_forever [of ?I fuel ?body, OF this, of 0 st fuel] show ?thesis
    using st by (simp add: start_communication_bench_def)
qed

text \<open>
  C30. In the BENCHMARKING build a leaf submits exactly \<open>max_timestamps\<close> events, each with the time at which it
  was measured, the last one with the quit flag. If \<open>max_timestamps\<close> is 0, the comparison with its
  predecessor wraps around to \<open>2 ^ 64 - 1\<close> and the loop goes on.
\<close>

theorem leaf_benchmark:
  assumes "\<forall>i. process_ok (pl i) W (ag_max_degree ag)" "desired_ok ag" "total_metrics ag = 0"
    and "\<forall>i. names_ok (names i)" "max_timestamps ag = of_nat m" "int m \<le> int_max"
    and "m < fuel" "int fuel < int_max"
  shows "if m = 0
    then start_communication_bench pl W junk (\<lambda>i. Some (aliases_text (names i))) wtime raw fuel ag cm = None
    else \<exists>st evs. start_communication_bench pl W junk (\<lambda>i. Some (aliases_text (names i))) wtime raw fuel ag cm =
        Some (Inr (st, evs)) \<and> length evs = m \<and>
      (\<forall>i < length evs. leaf_event W (ag_max_degree ag) names i (evs ! i) \<and> start_time (evs ! i) = wtime i \<and>
        quit (evs ! i) = (if i = m - 1 then 1 else 0))"
proof (cases m)
  case 0
  then show ?thesis using bench_zero [OF assms(1-4) _ assms(8)] assms(5) by simp
next
  case (Suc n)
  then show ?thesis using bench_counts [OF assms(1-4), of n fuel junk wtime raw cm] assms(5-7) by simp
qed

theorem leaf_benchmark_witness:
  "\<exists>s. knows_metrics uth_ops s \<and> (\<exists>st evs. start_communication_bench (\<lambda>_. sample_platform s)
      \<lparr>comm_rank = 1, comm_size = 3\<rparr> (\<lambda>_. same_value 7) (\<lambda>i. Some (aliases_text [''rank''])) (\<lambda>i. 5)
      (metrics.extend metrics_zero \<lparr>start_time = 0\<rparr>) 3 (sample_aggregator ()\<lparr>max_timestamps := 2\<rparr>) (None, ()) =
      Some (Inr (st, evs)) \<and> length evs = 2)"
proof -
  obtain s :: "htable uth" where s: "knows_metrics uth_ops s" using sample_store by blast
  have "\<forall>i::nat. process_ok (sample_platform s) \<lparr>comm_rank = 1, comm_size = 3\<rparr>
      (ag_max_degree (sample_aggregator ()\<lparr>max_timestamps := 2\<rparr>))"
    by (simp add: s sample_env_ok process_ok_def valid_topo_def sample_aggregator_def)
  from leaf_benchmark [OF this, of "\<lambda>i. [''rank'']" 2 3 "\<lambda>_. same_value 7" "\<lambda>i. 5"
      "metrics.extend metrics_zero \<lparr>start_time = 0\<rparr>" "(None, ())"]
  show ?thesis using s by (auto simp: sample_aggregator_def desired_ok_def names_ok_def)
qed

section \<open>The election of the older variant\<close>

text \<open>Some leaves have left their loop, and others wait for them at the barrier at its start.\<close>

definition barrier_stuck :: "('h, 'p, unit) leaf list \<Rightarrow> bool" where
  "barrier_stuck leaves \<longleftrightarrow> list_ex (\<lambda>st. quit (fst (snd (snd st))) \<noteq> 0) leaves \<and>
     list_ex (\<lambda>st. quit (fst (snd (snd st))) = 0) leaves"

lemma foldr_or_nonzero: "foldr (OR) (map (\<lambda>f. if f then 1 else 0 :: int) bs) 0 \<noteq> 0 \<longleftrightarrow> True \<in> set bs"
proof (induction bs)
  case (Cons b bs)
  have "1 OR x \<noteq> (0 :: int)" for x by (metis bit.disj_zero_right or_eq_0_iff zero_neq_one)
  then show ?case using Cons by (cases b) auto
qed simp

text \<open>
  C31. The election reaches the leaf of rank 0 only: if in a round some leaf has been told to finish but the
  leaf of rank \<open>r > 0\<close> has not, then after the round leaf 0 leaves its loop and leaf \<open>r\<close> does not, which waits
  at the barrier of the next round forever.
\<close>

theorem old_election_splits:
  assumes "process_ok pl W d" "\<forall>i. names_ok (names i)" "length finished = length leaves"
    and "\<forall>st \<in> set leaves. leaf_ok W d names i st \<and> quit (fst (snd (snd st))) = 0" "int i < int_max"
    and "0 < r" "r < length leaves" "\<not> finished ! r" "True \<in> set finished"
  shows "\<exists>leaves1 evs. old_round pl junk (\<lambda>r. Some (aliases_text (names i))) finished leaves =
      Some (map Inr (zip leaves1 evs)) \<and> length leaves1 = length leaves \<and> length evs = length leaves \<and>
    quit (evs ! 0) = 1 \<and> quit (evs ! r) = 0 \<and> barrier_stuck leaves1"
proof -
  let ?f = "Some (aliases_text (names i))"
  let ?q = "map (\<lambda>f. if f then 1 else 0) finished"
  let ?p = "\<lambda>r. leaf_pulse pl junk ?f (elected_quit ?q r \<noteq> 0) (leaves ! r)"
  have "\<exists>z. ?p k = Inr z \<and> fst (snd (snd (fst z))) = snd z \<and> quit (snd z) = (if elected_quit ?q k \<noteq> 0 then 1 else 0)"
    if "k < length leaves" for k
  proof -
    have l: "leaf_ok W d names i (leaves ! k)" using assms(4) nth_mem [OF that] by blast
    show ?thesis
      using leaf_pulse_ok [OF assms(1) assms(2) [rule_format] l assms(5), of junk "elected_quit ?q k \<noteq> 0"] by auto
  qed
  then have "\<forall>k. \<exists>z. k < length leaves \<longrightarrow> ?p k = Inr z \<and> fst (snd (snd (fst z))) = snd z \<and>
      quit (snd z) = (if elected_quit ?q k \<noteq> 0 then 1 else 0)" by blast
  from choice [OF this] obtain Z where Z: "\<And>k. k < length leaves \<Longrightarrow> ?p k = Inr (Z k) \<and>
      fst (snd (snd (fst (Z k)))) = snd (Z k) \<and> quit (snd (Z k)) = (if elected_quit ?q k \<noteq> 0 then 1 else 0)"
    by blast
  define S where "S = fst \<circ> Z"
  define E where "E = snd \<circ> Z"
  have p: "?p k = Inr (S k, E k)" "fst (snd (snd (S k))) = E k"
      "quit (E k) = (if elected_quit ?q k \<noteq> 0 then 1 else 0)" if "k < length leaves" for k
    using Z [OF that] by (simp_all add: S_def E_def)
  let ?n = "[0 ..< length leaves]"
  have none: "\<not> list_ex (\<lambda>st. quit (fst (snd (snd st))) \<noteq> 0) leaves" using assms(4) by (auto simp: list_ex_iff)
  have "map ?p ?n = map (\<lambda>k. Inr (S k, E k)) ?n" by (rule map_cong) (simp_all only: p(1) set_upt atLeastLessThan_iff)
  also have "\<dots> = map Inr (zip (map S ?n) (map E ?n))" by (simp add: zip_map_map o_def zip_same_conv_map)
  finally have 1: "old_round pl junk (\<lambda>r. ?f) finished leaves = Some (map Inr (zip (map S ?n) (map E ?n)))"
    unfolding old_round_def Let_def if_not_P [OF none] by simp
  have 0: "0 < length leaves" by (rule le_less_trans [OF le0 assms(7)])
  have "elected_quit ?q 0 \<noteq> 0" using assms(9) unfolding elected_quit_def if_P [OF refl] by (rule foldr_or_nonzero [THEN iffD2])
  moreover have "elected_quit ?q r = 0" using assms(3,6-8) by (simp add: elected_quit_def)
  ultimately have q: "quit (E 0) = 1" "quit (E r) = 0" using p(3) [OF 0] p(3) [OF assms(7)] by metis+
  have "S 0 \<in> set (map S ?n)" "S r \<in> set (map S ?n)" using 0 assms(7) by auto
  then have "barrier_stuck (map S ?n)" unfolding barrier_stuck_def list_ex_iff
    using q p(2) [OF 0] p(2) [OF assms(7)] by (intro conjI bexI [of _ "S 0"] bexI [of _ "S r"]) simp_all
  then show ?thesis using 1 q 0 assms(7) by (intro exI [of _ "map S ?n"] exI [of _ "map E ?n"]) simp
qed

definition sample_leaf :: "(unit, unit, unit) leaf" where
  "sample_leaf = (sample_aggregator (), (None, ()), metrics_zero\<lparr>max_degree := 2, nprocs := 3\<rparr>, 0)"

theorem old_election_splits_witness:
  "\<exists>s. knows_metrics uth_ops s \<and> (\<exists>leaves1 evs. old_round (sample_platform s) (\<lambda>_. same_value 7)
      (\<lambda>r. Some (aliases_text [''rank''])) [True, False] [sample_leaf, sample_leaf] =
      Some (map Inr (zip leaves1 evs)) \<and> length leaves1 = length [sample_leaf, sample_leaf] \<and>
    length evs = length [sample_leaf, sample_leaf] \<and> quit (evs ! 0) = 1 \<and> quit (evs ! 1) = 0 \<and> barrier_stuck leaves1)"
proof -
  obtain s :: "htable uth" where s: "knows_metrics uth_ops s" using sample_store by blast
  show ?thesis
    by (rule exI [of _ s], rule conjI [OF s], rule old_election_splits [where W = "\<lparr>comm_rank = 1, comm_size = 3\<rparr>" and d = 2
          and names = "\<lambda>_. [''rank'']" and i = 0])
       (simp_all add: s sample_env_ok process_ok_def valid_topo_def sample_leaf_def sample_aggregator_def
          desired_ok_def names_ok_def leaf_ok_def metrics_zero_def get_parent_def c_div_def c_int_def)
qed

end
