(* ===== verification/Root_Results.thy ===== *)
theory Root_Results
  imports Crawler Topology
begin

text \<open>
  The root's results: the terminal handler \<open>final_result\<close> (metrics_aggregator.c) that stores the
  aggregate of a pulse, the end of the aggregator (\<open>destroy_metrics_aggregator\<close>) and the calls of the
  monitored program that read results (evp_monitoring.c: \<open>return_results\<close>,
  \<open>monitoring_file_updated\<close>) or wait for the end (\<open>monitoring_finalize\<close>). The critical sections under
  a mutex are atomic; a wait on a condition variable is an action that is not enabled while its
  predicate is false, which is what the while loops around \<open>pthread_cond_wait\<close> amount to, as every write of the
  predicate happens under the same mutex.
\<close>

section \<open>The handler\<close>

text \<open>\<open>calloc\<close> of \<open>n\<close> zeroed elements; a negative number is too large for any memory and gives NULL.\<close>

definition zero_metric :: sys_metric where
  "zero_metric = \<lparr>sm_min = 0, sm_max = 0, sm_avg = 0\<rparr>"

definition calloc_results :: "int \<Rightarrow> sys_metric list option" where
  "calloc_results n = (if n < 0 then None else Some (replicate (nat n) zero_metric))"

text \<open>\<open>(double) sum / nprocs\<close>\<close>

definition average :: "long \<Rightarrow> int \<Rightarrow> double" where
  "average s np = dbl_div (dbl_of_int (sint s)) (dbl_of_int np)"

definition final_metric :: "int \<Rightarrow> aggregators \<Rightarrow> sys_metric" where
  "final_metric np g = \<lparr>sm_min = agg_min g, sm_max = agg_max g, sm_avg = average (agg_sum g) np\<rparr>"

function fill_results :: "int \<Rightarrow> metrics \<Rightarrow> int \<Rightarrow> sys_metric list \<Rightarrow> sys_metric list res" where
  "fill_results np event i results =
     (if i < metrics_nr event then
        bind_r (arr_get (gather_info event) i) (\<lambda>g.
        bind_r (arr_set results i (final_metric np g)) (\<lambda>results1.
        fill_results np event (i + 1) results1))
      else Inr results)"
  by pat_completeness auto
termination
  by (relation "measure (\<lambda>(np, e, i, r). nat (metrics_nr e - i))") auto

declare fill_results.simps [simp del]

text \<open>The state is the aggregator and the static variable \<open>pulse\<close>.\<close>

definition final_result :: "int \<Rightarrow> metrics \<Rightarrow> 'h metrics_aggregator \<times> int \<Rightarrow>
    ('h metrics_aggregator \<times> int) res" where
  "final_result np event s =
     (case s of (ag, pulse) \<Rightarrow>
       let fresh = (pulse = 0 \<or> update_file event \<noteq> 0);
           ag1 = (if fresh then ag\<lparr>monitoring_results := calloc_results (metrics_nr event)\<rparr> else ag) in
       bind_r
         (case monitoring_results ag1 of
            None \<Rightarrow> if 0 < metrics_nr event then Inl NullDeref else Inr ag1
          | Some rs \<Rightarrow> bind_r (fill_results np event 0 rs) (\<lambda>rs1. Inr (ag1\<lparr>monitoring_results := Some rs1\<rparr>)))
         (\<lambda>ag2.
           let ag3 = (if fresh then ag2\<lparr>results_available := True\<rparr> else ag2) in
           bind_r (c_int (pulse + 1)) (\<lambda>p.
           Inr (if quit event \<noteq> 0 \<or> metrics_nr event = 0 then ag3\<lparr>root_finished := True\<rparr> else ag3, p))))"

text \<open>The BENCHMARKING build stores the latency of the pulse instead; \<open>end_time\<close> is MPI_Wtime.\<close>

definition dbl_sub :: "double \<Rightarrow> double \<Rightarrow> double" where
  "dbl_sub a b = dbl_add a (b XOR (push_bit 63 1))"

definition final_result_bench :: "double \<Rightarrow> metrics_bench \<Rightarrow> 'h metrics_aggregator \<times> int \<Rightarrow>
    ('h metrics_aggregator \<times> int) res" where
  "final_result_bench end_time event s =
     (case s of (ag, pulse) \<Rightarrow>
       let procs_done = (word_of_int (timestamp event) = max_timestamps ag - 1);
           ag1 = (if pulse = 0
                  then ag\<lparr>benchmarking_results := Some (replicate (unat (max_timestamps ag)) 0)\<rparr> else ag) in
       case benchmarking_results ag1 of
         None \<Rightarrow> Inl NullDeref
       | Some rs \<Rightarrow>
           bind_r (arr_set rs pulse (dbl_sub end_time (start_time event))) (\<lambda>rs1.
           bind_r (c_int (pulse + 1)) (\<lambda>p.
           let ag2 = ag1\<lparr>benchmarking_results := Some rs1\<rparr> in
           Inr (if procs_done \<or> quit event \<noteq> 0 \<or> metrics_nr event = 0
                then ag2\<lparr>root_finished := True\<rparr> else ag2, p))))"

section \<open>The calls of the monitored program\<close>

text \<open>
  \<open>return_results\<close> copies as many results as the root itself has metrics; None while it
  waits. The state is the aggregator and the static variable \<open>init\<close>.
\<close>

function copy_results :: "int \<Rightarrow> int \<Rightarrow> sys_metric list \<Rightarrow> sys_metric list \<Rightarrow> sys_metric list res" where
  "copy_results n i src dst =
     (if i < n then
        bind_r (arr_get src i) (\<lambda>r.
        bind_r (arr_set dst i r) (\<lambda>dst1. copy_results n (i + 1) src dst1))
      else Inr dst)"
  by pat_completeness auto
termination
  by (relation "measure (\<lambda>(n, i, src, dst). nat (n - i))") auto

declare copy_results.simps [simp del]

definition return_results :: "'h metrics_aggregator \<times> bool \<Rightarrow> sys_metric list \<Rightarrow>
    (('h metrics_aggregator \<times> bool) \<times> sys_metric list) res option" where
  "return_results s results =
     (case s of (ag, init) \<Rightarrow>
       if init \<and> \<not> results_available ag then None
       else Some
         (bind_r
           (case monitoring_results ag of
              None \<Rightarrow> if 0 < total_metrics ag then Inl NullDeref else Inr results
            | Some rs \<Rightarrow> copy_results (total_metrics ag) 0 rs results)
           (\<lambda>results1.
             Inr ((if init then ag\<lparr>results_available := False\<rparr> else ag, False), results1))))"

definition monitoring_file_updated :: "'h metrics_aggregator \<Rightarrow> 'h metrics_aggregator option" where
  "monitoring_file_updated ag =
     (if results_available ag then Some (ag\<lparr>results_available := False\<rparr>) else None)"

text \<open>
  \<open>monitoring_finalize\<close> up to the barrier: a leaf raises its flag, the root waits for the last
  aggregate.
\<close>

definition finalize_wait :: "bool \<Rightarrow> int \<Rightarrow> 'h metrics_aggregator \<Rightarrow> 'h metrics_aggregator option" where
  "finalize_wait leaf rank ag =
     (let ag1 = (if leaf then ag\<lparr>leafs_finished := True\<rparr> else ag)
      in if rank = 0 \<and> \<not> root_finished ag1 then None else Some ag1)"

text \<open>
  \<open>destroy_metrics_aggregator\<close>, as far as memory is concerned: the aliases are freed up to the
  previous number of metrics, the results, and the timestamp table. The stones are returned as the list
  of those destroyed, in order.
\<close>

definition destroy_stones :: "bool \<Rightarrow> int \<Rightarrow> node_state \<Rightarrow> int option list" where
  "destroy_stones leaf rank st =
     (if leaf then []
      else [multi_stone st, split_stone st, terminal_stone st]
           @ (if rank = 0 then [agreg_terminal_stone st] else []))
     @ [bridge_stone st]"

definition destroy_metrics_aggregator :: "('h \<Rightarrow> 'h res) \<Rightarrow> bool \<Rightarrow> int \<Rightarrow> 'h metrics_aggregator \<Rightarrow>
    ('h metrics_aggregator \<times> int option list) res" where
  "destroy_metrics_aggregator wipe leaf rank ag =
     bind_r (free_desired ag) (\<lambda>ag1.
     bind_r (wipe (hash_ts ag1)) (\<lambda>h.
     Inr (ag1\<lparr>monitoring_results := None, hash_ts := h\<rparr>,
          destroy_stones leaf rank (current_state ag1))))"

section \<open>The loops\<close>

lemma fill_results_ok:
  assumes "metrics_nr event = int (length (gather_info event))" "length (gather_info event) \<le> length rs"
    and "i \<le> length (gather_info event)"
  shows "fill_results np event (int i) rs =
    Inr (take i rs @ map (final_metric np) (drop i (gather_info event)) @ drop (length (gather_info event)) rs)"
  using assms(2,3)
proof (induction "length (gather_info event) - i" arbitrary: i rs)
  case 0
  then show ?case using assms(1) by (simp add: fill_results.simps)
next
  case (Suc d)
  then have i: "i < length (gather_info event)" "i < length rs" by simp_all
  let ?g = "gather_info event" and ?v = "final_metric np (gather_info event ! i)"
  have "fill_results np event (int i) rs = fill_results np event (int (Suc i)) (rs[i := ?v])"
    using i assms(1) by (simp add: fill_results.simps [of np event "int i" rs] add.commute)
  also have "\<dots> = Inr (take (Suc i) (rs[i := ?v]) @ map (final_metric np) (drop (Suc i) ?g) @
      drop (length ?g) (rs[i := ?v]))"
    by (rule Suc.hyps(1)) (use Suc in simp_all)
  finally show ?case using i
    by (simp add: take_Suc_conv_app_nth flip: Cons_nth_drop_Suc)
qed

lemma fill_results_short:
  assumes "metrics_nr event = int (length (gather_info event))" "length rs < length (gather_info event)"
    and "i \<le> length rs"
  shows "fill_results np event (int i) rs = Inl OutOfBounds"
  using assms(2,3)
proof (induction "length rs - i" arbitrary: i rs)
  case 0
  then show ?case using assms(1) by (simp add: fill_results.simps [of np event "int i" rs] arr_set_def)
next
  case (Suc d)
  then show ?case using assms(1)
    by (simp add: fill_results.simps [of np event "int i" rs] Suc.hyps(1) [of _ "Suc i", simplified] add.commute)
qed

lemma copy_results_ok:
  assumes "n \<le> length src" "n \<le> length dst" "i \<le> n"
  shows "copy_results (int n) (int i) src dst = Inr (take i dst @ drop i (take n src) @ drop n dst)"
  using assms(2,3)
proof (induction "n - i" arbitrary: i dst)
  case 0
  then show ?case by (simp add: copy_results.simps)
next
  case (Suc d)
  then have i: "i < n" "i < length dst" "i < length src" using assms(1) by simp_all
  have "copy_results (int n) (int i) src dst = copy_results (int n) (int (Suc i)) src (dst[i := src ! i])"
    using i by (simp add: copy_results.simps [of "int n" "int i"] add.commute)
  also have "\<dots> = Inr (take (Suc i) (dst[i := src ! i]) @ drop (Suc i) (take n src) @ drop n (dst[i := src ! i]))"
    by (rule Suc.hyps(1)) (use Suc in simp_all)
  finally show ?case using i assms(1)
    by (simp add: take_Suc_conv_app_nth Cons_nth_drop_Suc [of i "take n src", symmetric])
qed

lemma copy_results_short:
  assumes "length src < n" "n \<le> length dst" "i \<le> length src"
  shows "copy_results (int n) (int i) src dst = Inl OutOfBounds"
  using assms(2,3)
proof (induction "length src - i" arbitrary: i dst)
  case 0
  then show ?case using assms(1) by (simp add: copy_results.simps [of "int n" "int i"] arr_get_def)
next
  case (Suc d)
  then have i: "i < length src" "i < length dst" "i < n" using assms(1) by simp_all
  have "copy_results (int n) (int (Suc i)) src (dst[i := src ! i]) = Inl OutOfBounds"
    by (rule Suc.hyps(1)) (use Suc in simp_all)
  then show ?case using i by (simp add: copy_results.simps [of "int n" "int i"] add.commute)
qed

section \<open>The root process as a step relation\<close>

text \<open>
  The communication thread handles an aggregate; the main thread reads results, waits for an update of the
  file, or passes the wait of \<open>monitoring_finalize\<close>. The steps interleave freely.
\<close>

record 'h root_sys =
  rs_ag :: "'h metrics_aggregator"
  rs_pulse :: int
  rs_init :: bool
  rs_passed :: bool

datatype root_action = Handle metrics | Return "sys_metric list" | Updated | Finish

inductive root_step :: "int \<Rightarrow> 'h root_sys \<Rightarrow> root_action \<Rightarrow> 'h root_sys \<Rightarrow> bool" for np where
  handle: "final_result np e (rs_ag s, rs_pulse s) = Inr (ag1, p1) \<Longrightarrow>
     root_step np s (Handle e) (s\<lparr>rs_ag := ag1, rs_pulse := p1\<rparr>)"
| return: "return_results (rs_ag s, rs_init s) buf = Some (Inr ((ag1, init1), out)) \<Longrightarrow> \<not> rs_passed s \<Longrightarrow>
     root_step np s (Return out) (s\<lparr>rs_ag := ag1, rs_init := init1\<rparr>)"
| updated: "monitoring_file_updated (rs_ag s) = Some ag1 \<Longrightarrow> \<not> rs_passed s \<Longrightarrow>
     root_step np s Updated (s\<lparr>rs_ag := ag1\<rparr>)"
| finish: "finalize_wait False 0 (rs_ag s) = Some ag1 \<Longrightarrow> \<not> rs_passed s \<Longrightarrow>
     root_step np s Finish (s\<lparr>rs_ag := ag1, rs_passed := True\<rparr>)"

inductive_cases handleE: "root_step np s (Handle e) s1"
inductive_cases returnE: "root_step np s (Return out) s1"
inductive_cases updatedE: "root_step np s Updated s1"
inductive_cases finishE: "root_step np s Finish s1"

inductive root_run :: "int \<Rightarrow> 'h root_sys \<Rightarrow> root_action list \<Rightarrow> 'h root_sys \<Rightarrow> bool" for np s0 where
  start: "root_run np s0 [] s0"
| step: "root_run np s0 tr s \<Longrightarrow> root_step np s a s1 \<Longrightarrow> root_run np s0 (tr @ [a]) s1"

inductive_cases run_snocE: "root_run np s0 (tr @ [a]) s1"

text \<open>The state after initialisation.\<close>

definition root_start :: "'h root_sys \<Rightarrow> bool" where
  "root_start s \<longleftrightarrow> \<not> results_available (rs_ag s) \<and> \<not> root_finished (rs_ag s) \<and>
     monitoring_results (rs_ag s) = None \<and> rs_pulse s = 0 \<and> rs_init s \<and> \<not> rs_passed s"

text \<open>The last aggregate: a leaf below has quit, or there are no metrics.\<close>

definition last_aggregate :: "metrics \<Rightarrow> bool" where
  "last_aggregate e \<longleftrightarrow> quit e \<noteq> 0 \<or> metrics_nr e = 0"

text \<open>
  What an action does to the results flag, to \<open>init\<close>, and to whether no pulse has been handled yet.
\<close>

fun flag_step :: "bool \<times> bool \<times> bool \<Rightarrow> root_action \<Rightarrow> bool \<times> bool \<times> bool" where
  "flag_step (flag, init, none) (Handle e) = (flag \<or> none \<or> update_file e \<noteq> 0, init, False)"
| "flag_step (flag, init, none) (Return out) = (flag \<and> \<not> init, False, none)"
| "flag_step (flag, init, none) Updated = (False, init, none)"
| "flag_step (flag, init, none) Finish = (flag, init, none)"

lemma final_result_fields:
  assumes "final_result np e (ag, pulse) = Inr (ag1, p1)"
  shows "p1 = pulse + 1" "root_finished ag1 \<longleftrightarrow> root_finished ag \<or> last_aggregate e"
    "results_available ag1 \<longleftrightarrow> results_available ag \<or> pulse = 0 \<or> update_file e \<noteq> 0"
    "total_metrics ag1 = total_metrics ag"
  using assms
  by (auto simp: final_result_def Let_def last_aggregate_def split: option.splits if_splits dest!: c_int_Inr)

lemma return_results_fields:
  assumes "return_results (ag, init) buf = Some (Inr ((ag1, init1), out))"
  shows "\<not> init1" "results_available ag1 \<longleftrightarrow> results_available ag \<and> \<not> init"
    "root_finished ag1 = root_finished ag" "init \<Longrightarrow> results_available ag"
    "monitoring_results ag1 = monitoring_results ag"
  using assms by (auto simp: return_results_def split: if_splits)

lemma root_step_finished:
  "root_step np s a s1 \<Longrightarrow> root_finished (rs_ag s1) \<longleftrightarrow>
     root_finished (rs_ag s) \<or> (\<exists>e. a = Handle e \<and> last_aggregate e)"
  by (induction rule: root_step.induct)
     (auto dest: final_result_fields(2) return_results_fields(3)
       simp: monitoring_file_updated_def finalize_wait_def Let_def split: if_splits)

lemma root_run_finished:
  assumes "root_run np s0 tr s" "root_start s0"
  shows "root_finished (rs_ag s) \<longleftrightarrow> (\<exists>e. Handle e \<in> set tr \<and> last_aggregate e)"
  using assms
proof (induction rule: root_run.induct)
  case start
  then show ?case by (simp add: root_start_def)
next
  case (step tr s a s1)
  then show ?case using root_step_finished [OF step.hyps(2)] by auto
qed

lemma final_result_run:
  assumes "metrics_nr e = int (length (gather_info e))" "0 \<le> pulse" "pulse < int_max"
    and "pulse = 0 \<or> update_file e \<noteq> 0 \<or>
      (\<exists>rs. monitoring_results ag = Some rs \<and> length rs = length (gather_info e))"
  shows "\<exists>ag1. final_result np e (ag, pulse) = Inr (ag1, pulse + 1) \<and>
    monitoring_results ag1 = Some (map (final_metric np) (gather_info e))"
proof -
  have c: "c_int (pulse + 1) = Inr (pulse + 1)" using assms(2,3) by (intro c_int_ok) auto
  let ?f = "pulse = 0 \<or> update_file e \<noteq> 0"
  obtain rs where rs: "(if ?f then calloc_results (metrics_nr e) else monitoring_results ag) = Some rs"
      "length rs = length (gather_info e)"
    using assms(1,4) by (cases ?f) (auto simp: calloc_results_def)
  have "fill_results np e 0 rs = Inr (map (final_metric np) (gather_info e))"
    using fill_results_ok [OF assms(1), of rs 0 np] rs(2) by simp
  then show ?thesis
    using rs(1) c by (cases ?f) (auto simp: final_result_def Let_def)
qed

section \<open>Properties of the root\<close>

text \<open>
  C11. The results of a pulse: with as many aggregates as announced, and (except in the first pulse or
  after a file update, when the array is allocated anew) an array of that length, \<open>final_result\<close> stores
  for every metric its minimum, its maximum and the sum divided by the number of processes, counts
  the pulse, and raises the two flags exactly when it should.
\<close>

theorem final_result_stores:
  assumes "metrics_nr e = int (length (gather_info e))" "0 \<le> pulse" "pulse < int_max"
    and "pulse = 0 \<or> update_file e \<noteq> 0 \<or>
      (\<exists>rs. monitoring_results ag = Some rs \<and> length rs = length (gather_info e))"
  shows "\<exists>ag1. final_result np e (ag, pulse) = Inr (ag1, pulse + 1) \<and>
    monitoring_results ag1 = Some (map (\<lambda>g. \<lparr>sm_min = agg_min g, sm_max = agg_max g, sm_avg = average (agg_sum g) np\<rparr>)
      (gather_info e)) \<and>
    (results_available ag1 \<longleftrightarrow> results_available ag \<or> pulse = 0 \<or> update_file e \<noteq> 0) \<and>
    (root_finished ag1 \<longleftrightarrow> root_finished ag \<or> last_aggregate e)"
proof -
  from final_result_run [OF assms, of np]
  have "\<exists>ag1. final_result np e (ag, pulse) = Inr (ag1, pulse + 1) \<and>
      monitoring_results ag1 = Some (map (final_metric np) (gather_info e))" .
  moreover have "final_metric np = (\<lambda>g. \<lparr>sm_min = agg_min g, sm_max = agg_max g, sm_avg = average (agg_sum g) np\<rparr>)"
    by (simp add: final_metric_def fun_eq_iff)
  ultimately show ?thesis using final_result_fields(2,3) by metis
qed

definition sample_final :: metrics where
  "sample_final = \<lparr>metrics_nr = 1, gather_info = [\<lparr>agg_min = 3, agg_max = 5, agg_sum = 12\<rparr>],
     max_degree = 2, update_file = 0, parent_rank = 0, nprocs = 3, timestamp = 0, quit = 0\<rparr>"

theorem final_result_stores_witness:
  "\<exists>ag1. final_result 3 sample_final (sample_aggregator (), 0) = Inr (ag1, 1) \<and>
    monitoring_results ag1 = Some (map (\<lambda>g. \<lparr>sm_min = agg_min g, sm_max = agg_max g, sm_avg = average (agg_sum g) 3\<rparr>)
      (gather_info sample_final)) \<and>
    (results_available ag1 \<longleftrightarrow> results_available (sample_aggregator ()) \<or> (0::int) = 0 \<or> update_file sample_final \<noteq> 0) \<and>
    (root_finished ag1 \<longleftrightarrow> root_finished (sample_aggregator ()) \<or> last_aggregate sample_final)"
  using final_result_stores [of sample_final 0 "sample_aggregator ()" 3]
  by (simp add: sample_final_def)

text \<open>
  C25. The average is exact where it can be: if the sum of a metric is \<open>a\<close> times the number of
  processes, and both fit into 53 bits, the stored double decodes to exactly \<open>a\<close>.
\<close>

theorem average_exact:
  assumes "0 < np" "np < 2 ^ 31" "a * np < 2 ^ 53" "unat s = a * np"
  shows "dbl_val (average s (int np)) = int a * 2 ^ 1074"
proof -
  have "unat s < 2 ^ 63" using assms(3,4) by simp
  then have "sint s = int (a * np)" using sint_small [of s] assms(4) by (simp add: uint_nat)
  moreover have "np < 2 ^ 53" using assms(2) by simp
  ultimately show ?thesis
    unfolding average_def using dbl_div_exact [OF assms(1) _ assms(3)] by simp
qed

theorem average_exact_witness: "dbl_val (average 12 3) = 4 * 2 ^ 1074"
  using average_exact [of 3 4 12] by simp

text \<open>
  C14. The wait in \<open>monitoring_finalize\<close> ends exactly when it should: along every interleaving of
  the two threads, the root can pass it if and only if an aggregate with the quit flag (or without
  metrics) has been handled; in particular a root that never receives one waits forever.
\<close>

theorem finalize_after_last_aggregate:
  assumes "root_start s0" "root_run np s0 tr s" "\<not> rs_passed s"
  shows "(\<exists>s1. root_step np s Finish s1) \<longleftrightarrow> (\<exists>e. Handle e \<in> set tr \<and> last_aggregate e)"
proof -
  have "\<exists>s1. root_step np s Finish s1" if "root_finished (rs_ag s)"
  proof -
    have "finalize_wait False 0 (rs_ag s) = Some (rs_ag s)" using that by (simp add: finalize_wait_def Let_def)
    then show ?thesis using root_step.finish assms(3) by blast
  qed
  moreover have "root_finished (rs_ag s)" if "root_step np s Finish s1" for s1
    using that by (auto elim!: finishE simp: finalize_wait_def Let_def split: if_splits)
  ultimately show ?thesis using root_run_finished [OF assms(2,1)] by blast
qed

definition sample_sys :: "unit root_sys" where
  "sample_sys = \<lparr>rs_ag = sample_aggregator (), rs_pulse = 0, rs_init = True, rs_passed = False\<rparr>"

definition sample_last :: metrics where
  "sample_last = sample_final\<lparr>quit := 1\<rparr>"

theorem finalize_after_last_aggregate_witness:
  "\<exists>s0 s1 s2 :: unit root_sys. root_start s0 \<and> root_run 3 s0 [Handle sample_last] s1 \<and> \<not> rs_passed s1 \<and>
    \<not> (\<exists>s. root_step 3 s0 Finish s) \<and> root_step 3 s1 Finish s2"
proof -
  define s0 :: "unit root_sys" where "s0 = sample_sys"
  have start: "root_start s0" by (simp add: s0_def root_start_def sample_sys_def sample_aggregator_def)
  then have p0: "\<not> rs_passed s0" by (simp add: root_start_def)
  obtain ag1 where h: "final_result 3 sample_last (rs_ag s0, 0) = Inr (ag1, 1)"
    using final_result_run [of sample_last 0 "rs_ag s0" 3] by (auto simp: sample_last_def sample_final_def)
  define s1 where "s1 = s0\<lparr>rs_ag := ag1, rs_pulse := 1\<rparr>"
  have "root_step 3 s0 (Handle sample_last) s1"
    unfolding s1_def by (rule root_step.handle) (use h in \<open>simp add: s0_def sample_sys_def\<close>)
  from root_run.step [OF root_run.start this] have run: "root_run 3 s0 [Handle sample_last] s1" by simp
  have "\<not> rs_passed s1" using p0 by (simp add: s1_def)
  then show ?thesis
    using finalize_after_last_aggregate [OF start root_run.start p0, of 3] finalize_after_last_aggregate [OF start run] start run
    by (auto simp: last_aggregate_def sample_last_def)
qed

lemma root_step_flag:
  assumes "root_step np s a s1" "0 \<le> rs_pulse s"
  shows "(results_available (rs_ag s1), rs_init s1, rs_pulse s1 = 0) =
      flag_step (results_available (rs_ag s), rs_init s, rs_pulse s = 0) a" "0 \<le> rs_pulse s1"
proof -
  show "(results_available (rs_ag s1), rs_init s1, rs_pulse s1 = 0) =
      flag_step (results_available (rs_ag s), rs_init s, rs_pulse s = 0) a"
    using assms
  proof (induction rule: root_step.induct)
    case (handle e s ag1 p1)
    then show ?case using final_result_fields(1,3) [OF handle.hyps] by simp
  next
    case (return s buf ag1 init1 out)
    then show ?case using return_results_fields(1,2) [OF return.hyps(1)] by simp
  qed (auto simp: monitoring_file_updated_def finalize_wait_def Let_def split: if_splits)
  show "0 \<le> rs_pulse s1"
    using assms by (induction rule: root_step.induct) (auto dest: final_result_fields(1))
qed

lemma root_run_flag:
  assumes "root_run np s0 tr s" "root_start s0"
  shows "(results_available (rs_ag s), rs_init s, rs_pulse s = 0) = foldl flag_step (False, True, True) tr"
    "0 \<le> rs_pulse s"
proof -
  have "(results_available (rs_ag s), rs_init s, rs_pulse s = 0) = foldl flag_step (False, True, True) tr \<and>
      0 \<le> rs_pulse s"
    using assms
  proof (induction rule: root_run.induct)
    case start
    then show ?case by (simp add: root_start_def)
  next
    case (step tr s a s1)
    then show ?case using root_step_flag [OF step.hyps(2)] by simp
  qed
  then show "(results_available (rs_ag s), rs_init s, rs_pulse s = 0) = foldl flag_step (False, True, True) tr"
    "0 \<le> rs_pulse s" by blast+
qed

lemma flag_needs_handle:
  "foldl flag_step (False, True, True) tr = (f, i, n) \<Longrightarrow> f \<Longrightarrow> \<exists>e. Handle e \<in> set tr"
proof (induction tr arbitrary: f i n rule: rev_induct)
  case (snoc a tr)
  obtain f0 i0 n0 where "foldl flag_step (False, True, True) tr = (f0, i0, n0)" by (metis prod_cases3)
  then show ?case using snoc by (cases a) auto
qed simp

text \<open>Results have been returned only if there were some.\<close>

lemma returned_needs_handle:
  "foldl flag_step (False, True, True) tr = (f, i, n) \<Longrightarrow> \<not> i \<Longrightarrow> root_run np s0 tr s \<Longrightarrow> root_start s0 \<Longrightarrow>
    \<exists>e. Handle e \<in> set tr"
proof (induction tr arbitrary: f i n s rule: rev_induct)
  case (snoc a tr)
  obtain s1 where s1: "root_run np s0 tr s1" "root_step np s1 a s" using snoc.prems(3) by (auto elim: run_snocE)
  obtain f0 i0 n0 where 0: "foldl flag_step (False, True, True) tr = (f0, i0, n0)" by (metis prod_cases3)
  show ?case
  proof (cases i0)
    case False
    then show ?thesis using snoc.IH [OF 0 False s1(1) snoc.prems(4)] by auto
  next
    case True
    then obtain out where a: "a = Return out" using snoc.prems(1,2) 0 by (cases a) auto
    have "rs_init s1" "results_available (rs_ag s1) = f0" using root_run_flag(1) [OF s1(1) snoc.prems(4)] 0 True by simp_all
    then have f0 using s1(2) a by (auto elim!: returnE dest: return_results_fields(4))
    then show ?thesis using flag_needs_handle [OF 0] by auto
  qed
qed simp

text \<open>
  C15. Results are never read before they exist: along every interleaving of the two threads, every call of
  \<open>return_results\<close>, the first one, which waits for the flag, and the later ones, which do not, and every \<open>monitoring_file_updated\<close>
  return only after an aggregate has
  been handled, and the flag that they wait for is at every moment the one that the history determines: raised by
  the first pulse and by every pulse after a file update, and taken down by the first return and
  by every reported update.
\<close>

theorem results_flag_history:
  assumes "root_start s0" "root_run np s0 tr s"
  shows "results_available (rs_ag s) = fst (foldl flag_step (False, True, True) tr) \<and>
    (root_step np s (Return out) s1 \<longrightarrow> (\<exists>e. Handle e \<in> set tr)) \<and>
    (root_step np s Updated s2 \<longrightarrow> (\<exists>e. Handle e \<in> set tr))"
proof -
  note f = root_run_flag(1) [OF assms(2,1)]
  have h: "\<exists>e. Handle e \<in> set tr" if "results_available (rs_ag s)"
    by (rule flag_needs_handle [OF f [symmetric] that])
  have "\<exists>e. Handle e \<in> set tr" if r: "root_step np s (Return out) s1"
  proof (cases "rs_init s")
    case True
    then have "results_available (rs_ag s)" using r by (auto elim!: returnE dest: return_results_fields(4))
    then show ?thesis by (rule h)
  next
    case False
    show ?thesis by (rule returned_needs_handle [OF f [symmetric] False assms(2,1)])
  qed
  moreover have "results_available (rs_ag s)" if "root_step np s Updated s2"
    using that by (auto elim!: updatedE simp: monitoring_file_updated_def split: if_splits)
  moreover have "results_available (rs_ag s) = fst (foldl flag_step (False, True, True) tr)"
    using arg_cong [OF f, of fst] by simp
  ultimately show ?thesis using h by blast
qed

text \<open>
  A pulse is handled, its result is returned, the flag is down, and a second call returns the same result without waiting.
\<close>

theorem results_flag_history_witness:
  "\<exists>s0 s2 s3 :: unit root_sys. root_start s0 \<and>
    root_run 3 s0 [Handle sample_final, Return [final_metric 3 (hd (gather_info sample_final))]] s2 \<and>
    \<not> results_available (rs_ag s2) \<and> root_step 3 s2 (Return [final_metric 3 (hd (gather_info sample_final))]) s3 \<and>
    (\<exists>e. Handle e \<in> set [Handle sample_final, Return [final_metric 3 (hd (gather_info sample_final))]])"
proof -
  let ?ag = "(sample_aggregator ())\<lparr>total_metrics := 1\<rparr>" and ?m = "final_metric 3 (hd (gather_info sample_final))"
  let ?tr = "[Handle sample_final, Return [?m]]"
  define s0 where "s0 = sample_sys\<lparr>rs_ag := ?ag\<rparr>"
  have start: "root_start s0" by (simp add: root_start_def s0_def sample_sys_def sample_aggregator_def)
  obtain ag1 where h: "final_result 3 sample_final (?ag, 0) = Inr (ag1, 1)" "monitoring_results ag1 = Some [?m]"
    using final_result_run [of sample_final 0 ?ag 3] by (auto simp: sample_final_def)
  have av: "results_available ag1" using final_result_fields(3) [OF h(1)] by simp
  have t: "total_metrics ag1 = 1" using final_result_fields(4) [OF h(1)] by simp
  have c: "copy_results 1 0 [?m] [zero_metric] = Inr [?m]" using copy_results_ok [of 1 "[?m]" "[zero_metric]" 0] by simp
  define ag2 where "ag2 = ag1\<lparr>results_available := False\<rparr>"
  have r1: "return_results (ag1, True) [zero_metric] = Some (Inr ((ag2, False), [?m]))"
    using h(2) av t c by (simp add: return_results_def ag2_def)
  have r2: "return_results (ag2, False) [zero_metric] = Some (Inr ((ag2, False), [?m]))"
    using h(2) t c by (simp add: return_results_def ag2_def)
  define s1 where "s1 = s0\<lparr>rs_ag := ag1, rs_pulse := 1\<rparr>"
  define s2 where "s2 = s1\<lparr>rs_ag := ag2, rs_init := False\<rparr>"
  have "root_step 3 s0 (Handle sample_final) s1"
    unfolding s1_def by (rule root_step.handle) (simp add: s0_def sample_sys_def h(1))
  moreover have "root_step 3 s1 (Return [?m]) s2"
    unfolding s2_def by (rule root_step.return) (use r1 in \<open>simp_all add: s1_def s0_def sample_sys_def\<close>)
  ultimately have run: "root_run 3 s0 ?tr s2"
    using root_run.step [OF root_run.step [OF root_run.start]] by fastforce
  have later: "root_step 3 s2 (Return [?m]) (s2\<lparr>rs_ag := ag2, rs_init := False\<rparr>)"
    by (rule root_step.return) (use r2 in \<open>simp_all add: s2_def s1_def s0_def sample_sys_def\<close>)
  show ?thesis
    using results_flag_history [OF start run, of "[?m]" "s2\<lparr>rs_ag := ag2, rs_init := False\<rparr>" s2] start run later by fastforce
qed

end
