(* ===== verification/Tree_Result.thy ===== *)
theory Tree_Result
  imports Own_Run "HOL-Library.Multiset" "HOL-Library.Sublist"
begin

text \<open>
  The nodes together (metrics_aggregator.c, cod.h): every inner rank aggregates its own events and what its
  children submit, a leaf submits its own events, and the bridge of a rank delivers to its parent. The theory
  composes the aggregation program along the tree of \<open>Topology\<close>, up to the root.
\<close>

section \<open>The events of a pulse, by sender\<close>

lemma pulse_senders:
  assumes "fifo k arr"
  shows "mset (pulse_events (int t) (map snd arr)) =
    image_mset (\<lambda>s. of_sender s arr ! t) (mset_set {s. s < k \<and> t < length (of_sender s arr)})"
  using assms
proof (induction arr rule: rev_induct)
  case Nil
  then show ?case by (simp add: of_sender_def)
next
  case (snoc x arr)
  obtain s e where x: "x = (s, e)" by (cases x)
  note f = fifo_snoc [OF snoc.prems [unfolded x]]
  let ?n = "length (of_sender s arr)" and ?g = "\<lambda>s. of_sender s (arr @ [x]) ! t"
  let ?A = "{s'. s' < k \<and> t < length (of_sender s' arr)}"
  have A: "{s'. s' < k \<and> t < length (of_sender s' (arr @ [x]))} = (if t = ?n then insert s ?A else ?A)"
    using f(2) by (auto simp: x of_sender_snoc)
  have g: "image_mset ?g (mset_set ?A) = image_mset (\<lambda>s. of_sender s arr ! t) (mset_set ?A)"
    by (intro image_mset_cong) (auto simp: x of_sender_snoc nth_append)
  have "s \<notin> ?A" if "t = ?n" using that by simp
  moreover have "?g s = e" if "t = ?n" using that by (simp add: x of_sender_snoc)
  moreover have "finite ?A" by simp
  ultimately show ?case using snoc.IH [OF f(1)] f(3) g unfolding A
    by (cases "t = ?n") (auto simp: x)
qed

lemma pulse_senders_full:
  assumes "fifo k arr" "length (pulse_events (int t) (map snd arr)) = k"
  shows "mset (pulse_events (int t) (map snd arr)) = mset (map (\<lambda>s. of_sender s arr ! t) [0 ..< k])"
proof -
  have "{s. s < k \<and> t < length (of_sender s arr)} = {0 ..< k}" using fifo_full [OF assms] by auto
  then show ?thesis unfolding pulse_senders [OF assms(1)] by simp
qed

section \<open>Summaries\<close>

lemma summarises_mset: "summarises r xs \<Longrightarrow> mset xs = mset ys \<Longrightarrow> summarises r ys"
proof -
  assume s: "summarises r xs" and m: "mset xs = mset ys"
  have "set xs = set ys" using m by (rule mset_eq_setD)
  moreover have "(\<Sum>x\<leftarrow>xs. unat (agg_sum x)) = (\<Sum>x\<leftarrow>ys. unat (agg_sum x))"
    using m by (metis mset_map sum_mset_sum_list)
  ultimately show ?thesis using s by (simp add: summarises_def)
qed

lemma within_mset: "within b xs \<Longrightarrow> mset xs = mset ys \<Longrightarrow> within b ys"
proof -
  assume s: "within b xs" and m: "mset xs = mset ys"
  have "set xs = set ys" using m by (rule mset_eq_setD)
  moreover have "(\<Sum>x\<leftarrow>xs. unat (agg_sum x)) = (\<Sum>x\<leftarrow>ys. unat (agg_sum x))"
    using m by (metis mset_map sum_mset_sum_list)
  ultimately show ?thesis using s by (simp add: within_def)
qed

lemma within_concat: "within b (concat xss) \<Longrightarrow> xs \<in> set xss \<Longrightarrow> within b xs"
  by (induction xss) (auto simp: within_def)

text \<open>What summarises values within the bound is within the bound.\<close>

lemma within_summaries:
  assumes "list_all2 summarises rs xss" "\<forall>xs \<in> set xss. xs \<noteq> []" "within b (concat xss)"
  shows "within b rs"
proof -
  have s: "(\<Sum>x\<leftarrow>rs. unat (agg_sum x)) = (\<Sum>x\<leftarrow>concat xss. unat (agg_sum x))"
    using assms(1) by (induction rule: list_all2_induct) (auto simp: summarises_def)
  have "unat (agg_min r) \<le> b \<and> unat (agg_max r) \<le> b" if r: "r \<in> set rs" for r
  proof -
    obtain i where i: "i < length rs" "r = rs ! i" using r by (auto simp: in_set_conv_nth)
    define xs where "xs = xss ! i"
    have xs: "xs \<in> set xss" "summarises r xs"
      using list_all2_lengthD [OF assms(1)] list_all2_nthD [OF assms(1) i(1)] i by (simp_all add: xs_def)
    then have ne: "set xs \<noteq> {}" using assms(2) by auto
    have e: "unat (agg_min r) = Min ((\<lambda>x. unat (agg_min x)) ` set xs)"
        "unat (agg_max r) = Max ((\<lambda>x. unat (agg_max x)) ` set xs)"
      using xs(2) by (simp_all only: summarises_def)
    have "unat (agg_min r) \<in> (\<lambda>x. unat (agg_min x)) ` set xs" "unat (agg_max r) \<in> (\<lambda>x. unat (agg_max x)) ` set xs"
      unfolding e by (rule Min_in; use ne in simp) (rule Max_in; use ne in simp)
    then show ?thesis using within_concat [OF assms(3) xs(1)] by (auto simp: within_def)
  qed
  then show ?thesis using assms(3) s by (simp add: within_def)
qed

section \<open>The run of the tree\<close>

text \<open>
  Sender 0 of a node is its own terminal handler, sender \<open>i + 1\<close> the bridge of its \<open>i\<close>th child: what has
  arrived from a sender is a beginning of what it submitted. In which order the events of different senders are queued
  is left open; \<open>child_first\<close> says that no own event is the first event of its pulse.
\<close>

definition leads :: "(nat \<Rightarrow> bool) \<Rightarrow> (nat \<times> metrics) list \<Rightarrow> bool" where
  "leads P arr \<longleftrightarrow> (\<forall>i < length arr. P (fst (arr ! i)) \<or>
     (\<exists>j < i. P (fst (arr ! j)) \<and> timestamp (snd (arr ! j)) = timestamp (snd (arr ! i))))"

abbreviation child_first :: "(nat \<times> metrics) list \<Rightarrow> bool" where
  "child_first \<equiv> leads (\<lambda>s. s \<noteq> 0)"

abbreviation own_first :: "(nat \<times> metrics) list \<Rightarrow> bool" where
  "own_first \<equiv> leads (\<lambda>s. s = 0)"

definition inner_run :: "('q, metrics) ev_ops \<Rightarrow> cod_arith \<Rightarrow> 'q \<Rightarrow> metrics list \<Rightarrow> metrics list list \<Rightarrow>
    (nat \<times> metrics) list \<Rightarrow> metrics list \<Rightarrow> bool" where
  "inner_run Q ar q0 own below arr out \<longleftrightarrow>
     (\<forall>x \<in> set arr. fst x \<le> length below) \<and> prefix (of_sender 0 arr) own \<and>
     (\<forall>i < length below. prefix (of_sender (Suc i) arr) (below ! i)) \<and> int (length arr) < int_max \<and>
     (case arrivals Q ar (cod_init metrics_zero, q0, []) (map snd arr) of
        Inl e \<Rightarrow> False | Inr (st, q, submitted) \<Rightarrow> out = submitted)"

definition tree_run :: "('q, metrics) ev_ops \<Rightarrow> cod_arith \<Rightarrow> 'q \<Rightarrow> int \<Rightarrow> int \<Rightarrow> (int \<Rightarrow> metrics list) \<Rightarrow>
    (int \<Rightarrow> (nat \<times> metrics) list) \<Rightarrow> (int \<Rightarrow> metrics list) \<Rightarrow> bool" where
  "tree_run Q ar q0 d n own arr out \<longleftrightarrow> (\<forall>r \<in> {0 ..< n}.
     if is_leaf d n r = Inr True then out r = own r
     else inner_run Q ar q0 (own r) (map out (children d n r)) (arr r) (out r))"

lemma tree_run_node:
  assumes "tree_run Q ar q0 d n own arr out" "valid_topo d n" "1 < n" "0 \<le> r" "r < n"
  shows "if children d n r = [] then out r = own r
    else inner_run Q ar q0 (own r) (map out (children d n r)) (arr r) (out r)"
  using assms(1,3-5) is_leaf_eq [OF assms(2,4,5)] by (auto simp: tree_run_def)

text \<open>
  The own events of a rank, as \<open>own_events_in_order\<close> and \<open>leaf_submits_until_finished\<close> give them; the ranks
  have the same number \<open>M t\<close> of metrics in pulse \<open>t\<close>.
\<close>

definition stream_ok :: "int \<Rightarrow> int \<Rightarrow> (nat \<Rightarrow> nat) \<Rightarrow> int \<Rightarrow> metrics list \<Rightarrow> bool" where
  "stream_ok d n M r es \<longleftrightarrow> (\<forall>t < length es.
     own_event \<lparr>comm_rank = r, comm_size = n\<rparr> d (int t) (es ! t) \<and> length (gather_info (es ! t)) = M t)"

lemma stream_okD:
  assumes "stream_ok d n M r es" "t < length es"
  shows "timestamp (es ! t) = int t" "max_degree (es ! t) = d" "nprocs (es ! t) = n"
    "get_parent d r = Inr (parent_rank (es ! t))" "metrics_nr (es ! t) = int (M t)"
    "length (gather_info (es ! t)) = M t"
  using assms by (auto simp: stream_ok_def own_event_def)

lemma prefix_nth: "prefix xs ys \<Longrightarrow> i < length xs \<Longrightarrow> i < length ys \<and> ys ! i = xs ! i"
  by (auto simp: prefix_def nth_append)

subsection \<open>The rank an event carries\<close>

text \<open>C's truncating division, as \<open>get_parent\<close> and the aggregation program compute it.\<close>

definition up :: "int \<Rightarrow> int \<Rightarrow> int" where
  "up d r = (r - 1) sdiv d"

lemma up_mono:
  assumes "0 < d" "x \<le> y"
  shows "up d x \<le> up d y"
proof -
  have pos: "a sdiv d = a div d" if "0 \<le> a" for a using that assms(1) by (simp add: signed_divide_int_def sgn_if)
  have neg: "a sdiv d = - ((- a) div d)" if "a \<le> 0" for a
    using that assms(1) by (auto simp: signed_divide_int_def sgn_if)
  consider "1 \<le> x" | "x \<le> 1" "1 \<le> y" | "y \<le> 1" by linarith
  then show ?thesis
  proof cases
    case 1
    then show ?thesis using assms by (simp add: up_def pos zdiv_mono1)
  next
    case 2
    then show ?thesis using assms by (simp add: up_def pos neg pos_imp_zdiv_nonneg_iff order_trans [of _ 0])
  next
    case 3
    then show ?thesis using assms by (simp add: up_def neg zdiv_mono1)
  qed
qed

lemma up_parent:
  assumes "valid_topo d n" "0 \<le> r" "r < n"
  shows "get_parent d r = Inr (up d r)" "-1 \<le> up d r" "up d r \<le> r"
proof -
  have d: "0 < d" using assms(1) by (simp add: valid_topo_def)
  obtain x where x: "get_parent d r = Inr x" "-1 \<le> x" "x \<le> r"
    using get_parent_eq [OF assms(1) _ assms(3)] get_parent_root [OF assms(1)] parent_less [OF d, of r] assms(2)
    by (cases "r = 0") auto
  then have "x = up d r" by (auto simp: get_parent_def c_int_def c_div_def up_def split: if_splits)
  then show "get_parent d r = Inr (up d r)" "-1 \<le> up d r" "up d r \<le> r" using x by simp_all
qed

lemma child_parent:
  assumes "valid_topo d n" "0 \<le> r" "c \<in> set (children d n r)"
  shows "up d c = r" "r < c" "c < n"
proof -
  have d: "0 < d" using assms(1) by (simp add: valid_topo_def)
  show c: "r < c" "c < n" using child_greater [OF d assms(2,3)] by auto
  have "parent d c = r" using assms(3) children_iff_parent [OF d] by simp
  then show "up d c = r" using get_parent_eq [OF assms(1), of c] up_parent(1) [OF assms(1), of c] c assms(2) by simp
qed

text \<open>
  What a rank submits: an aggregate carries the parent of the rank that the first event of the pulse carries, which
  is the rank itself when a child's own event comes first, and its parent when the own event does.
\<close>

definition stream_at :: "int \<Rightarrow> int \<Rightarrow> (nat \<Rightarrow> nat) \<Rightarrow> int \<Rightarrow> metrics list \<Rightarrow> bool" where
  "stream_at d n M r es \<longleftrightarrow> (\<forall>t < length es.
     timestamp (es ! t) = int t \<and> max_degree (es ! t) = d \<and> nprocs (es ! t) = n \<and>
     metrics_nr (es ! t) = int (M t) \<and> length (gather_info (es ! t)) = M t \<and>
     up d (up d r) \<le> parent_rank (es ! t) \<and> parent_rank (es ! t) \<le> up d r)"

lemma stream_atD:
  assumes "stream_at d n M r es" "t < length es"
  shows "timestamp (es ! t) = int t" "length (gather_info (es ! t)) = M t" "metrics_nr (es ! t) = int (M t)"
  using assms by (auto simp: stream_at_def)

lemma stream_ok_at:
  assumes "stream_ok d n M r es" "valid_topo d n" "0 \<le> r" "r < n"
  shows "stream_at d n M r es"
proof -
  have d: "0 < d" using assms(2) by (simp add: valid_topo_def)
  have "up d (up d r) \<le> up d r" by (rule up_mono [OF d up_parent(3) [OF assms(2-4)]])
  moreover have "parent_rank (es ! t) = up d r" if "t < length es" for t
    using stream_okD(4) [OF assms(1) that] up_parent(1) [OF assms(2-4)] by simp
  ultimately show ?thesis using stream_okD(1-3,5,6) [OF assms(1)] by (simp add: stream_at_def)
qed

subsection \<open>The arrivals at an inner rank\<close>

definition feeds :: "int \<Rightarrow> int \<Rightarrow> (nat \<Rightarrow> nat) \<Rightarrow> int \<Rightarrow> metrics list \<Rightarrow> metrics list list \<Rightarrow>
    (nat \<times> metrics) list \<Rightarrow> bool" where
  "feeds d n M r own below arr \<longleftrightarrow> stream_ok d n M r own \<and> length below = degree d n r \<and> below \<noteq> [] \<and>
     (\<forall>i < degree d n r. stream_ok d n M (children d n r ! i) (below ! i)) \<and>
     (\<forall>x \<in> set arr. fst x \<le> length below) \<and> prefix (of_sender 0 arr) own \<and>
     (\<forall>i < length below. prefix (of_sender (Suc i) arr) (below ! i))"

text \<open>The same with what the children of an inner rank really submit.\<close>

definition feeds_at :: "int \<Rightarrow> int \<Rightarrow> (nat \<Rightarrow> nat) \<Rightarrow> int \<Rightarrow> metrics list \<Rightarrow> metrics list list \<Rightarrow>
    (nat \<times> metrics) list \<Rightarrow> bool" where
  "feeds_at d n M r own below arr \<longleftrightarrow> stream_ok d n M r own \<and> length below = degree d n r \<and> below \<noteq> [] \<and>
     (\<forall>i < degree d n r. stream_at d n M (children d n r ! i) (below ! i)) \<and>
     (\<forall>x \<in> set arr. fst x \<le> length below) \<and> prefix (of_sender 0 arr) own \<and>
     (\<forall>i < length below. prefix (of_sender (Suc i) arr) (below ! i))"

lemma child_nth: "i < degree d n r \<Longrightarrow> children d n r ! i \<in> set (children d n r)"
  by (simp add: degree_def)

lemma feeds_weaken:
  assumes "feeds d n M r own below arr" "valid_topo d n" "0 \<le> r"
  shows "feeds_at d n M r own below arr"
proof -
  have "stream_at d n M (children d n r ! i) (below ! i)" if i: "i < degree d n r" for i
    by (rule stream_ok_at [OF _ assms(2)])
      (use assms(1,3) i child_parent(2,3) [OF assms(2,3) child_nth [OF i]] in \<open>auto simp: feeds_def\<close>)
  then show ?thesis using assms(1) unfolding feeds_def feeds_at_def by blast
qed

lemma feeds_sender:
  assumes "feeds_at d n M r own below arr" "valid_topo d n" "0 \<le> r" "r < n" "s \<le> degree d n r"
  shows "\<exists>xs. prefix (of_sender s arr) xs \<and> (\<forall>t < length xs.
    timestamp (xs ! t) = int t \<and> max_degree (xs ! t) = d \<and> nprocs (xs ! t) = n \<and>
    metrics_nr (xs ! t) = int (M t) \<and> length (gather_info (xs ! t)) = M t \<and>
    up d r \<le> parent_rank (xs ! t) \<and> parent_rank (xs ! t) \<le> r)"
proof (cases s)
  case 0
  have own: "stream_ok d n M r own" "prefix (of_sender 0 arr) own" using assms(1) by (simp_all add: feeds_at_def)
  have "parent_rank (own ! t) = up d r" if "t < length own" for t
    using stream_okD(4) [OF own(1) that] up_parent(1) [OF assms(2-4)] by simp
  then show ?thesis using 0 own(2) stream_okD(1-3,5,6) [OF own(1)] up_parent(3) [OF assms(2-4)]
    by (intro exI [of _ own]) simp
next
  case (Suc i)
  then have i: "i < degree d n r" using assms(5) by simp
  then have "stream_at d n M (children d n r ! i) (below ! i)" "prefix (of_sender s arr) (below ! i)"
    using assms(1) Suc by (simp_all add: feeds_at_def)
  then show ?thesis using child_parent(1) [OF assms(2,3) child_nth [OF i]]
    by (intro exI [of _ "below ! i"]) (simp add: stream_at_def)
qed

lemma feeds_event:
  assumes "feeds_at d n M r own below arr" "valid_topo d n" "0 \<le> r" "r < n" "(s, e) \<in> set arr"
  shows "max_degree e = d" "nprocs e = n" "metrics_nr e = int (M (nat (timestamp e)))"
    "length (gather_info e) = M (nat (timestamp e))" "up d r \<le> parent_rank e" "parent_rank e \<le> r"
proof -
  have s: "s \<le> degree d n r" using assms(1,5) by (auto simp: feeds_at_def)
  obtain xs where c: "prefix (of_sender s arr) xs" "\<forall>t < length xs.
    timestamp (xs ! t) = int t \<and> max_degree (xs ! t) = d \<and> nprocs (xs ! t) = n \<and>
    metrics_nr (xs ! t) = int (M t) \<and> length (gather_info (xs ! t)) = M t \<and>
    up d r \<le> parent_rank (xs ! t) \<and> parent_rank (xs ! t) \<le> r"
    using feeds_sender [OF assms(1-4) s] by blast
  have "e \<in> set (of_sender s arr)" using assms(5) by (force simp: of_sender_def)
  then obtain t where "t < length xs" "e = xs ! t" using prefix_nth [OF c(1)] by (metis in_set_conv_nth)
  then show "max_degree e = d" "nprocs e = n" "metrics_nr e = int (M (nat (timestamp e)))"
    "length (gather_info e) = M (nat (timestamp e))" "up d r \<le> parent_rank e" "parent_rank e \<le> r"
    using c(2) by simp_all
qed

lemma feeds_pulse_event:
  assumes "feeds_at d n M r own below arr" "valid_topo d n" "0 \<le> r" "r < n" "e \<in> set (pulse_events t (map snd arr))"
  shows "max_degree e = d" "nprocs e = n" "metrics_nr e = int (M (nat t))" "length (gather_info e) = M (nat t)"
    "up d r \<le> parent_rank e" "parent_rank e \<le> r"
proof -
  obtain s where s: "(s, e) \<in> set arr" "timestamp e = t" using assms(5) by (auto simp: pulse_events_def)
  show "max_degree e = d" "nprocs e = n" "metrics_nr e = int (M (nat t))" "length (gather_info e) = M (nat t)"
    "up d r \<le> parent_rank e" "parent_rank e \<le> r"
    using feeds_event [OF assms(1-4) s(1)] s(2) by simp_all
qed

lemma feeds_fifo:
  assumes "feeds_at d n M r own below arr" "valid_topo d n" "0 \<le> r" "r < n"
  shows "fifo (Suc (degree d n r)) arr"
proof -
  have "map timestamp (of_sender s arr) = map int [0 ..< length (of_sender s arr)]" if s: "s < Suc (degree d n r)" for s
  proof -
    obtain xs where c: "prefix (of_sender s arr) xs" "\<forall>t < length xs. timestamp (xs ! t) = int t"
      using feeds_sender [OF assms(1-4), of s] s by auto
    show ?thesis
    proof (rule nth_equalityI)
      fix i assume "i < length (map timestamp (of_sender s arr))"
      then have "i < length xs" "xs ! i = of_sender s arr ! i" using prefix_nth [OF c(1), of i] by simp_all
      then show "map timestamp (of_sender s arr) ! i = map int [0 ..< length (of_sender s arr)] ! i"
        using c(2) \<open>i < length (map timestamp (of_sender s arr))\<close> by auto
    qed simp
  qed
  then show ?thesis using assms(1) by (auto simp: fifo_def feeds_at_def less_Suc_eq_le)
qed

text \<open>
  The number of events that the first event of a pulse announces: the children of the rank that it carries and the
  node itself. A rank of which a node's events speak is not below the node, and has at least as many children.
\<close>

definition announced :: "int \<Rightarrow> int \<Rightarrow> int \<Rightarrow> metrics list \<Rightarrow> int \<Rightarrow> nat" where
  "announced d n r es t = (case pulse_events t es of [] \<Rightarrow> Suc (degree d n r) | a # _ \<Rightarrow> Suc (degree d n (parent_rank a)))"

lemma feeds_fits:
  assumes "feeds_at d n M r own below arr" "valid_topo d n" "0 \<le> r" "r < n"
  shows "pulses_fit (announced d n r (map snd arr)) (map snd arr)"
    "Suc (degree d n r) \<le> announced d n r (map snd arr) t"
proof -
  note f = feeds_fifo [OF assms]
  have d: "0 < d" using assms(2) by (simp add: valid_topo_def)
  show least: "Suc (degree d n r) \<le> announced d n r (map snd arr) t" for t
    using feeds_pulse_event(6) [OF assms, of _ t] degree_antimono [OF d, of _ r n]
    by (auto simp: announced_def split: list.split)
  show "pulses_fit (announced d n r (map snd arr)) (map snd arr)"
    unfolding pulses_fit_def
  proof (intro allI conjI)
    fix t
    have "length (pulse_events t (map snd arr)) \<le> Suc (degree d n r)"
      using fifo_count_le [OF f, of "nat t"] fifo_nonneg [OF f, of t] by (cases "0 \<le> t") auto
    then show "length (pulse_events t (map snd arr)) \<le> announced d n r (map snd arr) t"
      using least by (rule order_trans)
    show "pulse_ok (announced d n r (map snd arr) t) (pulse_events t (map snd arr))"
    proof (cases "pulse_events t (map snd arr)")
      case (Cons a es)
      have mem: "a \<in> set (pulse_events t (map snd arr))" using Cons by simp
      note a = feeds_pulse_event [OF assms mem]
      have range: "-1 \<le> parent_rank a" "parent_rank a < n"
        using a(5,6) up_parent(2) [OF assms(2-4)] assms(4) by linarith+
      have deg: "degree_loop d n (parent_rank a) 1 0 = Inr (int (degree d n (parent_rank a)))"
        by (rule degree_loop_degree [OF assms(2) range])
      have x: "up d (- 1) \<le> up d (parent_rank a)" "up d (parent_rank a) \<le> up d r" "- 2 \<le> up d (- 1)"
        by (rule up_mono [OF d range(1)], rule up_mono [OF d a(6)])
          (use d zdiv_mono2 [of 2 1 d] in \<open>simp add: up_def signed_divide_int_def sgn_if\<close>)
      have n: "n \<le> int_max" using valid_topoD(5) [OF assms(2-4)] .
      have par: "parent_of d (parent_rank a) = Inr ((parent_rank a - 1) sdiv d)"
        using range x n assms(4) up_parent(3) [OF assms(2-4)] d
        by (simp add: parent_of_def c_div_def c_int_def up_def)
      have m: "metrics_nr e = int (M (nat t)) \<and> length (gather_info e) = M (nat t)" if "e \<in> set (a # es)" for e
        using feeds_pulse_event(3,4) [OF assms, of e t] that Cons by simp
      show ?thesis using a(1,2) deg par m unfolding Cons announced_def by (simp add: pulse_ok_def)
    qed (simp add: pulse_ok_def)
  qed
qed

text \<open>When every first event announces \<open>k\<close>.\<close>

lemma feeds_pulses:
  assumes "feeds_at d n M r own below arr" "valid_topo d n" "0 \<le> r" "r < n" "Suc (degree d n r) \<le> k"
    and "\<And>t a es. pulse_events t (map snd arr) = a # es \<Longrightarrow> Suc (degree d n (parent_rank a)) = k"
  shows "pulses_ok k (map snd arr)"
  unfolding pulses_ok_def
proof (intro allI conjI)
  fix t
  note f = feeds_fifo [OF assms(1-4)]
  show "length (pulse_events t (map snd arr)) \<le> k"
    using fifo_count_le [OF f, of "nat t"] fifo_nonneg [OF f, of t] assms(5) by (cases "0 \<le> t") auto
  show "pulse_ok k (pulse_events t (map snd arr))"
  proof (cases "pulse_events t (map snd arr)")
    case (Cons a es)
    have "pulse_ok (announced d n r (map snd arr) t) (pulse_events t (map snd arr))"
      using feeds_fits(1) [OF assms(1-4)] by (simp add: pulses_fit_def)
    then show ?thesis using assms(6) [OF Cons] by (simp add: announced_def Cons)
  qed (simp add: pulse_ok_def)
qed

text \<open>The sender of the first event of a pulse.\<close>

lemma filter_first:
  assumes "filter P xs = y # ys"
  obtains i where "i < length xs" "xs ! i = y" "P y" "\<forall>j < i. \<not> P (xs ! j)"
proof -
  obtain us vs where "xs = us @ y # vs" "\<forall>u \<in> set us. \<not> P u" "P y"
    using assms unfolding filter_eq_Cons_iff by blast
  then show ?thesis by (intro that [of "length us"]) (auto simp: nth_append)
qed

lemma first_sender:
  assumes "leads P arr" "pulse_events t (map snd arr) = e # es"
  shows "\<exists>s. P s \<and> (s, e) \<in> set arr"
proof -
  have f: "map snd (filter (\<lambda>x. timestamp (snd x) = t) arr) = e # es"
    using assms(2) by (simp add: pulse_events_def filter_map comp_def)
  then obtain x xs where x: "filter (\<lambda>x. timestamp (snd x) = t) arr = x # xs" "snd x = e" by auto
  obtain i where i: "i < length arr" "arr ! i = x" "timestamp (snd x) = t"
      "\<forall>j < i. timestamp (snd (arr ! j)) \<noteq> t"
    using filter_first [OF x(1)] by metis
  then have "P (fst x)" using assms(1) unfolding leads_def by fastforce
  moreover have "x \<in> set arr" using i by force
  ultimately show ?thesis using x(2) by (intro exI [of _ "fst x"]) auto
qed

text \<open>The rank that an event carries when its sender submits events of its own only.\<close>

lemma sender_event:
  assumes "prefix (of_sender s arr) xs" "stream_ok d n M c xs" "(s, e) \<in> set arr"
  shows "get_parent d c = Inr (parent_rank e)"
proof -
  have "e \<in> set (of_sender s arr)" using assms(3) by (force simp: of_sender_def)
  then obtain t where "t < length xs" "e = xs ! t" using prefix_nth [OF assms(1)] by (metis in_set_conv_nth)
  then show ?thesis using stream_okD(4) [OF assms(2)] by simp
qed

lemma feeds_child_rank:
  assumes "feeds d n M r own below arr" "valid_topo d n" "0 \<le> r" "(s, e) \<in> set arr" "s \<noteq> 0"
  shows "parent_rank e = r"
proof -
  obtain i where i: "s = Suc i" "i < degree d n r" using assms(1,4,5) by (cases s) (auto simp: feeds_def)
  note c = child_parent [OF assms(2,3) child_nth [OF i(2)]]
  have "prefix (of_sender s arr) (below ! i)" "stream_ok d n M (children d n r ! i) (below ! i)"
    using assms(1) i by (auto simp: feeds_def)
  from sender_event [OF this assms(4)] show ?thesis
    using up_parent(1) [OF assms(2), of "children d n r ! i"] c assms(3) by simp
qed

lemma feeds_own_rank:
  assumes "feeds_at d n M r own below arr" "valid_topo d n" "0 \<le> r" "r < n" "(0, e) \<in> set arr"
  shows "parent_rank e = up d r"
  using sender_event [OF _ _ assms(5)] assms(1) up_parent(1) [OF assms(2-4)] by (fastforce simp: feeds_at_def)

text \<open>
  The number announced is the right one at a rank that has all \<open>d\<close> children, at the root, and wherever a child's own
  event comes first; the exception is the last inner rank when it is not the root and not full.
\<close>

lemma node_pulses:
  assumes "feeds_at d n M r own below arr" "valid_topo d n" "0 \<le> r" "r < n"
    and "0 < r \<and> int (degree d n r) < d \<Longrightarrow> child_first arr \<and> feeds d n M r own below arr"
  shows "pulses_ok (Suc (degree d n r)) (map snd arr)"
proof (rule feeds_pulses [OF assms(1-4) order_refl])
  fix t a es assume a: "pulse_events t (map snd arr) = a # es"
  have d: "0 < d" using assms(2) by (simp add: valid_topo_def)
  have mem: "a \<in> set (pulse_events t (map snd arr))" using a by simp
  note p = feeds_pulse_event(5,6) [OF assms(1-4) mem]
  have "degree d n (parent_rank a) = degree d n r"
  proof (cases "int (degree d n r) < d")
    case False
    then show ?thesis
      using degree_antimono [OF d p(2), of n] degree_le [OF d, of n "parent_rank a"] by linarith
  next
    case True
    show ?thesis
    proof (cases "r = 0")
      case True
      have "below \<noteq> [] \<and> length below = degree d n 0" using assms(1) True by (simp add: feeds_at_def)
      then have "degree d n 0 \<noteq> 0" by (cases below) simp_all
      moreover have "d \<noteq> 1 \<Longrightarrow> up d 0 = 0" using d by (simp add: up_def signed_divide_int_def sgn_if)
      ultimately show ?thesis using True p \<open>int (degree d n r) < d\<close> by (cases "d = 1") auto
    next
      case False
      then have c: "child_first arr" "feeds d n M r own below arr" using assms(3,5) True by simp_all
      obtain s where "s \<noteq> 0" "(s, a) \<in> set arr" using first_sender [OF c(1) a] by blast
      then show ?thesis using feeds_child_rank [OF c(2) assms(2,3)] by simp
    qed
  qed
  then show "Suc (degree d n (parent_rank a)) = Suc (degree d n r)" by simp
qed

text \<open>The children of a rank that is not full are leaves.\<close>

lemma last_inner_leaves:
  assumes "valid_topo d n" "0 \<le> r" "int (degree d n r) < d" "c \<in> set (children d n r)"
  shows "children d n c = []"
proof -
  have d: "0 < d" using assms(1) by (simp add: valid_topo_def)
  have "n - 1 < r * d + d" using assms(3,4) by (auto simp: degree_alt children_set min_def split: if_splits)
  also have "\<dots> \<le> c * d"
    using mult_right_mono [of "r + 1" c d] child_parent(2) [OF assms(1,2,4)] d by (simp add: algebra_simps)
  finally show ?thesis by (simp add: children_def)
qed

section \<open>The result of a rank\<close>

lemma pulse_result_fields:
  assumes "es \<noteq> []"
  shows "timestamp (pulse_result ar p es) = p" "max_degree (pulse_result ar p es) = max_degree (hd es)"
    "nprocs (pulse_result ar p es) = nprocs (hd es)" "metrics_nr (pulse_result ar p es) = metrics_nr (hd es)"
    "parent_rank (pulse_result ar p es) = (parent_rank (hd es) - 1) sdiv max_degree (hd es)"
proof -
  have "timestamp (foldl (fold_event ar) g xs) = timestamp g \<and> max_degree (foldl (fold_event ar) g xs) = max_degree g \<and>
      nprocs (foldl (fold_event ar) g xs) = nprocs g \<and> metrics_nr (foldl (fold_event ar) g xs) = metrics_nr g \<and>
      parent_rank (foldl (fold_event ar) g xs) = parent_rank g" for g xs
    by (induction xs arbitrary: g) (simp_all add: fold_event_def)
  then show "timestamp (pulse_result ar p es) = p" "max_degree (pulse_result ar p es) = max_degree (hd es)"
    "nprocs (pulse_result ar p es) = nprocs (hd es)" "metrics_nr (pulse_result ar p es) = metrics_nr (hd es)"
    "parent_rank (pulse_result ar p es) = (parent_rank (hd es) - 1) sdiv max_degree (hd es)"
    by (simp_all add: pulse_result_def start_event_def)
qed

text \<open>
  Whatever the order, the program does not fail, and the aggregates it submits are those of complete pulses, in order: a
  pulse whose first event announces more events than the node gets is never completed.
\<close>

lemma node_result:
  assumes "event_queue Q elems" "elems q0 = []"
    and "feeds_at d n M r own below arr" "valid_topo d n" "0 \<le> r" "r < n" "int (length arr) < int_max"
  obtains st q m where "arrivals Q ar (cod_init metrics_zero, q0, []) (map snd arr) =
      Inr (st, q, map (\<lambda>t. pulse_result ar (int t) (pulse_events (int t) (map snd arr))) [0 ..< m])"
    "\<And>t. t < m \<Longrightarrow> length (pulse_events (int t) (map snd arr)) = Suc (degree d n r)"
proof -
  note f = feeds_fifo [OF assms(3-6)] and fits = feeds_fits [OF assms(3-6)]
  have k: "2 \<le> Suc (degree d n r)" using assms(3) by (cases below) (auto simp: feeds_at_def)
  obtain st q out m c where r: "arrivals list_queue ar (cod_init metrics_zero, [], []) (map snd arr)
      = Inr (st, q, out)" and i: "cod_inv (announced d n r (map snd arr)) ar (map snd arr) st q out m c"
    using run_fits [OF f fits(1) k assms(7) fits(2)] by blast
  have "length (pulse_events (int t) (map snd arr)) = Suc (degree d n r)" if "t < m" for t
    using i that fits(2) [of "int t"] fifo_count_le [OF f, of t] by (simp add: cod_inv_def)
  moreover have "out = map (\<lambda>t. pulse_result ar (int t) (pulse_events (int t) (map snd arr))) [0 ..< m]"
    using i by (simp add: cod_inv_def)
  ultimately show ?thesis using run_any_queue [OF assms(1,2) r] that by blast
qed

text \<open>The events of a complete pulse are the own event and one event of every child.\<close>

lemma feeds_complete:
  assumes "feeds_at d n M r own below arr" "valid_topo d n" "0 \<le> r" "r < n"
    and "length (pulse_events (int t) (map snd arr)) = Suc (degree d n r)"
  shows "t < length own" "\<And>b. b \<in> set below \<Longrightarrow> t < length b"
    "mset (pulse_events (int t) (map snd arr)) = mset (own ! t # map (\<lambda>b. b ! t) below)"
proof -
  note f = feeds_fifo [OF assms(1-4)]
  have p: "prefix (of_sender 0 arr) own" "\<And>i. i < length below \<Longrightarrow> prefix (of_sender (Suc i) arr) (below ! i)"
      "length below = degree d n r"
    using assms(1) by (auto simp: feeds_at_def)
  have o: "t < length own \<and> own ! t = of_sender 0 arr ! t"
    using prefix_nth [OF p(1)] fifo_full [OF f assms(5), of 0] by simp
  have b: "t < length (below ! i) \<and> below ! i ! t = of_sender (Suc i) arr ! t" if "i < length below" for i
    using prefix_nth [OF p(2) [OF that]] fifo_full [OF f assms(5), of "Suc i"] that p(3) by simp
  show "t < length own" using o by simp
  show "t < length x" if "x \<in> set below" for x using b that by (auto simp: in_set_conv_nth)
  have "map (\<lambda>s. of_sender s arr ! t) [0 ..< Suc (degree d n r)] = own ! t # map (\<lambda>b. b ! t) below"
    by (rule nth_equalityI) (use o b p(3) in \<open>auto simp: nth_Cons' simp del: upt_Suc\<close>)
  then show "mset (pulse_events (int t) (map snd arr)) = mset (own ! t # map (\<lambda>b. b ! t) below)"
    using pulse_senders_full [OF f assms(5)] by simp
qed

lemma inner_run_feeds:
  assumes "inner_run Q ar q0 own below arr out" "stream_ok d n M r own" "below \<noteq> []"
    and "below = map f (children d n r)" "\<And>c. c \<in> set (children d n r) \<Longrightarrow> stream_at d n M c (f c)"
  shows "feeds_at d n M r own below arr"
  using assms by (auto simp: inner_run_def feeds_at_def degree_def)

text \<open>The aggregates of an inner rank have the fields of its events.\<close>

lemma inner_stream:
  assumes "feeds_at d n M r own below arr" "valid_topo d n" "0 \<le> r" "r < n"
    and "\<And>t. t < m \<Longrightarrow> length (pulse_events (int t) (map snd arr)) = Suc (degree d n r)"
  shows "stream_at d n M r (map (\<lambda>t. pulse_result ar (int t) (pulse_events (int t) (map snd arr))) [0 ..< m])"
  unfolding stream_at_def
proof (intro allI impI)
  fix t assume "t < length (map (\<lambda>t. pulse_result ar (int t) (pulse_events (int t) (map snd arr))) [0 ..< m])"
  then have t: "t < m" by simp
  let ?es = "pulse_events (int t) (map snd arr)"
  have d: "0 < d" using assms(2) by (simp add: valid_topo_def)
  obtain a es where es: "?es = a # es" using assms(5) [OF t] by (cases ?es) auto
  have mem: "a \<in> set ?es" using es by simp
  note a = feeds_pulse_event [OF assms(1-4) mem]
  have "length (gather_info (pulse_result ar (int t) ?es)) = M t"
    by (rule pulse_result_length) (use feeds_pulse_event(4) [OF assms(1-4), of _ "int t"] es in auto)
  then show "timestamp (map (\<lambda>t. pulse_result ar (int t) (pulse_events (int t) (map snd arr))) [0 ..< m] ! t) = int t \<and>
      max_degree (map (\<lambda>t. pulse_result ar (int t) (pulse_events (int t) (map snd arr))) [0 ..< m] ! t) = d \<and>
      nprocs (map (\<lambda>t. pulse_result ar (int t) (pulse_events (int t) (map snd arr))) [0 ..< m] ! t) = n \<and>
      metrics_nr (map (\<lambda>t. pulse_result ar (int t) (pulse_events (int t) (map snd arr))) [0 ..< m] ! t) = int (M t) \<and>
      length (gather_info (map (\<lambda>t. pulse_result ar (int t) (pulse_events (int t) (map snd arr))) [0 ..< m] ! t)) = M t \<and>
      up d (up d r) \<le> parent_rank (map (\<lambda>t. pulse_result ar (int t) (pulse_events (int t) (map snd arr))) [0 ..< m] ! t) \<and>
      parent_rank (map (\<lambda>t. pulse_result ar (int t) (pulse_events (int t) (map snd arr))) [0 ..< m] ! t) \<le> up d r"
    using t pulse_result_fields [of ?es ar "int t"] es a(1-3) up_mono [OF d a(5)] up_mono [OF d a(6)]
    by (simp add: up_def)
qed

text \<open>
  What the aggregates of a rank say: pulse \<open>t\<close> of the subtree's ranks, every one of them once.
\<close>

definition covers :: "int \<Rightarrow> int \<Rightarrow> (int \<Rightarrow> metrics list) \<Rightarrow> int \<Rightarrow> metrics list \<Rightarrow> bool" where
  "covers d n own r out \<longleftrightarrow> (\<forall>t < length out.
     (\<forall>x \<in> set (subtree d n r). t < length (own x)) \<and>
     (\<forall>j < length (gather_info (out ! t)).
        within double_bound (map (\<lambda>x. gather_info (own x ! t) ! j) (subtree d n r)) \<longrightarrow>
        summarises (gather_info (out ! t) ! j) (map (\<lambda>x. gather_info (own x ! t) ! j) (subtree d n r))))"

lemma covers_inner:
  assumes feeds: "feeds_at d n M r (own r) (map out ks) arr" and topo: "valid_topo d n" "0 \<le> r" "r < n"
    and ks: "ks = children d n r" and below: "\<And>c. c \<in> set ks \<Longrightarrow> stream_at d n M c (out c) \<and> covers d n own c (out c)"
    and full: "\<And>t. t < m \<Longrightarrow> length (pulse_events (int t) (map snd arr)) = Suc (degree d n r)"
  shows "covers d n own r (map (\<lambda>t. pulse_result double_arith (int t) (pulse_events (int t) (map snd arr))) [0 ..< m])"
proof -
  have d: "0 < d" using topo(1) by (simp add: valid_topo_def)
  have sub: "subtree d n r = r # concat (map (subtree d n) ks)" using subtree_unfold [OF d topo(2,3)] ks by simp
  have self: "subtree d n c \<noteq> []" if "c \<in> set ks" for c
    using subtree_unfold [OF d, of c] child_greater [OF d topo(2)] that ks topo(2) by fastforce
  have *: "(\<forall>x \<in> set (subtree d n r). t < length (own x)) \<and>
      (\<forall>j < M t. within double_bound (map (\<lambda>x. gather_info (own x ! t) ! j) (subtree d n r)) \<longrightarrow>
        summarises (gather_info (pulse_result double_arith (int t) (pulse_events (int t) (map snd arr))) ! j)
          (map (\<lambda>x. gather_info (own x ! t) ! j) (subtree d n r)))" if t: "t < m" for t
  proof (intro conjI allI impI)
    let ?es = "pulse_events (int t) (map snd arr)"
    note c = feeds_complete [OF feeds topo full [OF t]]
    have len: "t < length (own r)" "\<And>c. c \<in> set ks \<Longrightarrow> t < length (out c)" using c(1,2) by auto
    then show "\<forall>x \<in> set (subtree d n r). t < length (own x)"
      using below by (auto simp: sub covers_def)
    fix j assume j: "j < M t"
      and w: "within double_bound (map (\<lambda>x. gather_info (own x ! t) ! j) (subtree d n r))"
    let ?f = "\<lambda>e. gather_info e ! j"
    define rs where "rs = ?f (own r ! t) # map (\<lambda>c. ?f (out c ! t)) ks"
    define xss where "xss = [?f (own r ! t)] # map (\<lambda>c. map (\<lambda>x. ?f (own x ! t)) (subtree d n c)) ks"
    have cat: "concat xss = map (\<lambda>x. ?f (own x ! t)) (subtree d n r)"
      by (simp add: xss_def sub map_concat comp_def)
    have child: "summarises (?f (out c ! t)) (map (\<lambda>x. ?f (own x ! t)) (subtree d n c))" if k: "c \<in> set ks" for c
    proof -
      have "within double_bound (map (\<lambda>x. ?f (own x ! t)) (subtree d n c))"
        by (rule within_concat [of _ xss]) (use w cat k in \<open>auto simp: xss_def\<close>)
      then show ?thesis using below [OF k] len(2) [OF k] stream_atD(2) [of d n M c "out c" t] j
        by (simp add: covers_def)
    qed
    have all: "list_all2 summarises rs xss"
      using child by (auto simp: rs_def xss_def summarises_single list_all2_conv_all_nth nth_Cons split: nat.splits)
    have ne: "\<forall>xs \<in> set xss. xs \<noteq> []" using self by (auto simp: xss_def)
    have perm: "mset (map ?f ?es) = mset rs"
      using arg_cong [OF c(3), of "image_mset ?f"] by (simp add: rs_def image_mset.compositionality comp_def)
    have wr: "within double_bound (map ?f ?es)"
      by (rule within_mset [OF within_summaries [OF all ne] perm [symmetric]]) (use w cat in simp)
    have lens: "\<forall>e \<in> set ?es. length (gather_info e) = M t"
      using feeds_pulse_event(4) [OF feeds topo, of _ "int t"] by simp
    have "?es \<noteq> []" using full [OF t] by auto
    then have "summarises (?f (pulse_result double_arith (int t) ?es)) (map ?f ?es)"
      by (rule double_exact.summary_of_pulse [OF _ lens j wr])
    then have "summarises (?f (pulse_result double_arith (int t) ?es)) rs" by (rule summarises_mset [OF _ perm])
    then show "summarises (?f (pulse_result double_arith (int t) ?es)) (map (\<lambda>x. ?f (own x ! t)) (subtree d n r))"
      using summarises_concat [OF _ _ all ne] cat by (simp add: rs_def)
  qed
  show ?thesis
    using * stream_atD(2) [OF inner_stream [OF feeds topo full, of m double_arith]] by (simp add: covers_def)
qed

lemma rank_result:
  assumes "event_queue Q elems" "elems q0 = []" "valid_topo d n" "1 < n"
    and "\<forall>r \<in> {0 ..< n}. stream_ok d n M r (own r)" "tree_run Q double_arith q0 d n own arr out"
    and "0 \<le> r" "r < n"
  shows "stream_at d n M r (out r) \<and> covers d n own r (out r)"
  using assms(7,8)
proof (induction "nat (n - r)" arbitrary: r rule: less_induct)
  case less
  have d: "0 < d" using assms(3) by (simp add: valid_topo_def)
  have own: "stream_ok d n M r (own r)" using assms(5) less.prems by simp
  note run = tree_run_node [OF assms(6,3,4) less.prems]
  show ?case
  proof (cases "children d n r = []")
    case True
    then show ?thesis
      using run own stream_ok_at [OF own assms(3) less.prems] subtree_leaf [OF d less.prems True]
      by (auto simp: covers_def summarises_single)
  next
    case False
    have below: "stream_at d n M c (out c) \<and> covers d n own c (out c)" if c: "c \<in> set (children d n r)" for c
      by (rule less.hyps) (use child_greater [OF d less.prems(1) c] less.prems in auto)
    have i: "inner_run Q double_arith q0 (own r) (map out (children d n r)) (arr r) (out r)" using run False by simp
    have feeds: "feeds_at d n M r (own r) (map out (children d n r)) (arr r)"
      by (rule inner_run_feeds [OF i own _ refl]) (use False below in auto)
    have len: "int (length (arr r)) < int_max" using i by (simp add: inner_run_def)
    obtain st q m where m: "arrivals Q double_arith (cod_init metrics_zero, q0, []) (map snd (arr r)) =
        Inr (st, q, map (\<lambda>t. pulse_result double_arith (int t) (pulse_events (int t) (map snd (arr r)))) [0 ..< m])"
      "\<And>t. t < m \<Longrightarrow> length (pulse_events (int t) (map snd (arr r))) = Suc (degree d n r)"
      using node_result [OF assms(1,2) feeds assms(3) less.prems len, of double_arith] by blast
    have "out r = map (\<lambda>t. pulse_result double_arith (int t) (pulse_events (int t) (map snd (arr r)))) [0 ..< m]"
      using i m(1) by (simp add: inner_run_def)
    then show ?thesis
      using inner_stream [OF feeds assms(3) less.prems m(2)]
        covers_inner [OF feeds assms(3) less.prems refl below m(2)] by simp
  qed
qed

section \<open>Progress\<close>

text \<open>Everything that was submitted has arrived, in orders that keep up.\<close>

definition all_arrived :: "int \<Rightarrow> int \<Rightarrow> (int \<Rightarrow> metrics list) \<Rightarrow> (int \<Rightarrow> (nat \<times> metrics) list) \<Rightarrow>
    (int \<Rightarrow> metrics list) \<Rightarrow> bool" where
  "all_arrived d n own arr out \<longleftrightarrow> (\<forall>r \<in> {0 ..< n}. children d n r \<noteq> [] \<longrightarrow>
     of_sender 0 (arr r) = own r \<and>
     (\<forall>i < degree d n r. of_sender (Suc i) (arr r) = out (children d n r ! i)) \<and>
     keeps_up (Suc (degree d n r)) (arr r))"

lemma node_complete:
  assumes "event_queue Q elems" "elems q0 = []"
    and "fifo k arr" "pulses_ok k (map snd arr)" "2 \<le> k" "int (length arr) < int_max" "keeps_up k arr"
    and "arrivals Q ar (cod_init metrics_zero, q0, []) (map snd arr) = Inr (st, q, out)"
  shows "t < length out \<longleftrightarrow> (\<forall>s < k. t < length (of_sender s arr))"
proof -
  obtain st1 q1 out1 m c where r: "arrivals list_queue ar (cod_init metrics_zero, [], []) (map snd arr)
      = Inr (st1, q1, out1)" and i: "cod_inv (\<lambda>_. k) ar (map snd arr) st1 q1 out1 m c"
    and c: "c = length (pulse_events (int m) (map snd arr))"
    using run_inv [OF assms(3-6)] assms(7) by blast
  obtain q2 where "arrivals Q ar (cod_init metrics_zero, q0, []) (map snd arr) = Inr (st1, q2, out1)"
    using run_any_queue [OF assms(1,2) r] by blast
  then have out: "length out = m" using assms(8) i by (simp add: cod_inv_def)
  have short: "length (pulse_events (int m) (map snd arr)) \<noteq> k"
    using i c assms(5) by (auto simp: cod_inv_def between_def split: if_splits)
  have "length (pulse_events (int t) (map snd arr)) = k \<longleftrightarrow> (\<forall>s < k. t < length (of_sender s arr))"
  proof
    assume "\<forall>s < k. t < length (of_sender s arr)"
    then have "{s. s < k \<and> t < length (of_sender s arr)} = {0 ..< k}" by auto
    then show "length (pulse_events (int t) (map snd arr)) = k" using fifo_count [OF assms(3), of t] by simp
  qed (use fifo_full [OF assms(3)] in blast)
  moreover have "length (pulse_events (int t) (map snd arr)) = k" if "t < m"
    using i that by (simp add: cod_inv_def)
  moreover have "t < m" if "length (pulse_events (int t) (map snd arr)) = k"
    using fifo_earlier [OF assms(3) that, of m] short by linarith
  ultimately show ?thesis using out by blast
qed

lemma rank_complete:
  assumes "event_queue Q elems" "elems q0 = []" "valid_topo d n" "1 < n"
    and "\<forall>r \<in> {0 ..< n}. stream_ok d n M r (own r)" "tree_run Q double_arith q0 d n own arr out"
    and "all_arrived d n own arr out"
    and "\<forall>r \<in> {0 <..< n}. 0 < degree d n r \<and> int (degree d n r) < d \<longrightarrow> child_first (arr r)" "0 \<le> r" "r < n"
  shows "t < length (out r) \<longleftrightarrow> (\<forall>x \<in> set (subtree d n r). t < length (own x))"
  using assms(9,10)
proof (induction "nat (n - r)" arbitrary: r rule: less_induct)
  case less
  have d: "0 < d" using assms(3) by (simp add: valid_topo_def)
  note run = tree_run_node [OF assms(6,3,4) less.prems]
  show ?case
  proof (cases "children d n r = []")
    case True
    then show ?thesis using run subtree_leaf [OF d less.prems] by simp
  next
    case False
    have c: "0 \<le> c" "c < n" "nat (n - c) < nat (n - r)" if "c \<in> set (children d n r)" for c
      using child_greater [OF d less.prems(1) that] less.prems by auto
    have i: "inner_run Q double_arith q0 (own r) (map out (children d n r)) (arr r) (out r)" using run False by simp
    have own: "stream_ok d n M r (own r)" using assms(5) less.prems by simp
    have feeds: "feeds_at d n M r (own r) (map out (children d n r)) (arr r)"
      by (rule inner_run_feeds [OF i own _ refl]) (use False rank_result [OF assms(1-6)] c in auto)
    have pos: "0 < degree d n r" using False by (simp add: degree_def)
    have ok: "pulses_ok (Suc (degree d n r)) (map snd (arr r))"
    proof (rule node_pulses [OF feeds assms(3) less.prems])
      assume last: "0 < r \<and> int (degree d n r) < d"
      have "stream_ok d n M x (out x)" if x: "x \<in> set (children d n r)" for x
        using tree_run_node [OF assms(6,3,4) c(1,2) [OF x]] last_inner_leaves [OF assms(3) less.prems(1) _ x] last
          assms(5) c(1,2) [OF x] by simp
      then have "feeds d n M r (own r) (map out (children d n r)) (arr r)"
        using feeds by (simp add: feeds_def feeds_at_def degree_def)
      then show "child_first (arr r) \<and> feeds d n M r (own r) (map out (children d n r)) (arr r)"
        using assms(8) last less.prems pos by simp
    qed
    obtain st q where arrive: "arrivals Q double_arith (cod_init metrics_zero, q0, []) (map snd (arr r)) = Inr (st, q, out r)"
      "int (length (arr r)) < int_max"
      using i by (auto simp: inner_run_def split: sum.splits)
    have k: "2 \<le> Suc (degree d n r)" using pos by simp
    have arrived: "of_sender 0 (arr r) = own r"
        "\<And>i. i < degree d n r \<Longrightarrow> of_sender (Suc i) (arr r) = out (children d n r ! i)"
        "keeps_up (Suc (degree d n r)) (arr r)"
      using assms(7) less.prems False by (auto simp: all_arrived_def)
    have "t < length (out r) \<longleftrightarrow> (\<forall>s < Suc (degree d n r). t < length (of_sender s (arr r)))"
      by (rule node_complete [OF assms(1,2) feeds_fifo [OF feeds assms(3) less.prems] ok k arrive(2) arrived(3) arrive(1)])
    also have "\<dots> \<longleftrightarrow> t < length (own r) \<and> (\<forall>c \<in> set (children d n r). t < length (out c))"
      using arrived(1,2) by (auto simp: All_less_Suc2 all_set_conv_all_nth degree_def)
    also have "\<dots> \<longleftrightarrow> (\<forall>x \<in> set (subtree d n r). t < length (own x))"
      using less.hyps c by (auto simp: subtree_unfold [OF d less.prems])
    finally show ?thesis .
  qed
qed

text \<open>At the root the subtree is all ranks.\<close>

lemma covers_root:
  assumes "0 < d" "0 < n" "stream_at d n M 0 es" "covers d n own 0 es" "t < length es" "j < M t"
    and "within double_bound (map (\<lambda>r. gather_info (own r ! t) ! j) [0 .. n - 1])"
  shows "timestamp (es ! t) = int t \<and> (\<forall>r \<in> {0 ..< n}. t < length (own r)) \<and>
    summarises (gather_info (es ! t) ! j) (map (\<lambda>r. gather_info (own r ! t) ! j) [0 .. n - 1])"
proof -
  have "mset (subtree d n 0) = mset [0 .. n - 1]"
    by (rule set_eq_iff_mset_eq_distinct [THEN iffD1]) (use subtree_root [OF assms(1,2)] subtree_distinct assms(1) in auto)
  then have m: "mset (map f (subtree d n 0)) = mset (map f [0 .. n - 1])" for f :: "int \<Rightarrow> aggregators" by simp
  have "summarises (gather_info (es ! t) ! j) (map (\<lambda>r. gather_info (own r ! t) ! j) (subtree d n 0))"
    using assms(4-6) stream_atD(2) [OF assms(3,5)] within_mset [OF assms(7) m [symmetric]] by (simp add: covers_def)
  then show ?thesis
    using assms(4,5) stream_atD(1) [OF assms(3,5)] summarises_mset [OF _ m] subtree_root [OF assms(1,2)]
    by (simp add: covers_def)
qed

section \<open>Properties\<close>

text \<open>
  C3. The result of the system, with more than one process: for every tree, every queue of EVPath and every order in which
  the events of different senders are queued at every node, own events first or not, the \<open>t\<close>th aggregate that the root
  submits is that of pulse \<open>t\<close>, and every rank has then submitted its own event of the pulse. For a metric \<open>j\<close> of which
  the values of all ranks, and their sum, are in the range in which doubles add small integers exactly, its sum, minimum and
  maximum are those of the own events of all \<open>n\<close> ranks, every rank counted once.
\<close>

theorem root_aggregates_every_rank:
  assumes "event_queue Q elems" "elems q0 = []" "valid_topo d n" "1 < n"
    and "\<forall>r \<in> {0 ..< n}. stream_ok d n M r (own r)" "tree_run Q double_arith q0 d n own arr out"
    and "t < length (out 0)"
  shows "timestamp (out 0 ! t) = int t \<and> (\<forall>r \<in> {0 ..< n}. t < length (own r)) \<and>
    (\<forall>j < M t. within double_bound (map (\<lambda>r. gather_info (own r ! t) ! j) [0 .. n - 1]) \<longrightarrow>
      summarises (gather_info (out 0 ! t) ! j) (map (\<lambda>r. gather_info (own r ! t) ! j) [0 .. n - 1]))"
proof -
  have dn: "0 < d" "0 < n" using assms(3) by (simp_all add: valid_topo_def)
  then have s: "stream_at d n M 0 (out 0)" "covers d n own 0 (out 0)" using rank_result [OF assms(1-6), of 0] by auto
  have "timestamp (out 0 ! t) = int t" "\<forall>r \<in> {0 ..< n}. t < length (own r)"
    using stream_atD(1) [OF s(1) assms(7)] s(2) assms(7) subtree_root [OF dn] by (simp_all add: covers_def)
  then show ?thesis using covers_root [OF dn s assms(7)] by blast
qed

text \<open>Three ranks, one pulse: the leaves' events arrive at the root, then its own.\<close>

definition three_own :: "int \<Rightarrow> metrics list" where
  "three_own r = [sample_event 2 3 0 0 (if r = 0 then 7 else if r = 1 then 5 else 9)]"

definition three_arr :: "int \<Rightarrow> (nat \<times> metrics) list" where
  "three_arr r = (if r = 0 then [(1, hd (three_own 1)), (2, hd (three_own 2)), (0, hd (three_own 0))] else [])"

definition three_out :: "int \<Rightarrow> metrics list" where
  "three_out r = (if r = 0 then
     (case arrivals list_queue double_arith (cod_init metrics_zero, [], []) (map snd (three_arr 0)) of
        Inl e \<Rightarrow> [] | Inr (st, q, submitted) \<Rightarrow> submitted) else three_own r)"

lemma three_children: "children 2 3 0 = [1, 2]" "children 2 3 1 = []" "children 2 3 2 = []"
  by code_simp+

lemma three_ranks: "{0 ..< 3} = {0, 1, 2 :: int}" by auto

lemma three_streams: "\<forall>r \<in> {0 ..< 3}. stream_ok 2 3 (\<lambda>_. 1) r (three_own r)"
  unfolding three_ranks
  by (simp add: stream_ok_def three_own_def own_event_def sample_event_def get_parent_def c_int_def c_div_def
      signed_divide_int_def)

lemma three_arr_ok:
  "fifo 3 (three_arr 0)" "pulses_ok 3 (map snd (three_arr 0))" "int (length (three_arr 0)) < int_max"
  "keeps_up 3 (three_arr 0)"
  by (simp_all add: three_arr_def three_own_def pulses_ok_eval)
     (simp_all add: arrivals_eval)

lemma three_arrives:
  "\<exists>st q. arrivals list_queue double_arith (cod_init metrics_zero, [], []) (map snd (three_arr 0)) =
     Inr (st, q, three_out 0)"
  using run_inv [OF three_arr_ok(1,2) _ three_arr_ok(3), of double_arith] by (auto simp: three_out_def)

lemma three_senders:
  "of_sender 0 (three_arr 0) = three_own 0" "of_sender (Suc 0) (three_arr 0) = three_own 1"
  "of_sender (Suc (Suc 0)) (three_arr 0) = three_own 2"
  by (simp_all add: three_arr_def three_own_def of_sender_def)

lemma three_run: "tree_run list_queue double_arith [] 2 3 three_own three_arr three_out"
proof -
  have o: "three_out 1 = three_own 1" "three_out 2 = three_own 2" by (simp_all add: three_out_def)
  have "inner_run list_queue double_arith [] (three_own 0) (map three_out [1, 2]) (three_arr 0) (three_out 0)"
    using three_arrives three_arr_ok(1,3)
    by (auto simp: inner_run_def o three_senders less_Suc_eq fifo_def numeral_3_eq_3 less_Suc_eq_le)
  then show ?thesis unfolding tree_run_def three_ranks
    using o is_leaf_eq [of 2 3 0] is_leaf_eq [of 2 3 1] is_leaf_eq [of 2 3 2]
    by (simp add: three_children valid_topo_def)
qed

theorem root_aggregates_every_rank_witness:
  "tree_run list_queue double_arith [] 2 3 three_own three_arr three_out \<and>
   summarises (gather_info (three_out 0 ! 0) ! 0)
    [\<lparr>agg_min = 7, agg_max = 7, agg_sum = 7\<rparr>, \<lparr>agg_min = 5, agg_max = 5, agg_sum = 5\<rparr>,
     \<lparr>agg_min = 9, agg_max = 9, agg_sum = 9\<rparr>]"
proof -
  obtain st q where a: "arrivals list_queue double_arith (cod_init metrics_zero, [], []) (map snd (three_arr 0)) =
      Inr (st, q, three_out 0)" using three_arrives by blast
  have l: "0 < length (three_out 0)"
    unfolding node_complete [OF lq.event_queue_axioms refl three_arr_ok(1,2) _ three_arr_ok(3,4) a, simplified]
    using three_senders by (auto simp: numeral_3_eq_3 less_Suc_eq three_own_def)
  have r: "map (\<lambda>r. gather_info (three_own r ! 0) ! 0) [0 .. 3 - 1] =
    [\<lparr>agg_min = 7, agg_max = 7, agg_sum = 7\<rparr>, \<lparr>agg_min = 5, agg_max = 5, agg_sum = 5\<rparr>,
     \<lparr>agg_min = 9, agg_max = 9, agg_sum = 9\<rparr>]" by code_simp
  have t: "valid_topo 2 3" by (simp add: valid_topo_def)
  show ?thesis
    using root_aggregates_every_rank [OF lq.event_queue_axioms refl t _ three_streams three_run l, THEN conjunct2,
      THEN conjunct2, rule_format, of 0]
    unfolding r by (simp add: three_run within_def)
qed

text \<open>
  C4. Progress of the system, with more than one process: when everything that is submitted arrives, in orders that keep up at every inner
  node, the root submits as many aggregates as the slowest rank has submitted own events: no pulse of which
  all ranks have sent their event is withheld anywhere in the tree. One inner rank can spoil this: the last one, when it is not the root and
  has fewer than \<open>d\<close> children; there it is required that no own event is queued before the children's events of its
  pulse, which EVPath does not promise (\<open>own_first_stalls\<close>). When every inner rank has \<open>d\<close> children nothing is required.
\<close>

theorem root_keeps_up:
  assumes "event_queue Q elems" "elems q0 = []" "valid_topo d n" "1 < n"
    and "\<forall>r \<in> {0 ..< n}. stream_ok d n M r (own r)" "tree_run Q double_arith q0 d n own arr out"
    and "all_arrived d n own arr out"
    and "\<forall>r \<in> {0 <..< n}. 0 < degree d n r \<and> int (degree d n r) < d \<longrightarrow> child_first (arr r)"
  shows "length (out 0) = Min ((\<lambda>r. length (own r)) ` {0 ..< n})"
proof -
  have dn: "0 < d" "0 < n" using assms(3) by (simp_all add: valid_topo_def)
  let ?L = "(\<lambda>r. length (own r)) ` {0 ..< n}"
  have L: "finite ?L" "?L \<noteq> {}" using dn by auto
  have "t < length (out 0) \<longleftrightarrow> t < Min ?L" for t
    using rank_complete [OF assms, of 0 t] dn L by (simp add: subtree_root [OF dn])
  then show ?thesis by (metis less_irrefl linorder_neqE_nat)
qed

text \<open>
  Four ranks of degree 2 and one pulse: rank 1 is the last inner rank and has the single child 3, whose event comes
  first there.
\<close>

definition four_own :: "int \<Rightarrow> metrics list" where
  "four_own r = [sample_event 2 4 (if r = 3 then 1 else 0) 0 7]"

definition four_arr :: "metrics list \<Rightarrow> int \<Rightarrow> (nat \<times> metrics) list" where
  "four_arr es r =
     (if r = 0 then map (Pair 1) es @ [(0, hd (four_own 0)), (2, hd (four_own 2))]
      else if r = 1 then [(1, hd (four_own 3)), (0, hd (four_own 1))] else [])"

lemma four_children: "children 2 4 0 = [1, 2]" "children 2 4 1 = [3]" "children 2 4 2 = []" "children 2 4 3 = []"
  by code_simp+

lemma four_ranks: "{0 ..< 4} = {0, 1, 2, 3 :: int}" by auto

lemma four_topo: "valid_topo 2 4" by (simp add: valid_topo_def)

lemma four_streams: "\<forall>r \<in> {0 ..< 4}. stream_ok 2 4 (\<lambda>_. 1) r (four_own r)"
  unfolding four_ranks
  by (simp add: stream_ok_def four_own_def own_event_def sample_event_def get_parent_def c_int_def c_div_def
      signed_divide_int_def)

text \<open>What an inner rank submits when one event of every sender has arrived.\<close>

lemma one_pulse:
  assumes "feeds_at d n M r own below arr" "valid_topo d n" "0 \<le> r" "r < n" "int (length arr) < int_max"
    and "pulses_ok (Suc (degree d n r)) (map snd arr)" "keeps_up (Suc (degree d n r)) arr"
    and "\<forall>s < Suc (degree d n r). length (of_sender s arr) = 1"
  shows "\<exists>st q a. arrivals list_queue double_arith (cod_init metrics_zero, [], []) (map snd arr) = Inr (st, q, [a]) \<and>
    stream_at d n M r [a]"
proof -
  have k: "2 \<le> Suc (degree d n r)" using assms(1) by (cases below) (auto simp: feeds_at_def)
  obtain st q m where r: "arrivals list_queue double_arith (cod_init metrics_zero, [], []) (map snd arr) =
      Inr (st, q, map (\<lambda>t. pulse_result double_arith (int t) (pulse_events (int t) (map snd arr))) [0 ..< m])"
      and full: "\<And>t. t < m \<Longrightarrow> length (pulse_events (int t) (map snd arr)) = Suc (degree d n r)"
    using node_result [OF lq.event_queue_axioms refl assms(1-5)] by blast
  have "t < m \<longleftrightarrow> t < 1" for t
    using node_complete [OF lq.event_queue_axioms refl feeds_fifo [OF assms(1-4)] assms(6) k assms(5,7) r, of t] assms(8) by auto
  then have "m = 1" by (metis less_irrefl linorder_neqE_nat)
  then show ?thesis using r inner_stream [OF assms(1-4) full, of m double_arith] by auto
qed

lemma four_run:
  obtains a out where "tree_run list_queue double_arith [] 2 4 four_own (four_arr [a]) out"
    "all_arrived 2 4 four_own (four_arr [a]) out" "child_first (four_arr [a] 1)"
proof -
  let ?e = "\<lambda>r. hd (four_own r)"
  have ts: "timestamp (?e r) = 0" and own: "four_own r = [?e r]" for r by (simp_all add: four_own_def sample_event_def)
  have s: "stream_ok 2 4 (\<lambda>_. 1) 0 [?e 0]" "stream_ok 2 4 (\<lambda>_. 1) 1 [?e 1]" "stream_ok 2 4 (\<lambda>_. 1) 2 [?e 2]"
      "stream_ok 2 4 (\<lambda>_. 1) 3 [?e 3]"
    using four_streams unfolding four_ranks own [symmetric] by simp_all
  have d: "degree 2 4 1 = 1" "degree 2 4 0 = 2" by (simp_all add: degree_def four_children)
  have r1: "four_arr es 1 = [(1, ?e 3), (0, ?e 1)]" for es by (simp add: four_arr_def)
  have f1: "feeds 2 4 (\<lambda>_. 1) 1 [?e 1] [[?e 3]] (four_arr [] 1)"
    using s by (simp add: feeds_def d four_children r1 of_sender_def)
  have c1: "child_first (four_arr es 1)" for es using ts by (simp add: leads_def r1 less_Suc_eq)
  have l1: "\<forall>s < Suc (degree 2 4 1). length (of_sender s (four_arr [] 1)) = 1"
    by (simp add: r1 d of_sender_def less_Suc_eq)
  have k1: "keeps_up (Suc (degree 2 4 1)) (four_arr [] 1)" using ts by (simp add: keeps_up_def r1 d less_Suc_eq)
  note w1 = feeds_weaken [OF f1 four_topo]
  have "pulses_ok (Suc (degree 2 4 1)) (map snd (four_arr [] 1))"
    by (rule node_pulses [OF w1 four_topo]) (use c1 f1 in simp_all)
  then obtain st q a where a: "arrivals list_queue double_arith (cod_init metrics_zero, [], []) (map snd (four_arr [] 1)) = Inr (st, q, [a])"
      "stream_at 2 4 (\<lambda>_. 1) 1 [a]"
    using one_pulse [OF w1 four_topo _ _ _ _ k1 l1] by (auto simp: r1)
  have ta: "timestamp a = 0" using stream_atD(1) [OF a(2), of 0] by simp
  have r0: "four_arr [a] 0 = [(1, a), (0, ?e 0), (2, ?e 2)]" by (simp add: four_arr_def)
  have w0: "feeds_at 2 4 (\<lambda>_. 1) 0 [?e 0] [[a], [?e 2]] (four_arr [a] 0)"
    using s(1) a(2) stream_ok_at [OF s(3) four_topo]
    by (simp add: feeds_at_def d four_children r0 of_sender_def less_Suc_eq numeral_2_eq_2)
  have l0: "\<forall>s < Suc (degree 2 4 0). length (of_sender s (four_arr [a] 0)) = 1"
    by (simp add: r0 d of_sender_def less_Suc_eq numeral_2_eq_2)
  have k0: "keeps_up (Suc (degree 2 4 0)) (four_arr [a] 0)"
    using ts ta by (simp add: keeps_up_def r0 d less_Suc_eq numeral_2_eq_2)
  have "pulses_ok (Suc (degree 2 4 0)) (map snd (four_arr [a] 0))" by (rule node_pulses [OF w0 four_topo]) simp_all
  then obtain st0 q0 b where b: "arrivals list_queue double_arith (cod_init metrics_zero, [], []) (map snd (four_arr [a] 0)) = Inr (st0, q0, [b])"
    using one_pulse [OF w0 four_topo _ _ _ _ k0 l0] by (auto simp: r0)
  define out where "out r = (if r = 0 then [b] else if r = 1 then [a] else four_own r)" for r :: int
  have leaf: "is_leaf 2 4 r = Inr (children 2 4 r = [])" if "r \<in> {0, 1, 2, 3}" for r
    using is_leaf_eq [OF four_topo, of r] that by auto
  have i1: "inner_run list_queue double_arith [] [?e 1] [[?e 3]] (four_arr [a] 1) [a]"
    using a(1) by (simp add: inner_run_def r1 of_sender_def del: arrivals.simps)
  have i0: "inner_run list_queue double_arith [] [?e 0] [[a], [?e 2]] (four_arr [a] 0) [b]"
    using b by (simp add: inner_run_def r0 of_sender_def less_Suc_eq numeral_2_eq_2 del: arrivals.simps)
  have "tree_run list_queue double_arith [] 2 4 four_own (four_arr [a]) out"
    unfolding tree_run_def four_ranks
    using i0 i1 leaf by (simp add: four_children out_def own [symmetric])
  moreover have "all_arrived 2 4 four_own (four_arr [a]) out"
    unfolding all_arrived_def four_ranks
    using k0 k1 by (simp add: four_children d out_def r0 r1 of_sender_def own [symmetric] less_Suc_eq numeral_2_eq_2)
  ultimately show thesis using that c1 by blast
qed

theorem root_keeps_up_witness:
  "\<exists>a out. tree_run list_queue double_arith [] 2 4 four_own (four_arr [a]) out \<and> child_first (four_arr [a] 1) \<and> length (out 0) = 1"
proof -
  obtain a out where r: "tree_run list_queue double_arith [] 2 4 four_own (four_arr [a]) out"
      "all_arrived 2 4 four_own (four_arr [a]) out" "child_first (four_arr [a] 1)"
    using four_run by blast
  have "r = 1" if "r \<in> {0 <..< 4}" "0 < degree 2 4 r" for r
  proof -
    have "r \<in> {1, 2, 3}" using that(1) by auto
    then show ?thesis using that(2) by (auto simp: degree_def four_children)
  qed
  then have c: "\<forall>r \<in> {0 <..< 4}. 0 < degree 2 4 r \<and> int (degree 2 4 r) < 2 \<longrightarrow> child_first (four_arr [a] r)"
    using r(3) by blast
  have "length (out 0) = Min ((\<lambda>r. length (four_own r)) ` {0 ..< 4})"
    by (rule root_keeps_up [OF lq.event_queue_axioms refl four_topo _ four_streams r(1,2) c]) simp
  then show ?thesis using r by (auto simp: four_own_def)
qed

lemma three_full: "\<forall>r \<in> {0 <..< 3}. 0 < degree 2 3 r \<and> int (degree 2 3 r) < 2 \<longrightarrow> child_first (arr r)"
proof -
  have "{0 <..< 3} = {1, 2 :: int}" by auto
  then show ?thesis by (simp add: degree_def three_children)
qed

section \<open>A node with one child\<close>

text \<open>
  C23. The aggregation depends on the order in which EVPath queues the two copies that the handler's own event and
  the child's event leave behind. The own event carries the rank of the node's parent, the children's events that
  of the node; the program computes the number of events to wait for from the event it finds first. An inner
  rank with a single child whose own event of every pulse is queued first waits for the events of its parent's
  children: if these are two or more, it never submits anything, whatever arrives.
\<close>

theorem own_first_stalls:
  assumes "event_queue Q elems" "elems q0 = []" "valid_topo d n" "0 < r" "r < n"
    and "feeds d n M r own [below] arr" "own_first arr" "int (length arr) < int_max"
    and "2 \<le> degree d n ((r - 1) div d)"
  shows "\<exists>st q. arrivals Q ar (cod_init metrics_zero, q0, []) (map snd arr) = Inr (st, q, [])"
proof -
  have d: "0 < d" using assms(3) by (simp add: valid_topo_def)
  define p where "p = parent d r"
  have p: "0 \<le> p" "p < n" using parent_less [OF d assms(4)] assms(5) by (auto simp: p_def)
  have r: "0 \<le> r" using assms(4) by simp
  have deg: "degree d n r = 1" "2 \<le> degree d n p" using assms(6,9) by (simp_all add: feeds_def p_def parent_def)
  let ?k = "Suc (degree d n p)"
  note fa = feeds_weaken [OF assms(6,3) r]
  have ok: "pulses_ok ?k (map snd arr)"
  proof (rule feeds_pulses [OF fa assms(3) r assms(5)])
    fix t a es assume "pulse_events t (map snd arr) = a # es"
    then have "(0, a) \<in> set arr" using first_sender [OF assms(7)] by blast
    then have "parent_rank a = p"
      using feeds_own_rank [OF fa assms(3) r assms(5)] up_parent(1) [OF assms(3) r assms(5)] get_parent_eq [OF assms(3-5)]
      by (simp add: p_def)
    then show "Suc (degree d n (parent_rank a)) = ?k" by simp
  qed (use deg in simp)
  have none: "of_sender s arr = []" if "2 \<le> s" for s
    using assms(6) that by (fastforce simp: of_sender_def feeds_def filter_empty_conv)
  have f: "fifo ?k arr" unfolding fifo_def
  proof (intro conjI allI impI)
    show "\<forall>x \<in> set arr. fst x < ?k" using assms(6) deg by (fastforce simp: feeds_def)
    show "map timestamp (of_sender s arr) = map int [0 ..< length (of_sender s arr)]" for s
      using feeds_fifo [OF fa assms(3) r assms(5)] none [of s] deg(1) by (cases "s < 2") (auto simp: fifo_def)
  qed
  obtain st q out m c where run: "arrivals list_queue ar (cod_init metrics_zero, [], []) (map snd arr) = Inr (st, q, out)"
      "cod_inv (\<lambda>_. ?k) ar (map snd arr) st q out m c"
    using run_inv [OF f ok _ assms(8), of ar] deg(2) by fastforce
  have "m = 0"
  proof (rule ccontr)
    assume "m \<noteq> 0"
    then have "length (pulse_events (int 0) (map snd arr)) = ?k" using run(2) unfolding cod_inv_def by blast
    then show False using fifo_full [OF f _, of 0 2] none [of 2] deg by auto
  qed
  then have "out = []" using run(2) by (simp add: cod_inv_def)
  then show ?thesis using run_any_queue [OF assms(1,2) run(1)] by blast
qed

text \<open>Four ranks of degree 2: rank 1 has the single child 3, its parent 0 has two children.\<close>

theorem own_first_stalls_witness:
  "\<exists>st q. arrivals list_queue double_arith (cod_init metrics_zero, [], [])
     [sample_event 2 4 0 0 7, sample_event 2 4 1 0 5] = Inr (st, q, [])"
proof -
  let ?arr = "[(0, sample_event 2 4 0 0 7), (1, sample_event 2 4 1 0 5)] :: (nat \<times> metrics) list"
  have t: "valid_topo 2 4" by (simp add: valid_topo_def)
  have c: "children 2 4 1 = [3]" "degree 2 4 0 = 2" by code_simp+
  have f: "feeds 2 4 (\<lambda>_. 1) 1 [sample_event 2 4 0 0 7] [[sample_event 2 4 1 0 5]] ?arr"
    by (simp add: feeds_def c degree_def stream_ok_def own_event_def sample_event_def get_parent_def c_int_def
        c_div_def signed_divide_int_def of_sender_def)
  have o: "own_first ?arr" by (simp add: leads_def sample_event_def less_Suc_eq)
  show ?thesis
    using own_first_stalls [OF lq.event_queue_axioms refl t _ _ f o] c by simp
qed

end
