(* ===== verification/Shutdown.thy ===== *)
theory Shutdown
  imports Tree_Result Root_Results
begin

text \<open>
  The end of the monitoring (metrics_aggregator.c, evp_monitoring.c): a leaf that is told to finish submits one last
  event with its \<open>quit\<close> flag, the flag travels up with the aggregates of that pulse, and the root's wait in
  \<open>monitoring_finalize\<close> ends when \<open>final_result\<close> sees it. The theory joins the runs of the tree to those of the root
  process.
\<close>

section \<open>The flags on their way to the root\<close>

text \<open>An event of an arrival sequence is the own event of its pulse or a child's.\<close>

lemma feeds_origin:
  assumes "feeds_at d n M r own (map f (children d n r)) arr" "valid_topo d n" "0 \<le> r" "(s, e) \<in> set arr" "timestamp e = int t"
  shows "s = 0 \<and> t < length own \<and> e = own ! t \<or> s \<noteq> 0 \<and> (\<exists>c \<in> set (children d n r). t < length (f c) \<and> e = f c ! t)"
proof -
  have mem: "e \<in> set (of_sender s arr)" using assms(4) by (force simp: of_sender_def)
  then obtain u where u: "u < length (of_sender s arr)" "e = of_sender s arr ! u" by (auto simp: in_set_conv_nth)
  show ?thesis
  proof (cases s)
    case 0
    then have own: "prefix (of_sender s arr) own" "stream_ok d n M r own" using assms(1) by (simp_all add: feeds_at_def)
    then have "u < length own" "e = own ! u" using prefix_nth [OF own(1) u(1)] u(2) by simp_all
    then show ?thesis using 0 stream_okD(1) [OF own(2)] assms(5) by simp
  next
    case (Suc i)
    then have i: "i < degree d n r" using assms(1,4) by (fastforce simp: feeds_at_def degree_def)
    let ?c = "children d n r ! i"
    have c: "prefix (of_sender s arr) (f ?c)" "stream_at d n M ?c (f ?c)"
      using assms(1) i Suc by (simp_all add: feeds_at_def degree_def)
    then have "u < length (f ?c)" "e = f ?c ! u" using prefix_nth [OF c(1) u(1)] u(2) by simp_all
    then show ?thesis using Suc stream_atD(1) [OF c(2)] assms(5) child_nth [OF i] by auto
  qed
qed

text \<open>An aggregate has the flags of the event that was queued first: a child's, or the own one.\<close>

lemma first_flags:
  assumes "event_queue Q elems" "elems q0 = []" "valid_topo d n" "0 \<le> r" "r < n"
    and "feeds_at d n M r own (map f (children d n r)) arr" "int (length arr) < int_max"
    and "arrivals Q ar (cod_init metrics_zero, q0, []) (map snd arr) = Inr (st, q, out)" "t < length out"
  shows "(t < length own \<and> quit (out ! t) = quit (own ! t) \<and> update_file (out ! t) = update_file (own ! t) \<and> \<not> child_first arr) \<or>
    (\<exists>c \<in> set (children d n r). t < length (f c) \<and> quit (out ! t) = quit (f c ! t) \<and>
      update_file (out ! t) = update_file (f c ! t))"
proof -
  obtain st1 q1 m where m: "arrivals Q ar (cod_init metrics_zero, q0, []) (map snd arr) =
      Inr (st1, q1, map (\<lambda>t. pulse_result ar (int t) (pulse_events (int t) (map snd arr))) [0 ..< m])"
      "\<And>t. t < m \<Longrightarrow> length (pulse_events (int t) (map snd arr)) = Suc (degree d n r)"
    using node_result [OF assms(1,2,6,3-5,7), of ar] by blast
  have out: "out = map (\<lambda>t. pulse_result ar (int t) (pulse_events (int t) (map snd arr))) [0 ..< m]" using m(1) assms(8) by simp
  then have t: "t < m" "out ! t = pulse_result ar (int t) (pulse_events (int t) (map snd arr))" using assms(9) by simp_all
  obtain e es where e: "pulse_events (int t) (map snd arr) = e # es"
    using m(2) [OF t(1)] by (cases "pulse_events (int t) (map snd arr)") auto
  have flags: "quit (out ! t) = quit e" "update_file (out ! t) = update_file e"
    using pulse_result_fixed [of ar "int t" e es] unfolding t(2) e by simp_all
  have ts: "timestamp e = int t" using e by (auto simp: pulse_events_def filter_eq_Cons_iff)
  show ?thesis
  proof (cases "child_first arr")
    case True
    then obtain s where "s \<noteq> 0" "(s, e) \<in> set arr" using first_sender [OF _ e] by blast
    then show ?thesis using feeds_origin [OF assms(6,3,4) _ ts] flags by auto
  next
    case False
    have "e \<in> set (pulse_events (int t) (map snd arr))" using e by simp
    then have "e \<in> set (map snd arr)" by (simp add: pulse_events_def)
    then obtain s where "(s, e) \<in> set arr" by auto
    then show ?thesis using feeds_origin [OF assms(6,3,4) _ ts] flags False by auto
  qed
qed

text \<open>
  The flags of an aggregate are those of a single rank below: of a leaf, or of an inner rank at which an own event comes first.
\<close>

lemma flags_from_rank:
  assumes "event_queue Q elems" "elems q0 = []" "valid_topo d n" "1 < n"
    and "\<forall>r \<in> {0 ..< n}. stream_ok d n M r (own r)" "tree_run Q double_arith q0 d n own arr out"
    and "0 \<le> r" "r < n" "t < length (out r)"
  shows "\<exists>x \<in> set (subtree d n r). (is_leaf d n x = Inr True \<or> \<not> child_first (arr x)) \<and> t < length (own x) \<and>
    quit (out r ! t) = quit (own x ! t) \<and> update_file (out r ! t) = update_file (own x ! t)"
  using assms(7-9)
proof (induction "nat (n - r)" arbitrary: r rule: less_induct)
  case less
  have d: "0 < d" using assms(3) by (simp add: valid_topo_def)
  note run = tree_run_node [OF assms(6,3,4) less.prems(1,2)]
  show ?case
  proof (cases "children d n r = []")
    case True
    then show ?thesis
      using run less.prems assms(4) is_leaf_eq [OF assms(3) less.prems(1,2)] subtree_leaf [OF d less.prems(1,2) True] by simp
  next
    case False
    have c: "0 \<le> c" "c < n" "nat (n - c) < nat (n - r)" if "c \<in> set (children d n r)" for c
      using child_greater [OF d less.prems(1) that] less.prems by auto
    have i: "inner_run Q double_arith q0 (own r) (map out (children d n r)) (arr r) (out r)" using run False by simp
    have feeds: "feeds_at d n M r (own r) (map out (children d n r)) (arr r)"
      by (rule inner_run_feeds [OF i _ _ refl])
        (use assms(5) less.prems False rank_result [OF assms(1-6)] c in auto)
    obtain st q where a: "arrivals Q double_arith (cod_init metrics_zero, q0, []) (map snd (arr r)) = Inr (st, q, out r)"
        "int (length (arr r)) < int_max"
      using i by (auto simp: inner_run_def split: sum.splits)
    have sub: "subtree d n r = r # concat (map (subtree d n) (children d n r))"
      using subtree_unfold [OF d less.prems(1,2)] .
    show ?thesis
      using first_flags [OF assms(1-3) less.prems(1,2) feeds a(2,1) less.prems(3)]
    proof
      assume "\<exists>x \<in> set (children d n r). t < length (out x) \<and> quit (out r ! t) = quit (out x ! t) \<and>
        update_file (out r ! t) = update_file (out x ! t)"
      then obtain ch where ch: "ch \<in> set (children d n r)" "t < length (out ch)" "quit (out r ! t) = quit (out ch ! t)"
          "update_file (out r ! t) = update_file (out ch ! t)" by blast
      show ?thesis using less.hyps [OF c(3,1,2) [OF ch(1)] ch(2)] ch unfolding sub by auto
    qed (auto simp: sub)
  qed
qed

section \<open>The root process\<close>

text \<open>The aggregates that the communication thread of the root has handled, in order.\<close>

definition handled :: "root_action list \<Rightarrow> metrics list" where
  "handled tr = concat (map (\<lambda>a. case a of Handle e \<Rightarrow> [e] | _ \<Rightarrow> []) tr)"

lemma set_handled: "e \<in> set (handled tr) \<longleftrightarrow> Handle e \<in> set tr"
  by (force simp: handled_def split: root_action.splits)

lemma finalize_handled:
  assumes "root_start s0" "root_run np s0 tr s"
  shows "finalize_wait False 0 (rs_ag s) = None \<longleftrightarrow> (\<forall>e \<in> set (handled tr). \<not> last_aggregate e)"
  using root_run_finished [OF assms(2,1)] set_handled by (auto simp: finalize_wait_def)

section \<open>Properties\<close>

text \<open>
  C6. The end of the monitoring, with more than one process: if every rank has submitted its event of pulse \<open>T\<close>, the
  leaves' events of that pulse carry the \<open>quit\<close> flag, and so does the own event of every inner rank at which own events may be
  queued first, everything arrives in orders that keep up, and the root has
  handled what its tree submitted, then the wait of \<open>monitoring_finalize\<close> is over at the root,
  however the calls of the monitored program interleave. As for progress, it is required that at the last inner rank, when it is
  not the root and has fewer than \<open>d\<close> children, no own event is queued before the children's events of its pulse;
  EVPath does not promise that.
\<close>

theorem shutdown_completes:
  assumes "event_queue Q elems" "elems q0 = []" "valid_topo d n" "1 < n"
    and "\<forall>r \<in> {0 ..< n}. stream_ok d n M r (own r)" "tree_run Q double_arith q0 d n own arr out"
    and "all_arrived d n own arr out"
    and "\<forall>r \<in> {0 <..< n}. 0 < degree d n r \<and> int (degree d n r) < d \<longrightarrow> child_first (arr r)"
    and "\<forall>r \<in> {0 ..< n}. T < length (own r) \<and>
      (is_leaf d n r = Inr True \<or> \<not> child_first (arr r) \<longrightarrow> quit (own r ! T) \<noteq> 0)"
    and "root_start s0" "root_run np s0 tr s" "handled tr = out 0"
  shows "finalize_wait False 0 (rs_ag s) \<noteq> None"
proof -
  have dn: "0 < d" "(0::int) \<le> 0" "0 < n" using assms(3) by (simp_all add: valid_topo_def)
  have len: "T < length (out 0)"
    using rank_complete [OF assms(1-8) dn(2,3), of T] assms(9) subtree_root [OF dn(1,3)] by auto
  obtain x where x: "x \<in> set (subtree d n 0)" "is_leaf d n x = Inr True \<or> \<not> child_first (arr x)"
      "quit (out 0 ! T) = quit (own x ! T)"
    using flags_from_rank [OF assms(1-6) dn(2,3) len] by blast
  then have "quit (out 0 ! T) \<noteq> 0" using assms(9) subtree_root [OF dn(1,3)] by auto
  then have "last_aggregate (out 0 ! T)" by (simp add: last_aggregate_def)
  moreover have "out 0 ! T \<in> set (handled tr)" using len assms(12) by simp
  ultimately show ?thesis using finalize_handled [OF assms(10,11)] by blast
qed

text \<open>Three ranks, and both leaves quit in pulse 0.\<close>

definition quit_own :: "int \<Rightarrow> metrics list" where
  "quit_own r = [(sample_event 2 3 0 0 (if r = 0 then 7 else if r = 1 then 5 else 9))\<lparr>quit := 1\<rparr>]"

definition quit_arr :: "int \<Rightarrow> (nat \<times> metrics) list" where
  "quit_arr r = (if r = 0 then [(1, hd (quit_own 1)), (2, hd (quit_own 2)), (0, hd (quit_own 0))] else [])"

text \<open>
  Three ranks, but leaf 1 is told to finish one pulse earlier than leaf 2, and its last event arrives at the root
  after leaf 2's event of the same pulse; the own event of the root copies the flag of the event that completes the count.
\<close>

definition race_own :: "int \<Rightarrow> metrics list" where
  "race_own r =
     (if r = 0 then [(sample_event 2 3 0 0 7)\<lparr>quit := 1\<rparr>]
      else if r = 1 then [(sample_event 2 3 0 0 5)\<lparr>quit := 1\<rparr>]
      else [sample_event 2 3 0 0 9, (sample_event 2 3 0 1 9)\<lparr>quit := 1\<rparr>])"

definition race_arr :: "int \<Rightarrow> (nat \<times> metrics) list" where
  "race_arr r =
     (if r = 0 then [(2, hd (race_own 2)), (1, hd (race_own 1)), (0, hd (race_own 0)), (2, last (race_own 2))] else [])"

text \<open>What a root with two leaves submits.\<close>

definition two_leaves_out :: "(int \<Rightarrow> metrics list) \<Rightarrow> (int \<Rightarrow> (nat \<times> metrics) list) \<Rightarrow> int \<Rightarrow> metrics list" where
  "two_leaves_out own arr r = (if r = 0 then
     (case arrivals list_queue double_arith (cod_init metrics_zero, [], []) (map snd (arr 0)) of
        Inl e \<Rightarrow> [] | Inr (st, q, submitted) \<Rightarrow> submitted) else own r)"

text \<open>What both examples meet.\<close>

definition two_leaves_ok :: "(int \<Rightarrow> metrics list) \<Rightarrow> (int \<Rightarrow> (nat \<times> metrics) list) \<Rightarrow> bool" where
  "two_leaves_ok own arr \<longleftrightarrow>
     fifo 3 (arr 0) \<and> pulses_ok 3 (map snd (arr 0)) \<and> int (length (arr 0)) < int_max \<and> keeps_up 3 (arr 0) \<and>
     child_first (arr 0) \<and> of_sender 0 (arr 0) = own 0 \<and> of_sender 1 (arr 0) = own 1 \<and> of_sender 2 (arr 0) = own 2 \<and>
     (\<forall>x \<in> set (arr 0). fst x \<le> 2)"

lemma two_leaves:
  assumes "two_leaves_ok own arr"
  shows "tree_run list_queue double_arith [] 2 3 own arr (two_leaves_out own arr)"
    "all_arrived 2 3 own arr (two_leaves_out own arr)"
    "\<exists>st q. arrivals list_queue double_arith (cod_init metrics_zero, [], []) (map snd (arr 0)) =
       Inr (st, q, two_leaves_out own arr 0)"
proof -
  note a = assms [unfolded two_leaves_ok_def]
  have o: "two_leaves_out own arr 1 = own 1" "two_leaves_out own arr 2 = own 2" by (simp_all add: two_leaves_out_def)
  show r: "\<exists>st q. arrivals list_queue double_arith (cod_init metrics_zero, [], []) (map snd (arr 0)) =
      Inr (st, q, two_leaves_out own arr 0)"
    using run_inv [of 3 "arr 0" double_arith] a by (auto simp: two_leaves_out_def)
  have i: "inner_run list_queue double_arith [] (own 0) (map (two_leaves_out own arr) [1, 2]) (arr 0) (two_leaves_out own arr 0)"
    using r a by (auto simp: inner_run_def o less_Suc_eq numeral_2_eq_2)
  then show "tree_run list_queue double_arith [] 2 3 own arr (two_leaves_out own arr)"
    unfolding tree_run_def three_ranks
    using o is_leaf_eq [of 2 3 0] is_leaf_eq [of 2 3 1] is_leaf_eq [of 2 3 2]
    by (simp add: three_children valid_topo_def)
  show "all_arrived 2 3 own arr (two_leaves_out own arr)"
    unfolding all_arrived_def three_ranks
    using a o by (simp add: three_children degree_def less_Suc_eq numeral_3_eq_3 numeral_2_eq_2)
qed

lemmas examples_eval = quit_own_def quit_arr_def race_own_def race_arr_def

lemma quit_ok: "two_leaves_ok quit_own quit_arr"
  unfolding two_leaves_ok_def
  by (intro conjI; (simp add: examples_eval pulses_ok_eval; fail | simp add: examples_eval arrivals_eval; fail | code_simp))

lemma race_ok: "two_leaves_ok race_own race_arr"
  unfolding two_leaves_ok_def
  by (intro conjI; (simp add: examples_eval pulses_ok_eval; fail | simp add: examples_eval arrivals_eval; fail | code_simp))

lemmas stream_eval = stream_ok_def own_event_def sample_event_def get_parent_def c_int_def c_div_def
  signed_divide_int_def less_Suc_eq

lemma quit_streams: "\<forall>r \<in> {0 ..< 3}. stream_ok 2 3 (\<lambda>_. 1) r (quit_own r)"
  unfolding three_ranks by (simp add: examples_eval stream_eval)

lemma race_streams: "\<forall>r \<in> {0 ..< 3}. stream_ok 2 3 (\<lambda>_. 1) r (race_own r)"
  unfolding three_ranks by (simp add: examples_eval stream_eval)

lemma two_leaves_length:
  assumes "two_leaves_ok own arr"
  shows "t < length (two_leaves_out own arr 0) \<longleftrightarrow> t < length (own 0) \<and> t < length (own 1) \<and> t < length (own 2)"
proof -
  note a = assms [unfolded two_leaves_ok_def]
  obtain st q where r: "arrivals list_queue double_arith (cod_init metrics_zero, [], []) (map snd (arr 0)) =
      Inr (st, q, two_leaves_out own arr 0)" using two_leaves(3) [OF assms] by blast
  show ?thesis
    using node_complete [OF lq.event_queue_axioms refl _ _ _ _ _ r, of 3 t] a
    by (auto simp: less_Suc_eq numeral_3_eq_3 numeral_2_eq_2)
qed

lemma two_leaves_first:
  assumes "two_leaves_ok own arr" "pulse_events 0 (map snd (arr 0)) = e # es" "0 < length (two_leaves_out own arr 0)"
  shows "two_leaves_out own arr 0 ! 0 = pulse_result double_arith 0 (e # es)"
proof -
  note a = assms(1) [unfolded two_leaves_ok_def]
  obtain st q where r: "arrivals list_queue double_arith (cod_init metrics_zero, [], []) (map snd (arr 0)) =
      Inr (st, q, two_leaves_out own arr 0)" using two_leaves(3) [OF assms(1)] by blast
  show ?thesis
    using run_outputs(1) [OF lq.event_queue_axioms refl _ _ _ _ r assms(3), of 3] a assms(2) by simp
qed

lemma race_out: "\<exists>a. two_leaves_out race_own race_arr 0 = [a] \<and> quit a = 0 \<and> metrics_nr a = 1 \<and> length (gather_info a) = 1"
proof -
  let ?out = "two_leaves_out race_own race_arr 0"
  let ?es = "[sample_event 2 3 0 0 9, (sample_event 2 3 0 0 5)\<lparr>quit := 1\<rparr>, (sample_event 2 3 0 0 7)\<lparr>quit := 1\<rparr>]"
  have l: "t < length ?out \<longleftrightarrow> t < 1" for t
    unfolding two_leaves_length [OF race_ok] by (auto simp: race_own_def)
  then have "length ?out = 1" by (metis less_irrefl linorder_neqE_nat)
  then obtain a where a: "?out = [a]" by (auto simp: length_Suc_conv)
  have "pulse_events 0 (map snd (race_arr 0)) = ?es" by (simp add: examples_eval sample_event_def)
  from two_leaves_first [OF race_ok this] a have p: "a = pulse_result double_arith 0 ?es" by simp
  have "length (gather_info a) = 1" unfolding p by (rule pulse_result_length) (simp_all add: sample_event_def)
  then show ?thesis using a pulse_result_fixed [of double_arith 0 "hd ?es" "tl ?es"]
    unfolding p by (simp add: sample_event_def)
qed

lemma quit_out: "\<exists>a. two_leaves_out quit_own quit_arr 0 = [a] \<and> metrics_nr a = 1 \<and> length (gather_info a) = 1"
proof -
  let ?out = "two_leaves_out quit_own quit_arr 0"
  let ?es = "map (\<lambda>v. (sample_event 2 3 0 0 v)\<lparr>quit := 1\<rparr>) [5, 9, 7]"
  have l: "t < length ?out \<longleftrightarrow> t < 1" for t
    unfolding two_leaves_length [OF quit_ok] by (auto simp: quit_own_def)
  then have "length ?out = 1" by (metis less_irrefl linorder_neqE_nat)
  then obtain a where a: "?out = [a]" by (auto simp: length_Suc_conv)
  have "pulse_events 0 (map snd (quit_arr 0)) = ?es" by (simp add: examples_eval sample_event_def)
  with two_leaves_first [OF quit_ok] a have p: "a = pulse_result double_arith 0 ?es" by simp
  have "length (gather_info a) = 1" unfolding p by (rule pulse_result_length) (simp_all add: sample_event_def)
  then show ?thesis using a pulse_result_fixed [of double_arith 0 "hd ?es" "tl ?es"]
    unfolding p by (simp add: sample_event_def)
qed

text \<open>The root handles an aggregate with one metric.\<close>

lemma handles_one:
  assumes "metrics_nr a = 1" "length (gather_info a) = 1"
  shows "\<exists>s. root_run 3 sample_sys [Handle a] s" "handled [Handle a] = [a]" "root_start sample_sys"
proof -
  have "fill_results 3 a 0 [x] = Inr (map (final_metric 3) (gather_info a))" for x
    using fill_results_ok [of a "[x]" 0 3] assms by simp
  then have "\<exists>ag. final_result 3 a (rs_ag sample_sys, rs_pulse sample_sys) = Inr (ag, 1)"
    using assms by (simp add: sample_sys_def final_result_def Let_def calloc_results_def c_int_def)
  then obtain ag where "root_step 3 sample_sys (Handle a) (sample_sys\<lparr>rs_ag := ag, rs_pulse := 1\<rparr>)"
    using root_step.handle by blast
  then show "\<exists>s. root_run 3 sample_sys [Handle a] s"
    using root_run.step [OF root_run.start [of 3 sample_sys]] by force
  show "handled [Handle a] = [a]" by (simp add: handled_def)
  show "root_start sample_sys" by (simp add: root_start_def sample_sys_def sample_aggregator_def)
qed

theorem shutdown_completes_witness:
  "\<exists>tr s. root_run 3 sample_sys tr s \<and> handled tr = two_leaves_out quit_own quit_arr 0 \<and>
    finalize_wait False 0 (rs_ag s) \<noteq> None"
proof -
  obtain a where a: "two_leaves_out quit_own quit_arr 0 = [a]" "metrics_nr a = 1" "length (gather_info a) = 1"
    using quit_out by blast
  obtain s where s: "root_run 3 sample_sys [Handle a] s" using handles_one(1) [OF a(2,3)] by blast
  have "valid_topo 2 3" by (simp add: valid_topo_def)
  note f = shutdown_completes [OF lq.event_queue_axioms refl this _ quit_streams two_leaves(1,2) [OF quit_ok] three_full _
    handles_one(3) [OF a(2,3)] s, of 0]
  have "finalize_wait False 0 (rs_ag s) \<noteq> None"
    by (rule f) (simp_all add: quit_own_def a(1) handles_one(2) [OF a(2,3)])
  then show ?thesis using s a(1) handles_one(2) [OF a(2,3)] by auto
qed

text \<open>
  C27. The leaves do not agree on the pulse in which they finish, and the flag of a pulse is that of the event found first.
  In the run below, in which a child's event comes first in every pulse, both leaves submit their last event with the \<open>quit\<close> flag, in the pulses 0 and 1, everything arrives in
  orders that keep up, and the program submits all complete pulses; but the aggregate of pulse 0 carries the flag
  of leaf 2, pulse 1 never becomes complete, and however the root's threads interleave, once they have handled all
  that the tree submitted the wait of \<open>monitoring_finalize\<close> is not over, nor will it ever be.
\<close>

theorem quit_lost_in_race:
  assumes "root_start s0" "root_run np s0 tr s" "handled tr = two_leaves_out race_own race_arr 0"
  shows "tree_run list_queue double_arith [] 2 3 race_own race_arr (two_leaves_out race_own race_arr) \<and>
    all_arrived 2 3 race_own race_arr (two_leaves_out race_own race_arr) \<and> child_first (race_arr 0) \<and>
    (\<forall>r \<in> {0 ..< 3}. stream_ok 2 3 (\<lambda>_. 1) r (race_own r) \<and> quit (last (race_own r)) = 1) \<and>
    finalize_wait False 0 (rs_ag s) = None"
proof -
  obtain a where a: "two_leaves_out race_own race_arr 0 = [a]" "quit a = 0" "metrics_nr a = 1"
    using race_out by blast
  then have "finalize_wait False 0 (rs_ag s) = None"
    using finalize_handled [OF assms(1,2)] assms(3) by (simp add: last_aggregate_def)
  moreover have "\<forall>r \<in> {0 ..< 3}. quit (last (race_own r)) = 1" by (simp add: race_own_def)
  moreover have "child_first (race_arr 0)" using race_ok by (simp add: two_leaves_ok_def)
  ultimately show ?thesis using two_leaves(1,2) [OF race_ok] race_streams by blast
qed

theorem quit_lost_in_race_witness:
  "\<exists>tr s. root_run 3 sample_sys tr s \<and> handled tr = two_leaves_out race_own race_arr 0 \<and>
    finalize_wait False 0 (rs_ag s) = None"
proof -
  obtain a where a: "two_leaves_out race_own race_arr 0 = [a]" "metrics_nr a = 1" "length (gather_info a) = 1"
    using race_out by blast
  obtain s where s: "root_run 3 sample_sys [Handle a] s" using handles_one(1) [OF a(2,3)] by blast
  have h: "handled [Handle a] = two_leaves_out race_own race_arr 0" using a(1) handles_one(2) [OF a(2,3)] by simp
  show ?thesis using quit_lost_in_race [OF handles_one(3) [OF a(2,3)] s h] s h by blast
qed

end
