(* ===== verification/Cleanup.thy ===== *)
theory Cleanup
  imports Root_Results
begin

text \<open>
  The end of the aggregator after its aliases have been read again (metrics_crawler.c and
  \<open>destroy_metrics_aggregator\<close> in metrics_aggregator.c): which cells of the array of aliases the two loops that free
  them touch.
\<close>

section \<open>What reading the aliases keeps\<close>

lemma read_aliases_step:
  assumes "read_aliases number old tot t names i sync = Inr (names1, sync1)"
  shows "names1 = names \<or> (i < tot \<and> (\<exists>t2 line names2 sync2. arr_set names i line = Inr names2 \<and>
    read_aliases number old tot t2 names2 (i + 1) sync2 = Inr (names1, sync1)))"
  using assms unfolding read_aliases.simps [of number old tot t names i sync]
  by (cases "scan_s t") (auto simp only: conv.case bind_r_eq_Inr Inl_Inr_False split: if_split_asm)

lemma read_aliases_length:
  "read_aliases number old tot t names i sync = Inr (names1, sync1) \<Longrightarrow> length names1 = length names"
proof (induction "nat (tot - i)" arbitrary: t names i sync rule: less_induct)
  case less
  show ?case
  proof (cases "names1 = names")
    case False
    then obtain t2 line names2 sync2 where "i < tot" and s: "arr_set names i line = Inr names2"
        "read_aliases number old tot t2 names2 (i + 1) sync2 = Inr (names1, sync1)"
      using read_aliases_step [OF less.prems] by blast
    then have "length names1 = length names2" by (intro less.hyps) auto
    then show ?thesis using arr_set_Inr [OF s(1)] by simp
  qed simp
qed

lemma results_file_keeps:
  assumes "metrics_crawler_results_file pl ag result file cm = Inr (ag2, result1, sync, cm1)"
    and "desired_metrics ag = Some names"
  shows "old_nr_of_metrics ag2 = old_nr_of_metrics ag \<and> hash_ts ag2 = hash_ts ag \<and>
    (\<exists>names2. desired_metrics ag2 = Some names2 \<and> length names2 = length names)"
  using assms
  by (auto simp: metrics_crawler_results_file_def Let_def split: option.splits conv.splits dest: read_aliases_length)

lemma number_from_file_fields:
  assumes "initialize_metrics_crawler_number_from_file ag nr file = Inr (ag1, n)" "0 \<le> n"
  shows "old_nr_of_metrics ag1 = total_metrics ag" "desired_metrics ag1 = Some (replicate (nat n) None)"
  using assms
  by (auto simp: initialize_metrics_crawler_number_from_file_def free_desired_def split: option.splits)

section \<open>Properties\<close>

text \<open>
  C26. The loop of \<open>destroy_metrics_aggregator\<close> runs up to \<open>old_nr_of_metrics\<close>, the number of metrics before the
  aliases were last read, over an array with as many cells as there are metrics now: if the file became shorter it frees
  and overwrites cells beyond the array, and otherwise the destruction succeeds.
\<close>

theorem destroy_after_reread:
  assumes "initialize_metrics_crawler_number_from_file ag nr file = Inr (ag1, n)" "0 \<le> n"
    and "metrics_crawler_results_file pl ag1 result file1 cm = Inr (ag2, result1, sync, cm1)"
    and "wipe (hash_ts ag2) = Inr h"
  shows "destroy_metrics_aggregator wipe leaf rank ag2 =
    (if n < total_metrics ag then Inl OutOfBounds
     else Inr (ag2\<lparr>desired_metrics := None, monitoring_results := None, hash_ts := h\<rparr>,
       destroy_stones leaf rank (current_state ag2)))"
proof -
  note f = number_from_file_fields [OF assms(1,2)]
  obtain names where k: "old_nr_of_metrics ag2 = total_metrics ag" "desired_metrics ag2 = Some names"
      "int (length names) = n"
    using results_file_keeps [OF assms(3) f(2)] f(1) assms(2) by auto
  then show ?thesis using assms(4)
    by (auto simp: destroy_metrics_aggregator_def free_desired_def free_aliases_def)
qed

text \<open>Two aliases, of which one is left.\<close>

definition two_aliases :: "unit metrics_aggregator" where
  "two_aliases = crawled (sample_aggregator ()) [''rank'', ''PAPI_L1_DCM'']"

theorem destroy_after_reread_witness:
  "\<exists>s ag1 ag2 result1 sync cm1. knows_metrics uth_ops s \<and>
    initialize_metrics_crawler_number_from_file two_aliases None (Some (aliases_text [''rank''])) = Inr (ag1, 1) \<and>
    metrics_crawler_results_file (sample_platform s) ag1 [same_value 7] (Some (aliases_text [''rank''])) (None, ()) =
      Inr (ag2, result1, sync, cm1) \<and>
    destroy_metrics_aggregator Inr True 1 ag2 = Inl OutOfBounds"
proof -
  obtain s :: "htable uth" where s: "knows_metrics uth_ops s" using sample_store by blast
  have n: "initialize_metrics_crawler_number_from_file two_aliases None (Some (aliases_text [''rank''])) =
      Inr (counted two_aliases 1, 1)"
    using number_from_text [of two_aliases "[''rank'']" None] crawled_ok [of "sample_aggregator ()" "[''rank'', ''PAPI_L1_DCM'']"]
    by (simp add: two_aliases_def One_nat_def [symmetric] del: One_nat_def)
  obtain ag2 result1 sync cm1 where r: "metrics_crawler_results_file (sample_platform s) (counted two_aliases 1)
      [same_value 7] (Some (aliases_text [''rank''])) (None, ()) = Inr (ag2, result1, sync, cm1)"
    using results_from_text [of "[''rank'']" "sample_platform s" "[same_value 7]" two_aliases "(None, ())"] s
    by (auto simp: sample_env_ok)
  have "destroy_metrics_aggregator Inr True 1 ag2 = Inl OutOfBounds"
    using destroy_after_reread [OF n _ r, of Inr "()" True 1]
    by (simp add: two_aliases_def crawled_def counted_def)
  then show ?thesis using s n r by blast
qed

end
