(* ===== verification/Own_Count.thy ===== *)
theory Own_Count
  imports Own_Run Cleanup
begin

text \<open>
  The number of metrics in the events of an inner node (metrics_aggregator.c: \<open>compute_own_metrics\<close>): when the aliases
  file always lists the same number of metrics, and the first pulse announces an update, as it does from every leaf,
  every own event has that number, and its values are those of the callbacks in the environment of some event of the run,
  for the aliases of some reading. Its flags are those of the event that completed the pulse.
\<close>

lemma values_metrics:
  assumes "process_ok pl W (ag_max_degree ag)" "list_all alias_ok names" "int (length names) \<le> int_max"
    and "node_ok ag data cm"
    and "get_metrics_values pl W junk ag (Some (aliases_text names)) event c data cm = Inr (ag1, data1, cm1)"
  shows "total_metrics ag1 = (if update_file event \<noteq> 0 then int (length names) else total_metrics ag)"
    "int (length (gather_info data1)) = total_metrics ag1"
proof -
  have f: "file_ok (Some (aliases_text names))" using assms(2,3) by (auto simp: file_ok_def)
  have "node_ok ag1 data1 cm1" using get_metrics_values_ok [OF assms(1) f assms(4), of junk event c] assms(5) by auto
  then show "int (length (gather_info data1)) = total_metrics ag1" by (simp add: node_ok_def)
  show "total_metrics ag1 = (if update_file event \<noteq> 0 then int (length names) else total_metrics ag)"
  proof (cases "update_file event \<noteq> 0")
    case True
    have "desired_ok ag" using assms(4) by (simp add: node_ok_def)
    then have num: "initialize_metrics_crawler_number_from_file ag nr (Some (aliases_text names)) =
        Inr (counted ag (length names), int (length names))" for nr
      using number_from_text [of ag names nr] assms(3) by simp
    then obtain g sync where "metrics_crawler_results_file pl (counted ag (length names))
        (malloc_results junk (int (length names))) (Some (aliases_text names)) cm = Inr (ag1, g, sync, cm1)"
      using True assms(5) by (auto simp: get_metrics_values_def Let_def)
    then have "total_metrics ag1 = total_metrics (counted ag (length names))"
      by (auto simp: metrics_crawler_results_file_def Let_def)
    then show ?thesis using True by (simp add: counted_def)
  next
    case False
    then show ?thesis using assms(5) by (auto simp: get_metrics_values_def Let_def)
  qed
qed

text \<open>The values are those of one of the lists of aliases on one of the platforms.\<close>

definition measured_in :: "('s, 'p) platform set \<Rightarrow> string list set \<Rightarrow> aggregators list \<Rightarrow> bool" where
  "measured_in PS NS g \<longleftrightarrow> (\<exists>pl \<in> PS. \<exists>names \<in> NS. measured pl names g)"

definition desires :: "string list set \<Rightarrow> 'h metrics_aggregator \<Rightarrow> bool" where
  "desires NS ag \<longleftrightarrow> (\<exists>names \<in> NS. desired_metrics ag = Some (map Some names))"

lemma values_measured:
  assumes "process_ok pl W (ag_max_degree ag)" "list_all alias_ok names" "int (length names) \<le> int_max"
    and "node_ok ag data cm"
    and "get_metrics_values pl W junk ag (Some (aliases_text names)) event c data cm = Inr (ag1, data1, cm1)"
    and "names \<in> NS" "pl \<in> PS" "update_file event \<noteq> 0 \<or> desires NS ag"
  shows "desires NS ag1 \<and> measured_in PS NS (gather_info data1)"
proof -
  have pr: "knows_metrics (pl_hash pl) (pl_store pl)" "env_ok (pl_env pl)" using assms(1) by (auto simp: process_ok_def)
  show ?thesis
  proof (cases "update_file event \<noteq> 0")
    case True
    have "desired_ok ag" using assms(4) by (simp add: node_ok_def)
    then have num: "initialize_metrics_crawler_number_from_file ag nr (Some (aliases_text names)) =
        Inr (counted ag (length names), int (length names))" for nr
      using number_from_text [of ag names nr] assms(3) by simp
    obtain g p1 k sync where r: "metrics_crawler_results_file pl (counted ag (length names))
        (malloc_results junk (int (length names))) (Some (aliases_text names)) cm = Inr (crawled ag names, g, sync, p1)"
        "written (pl_env pl) (map Some names) 0 k (malloc_results junk (int (length names))) g" "k \<le> length names"
        "k < length names \<longrightarrow> callback_of (names ! k) = None \<and> papi_fails (pl_papi pl) (names ! k)"
      using results_from_text [OF assms(2,3) pr, of "malloc_results junk (int (length names))" ag cm]
      by (auto simp: malloc_results_def)
    then have "measured pl names g" by (blast intro: written_measured)
    moreover have "ag1 = crawled ag names" "gather_info data1 = g"
      using True num r(1) assms(5) by (auto simp: get_metrics_values_def Let_def)
    ultimately show ?thesis using assms(6,7) by (auto simp: desires_def measured_in_def crawled_def)
  next
    case False
    then obtain old where old: "old \<in> NS" "desired_metrics ag = Some (map Some old)" using assms(8) by (auto simp: desires_def)
    obtain cm2 g where m: "metrics_crawler_results_memory pl ag (gather_info data) cm = Inr (cm2, g)" "measured pl old g"
      using results_from_memory [OF assms(4) pr] old(2) by blast
    then have "ag1 = ag" "gather_info data1 = g" using False assms(5) by (auto simp: get_metrics_values_def Let_def)
    then show ?thesis using old m(2) assms(7) by (auto simp: desires_def measured_in_def)
  qed
qed

text \<open>
  Nothing has been read before the first pulse is complete; afterwards the number is \<open>m\<close>, and the own event holds
  measured values.
\<close>

definition measuring :: "('s, 'p) platform set \<Rightarrow> string list set \<Rightarrow> nat \<Rightarrow> 'h metrics_aggregator \<Rightarrow> own_state \<Rightarrow> bool" where
  "measuring PS NS m ag own \<longleftrightarrow> total_metrics ag = int m \<and> desires NS ag \<and> measured_in PS NS (gather_info (own_data own))"

text \<open>
  The flags of the events of a rank when all leaves finish in pulse \<open>N\<close>: \<open>quit\<close> exactly in that pulse, and an update
  in the first.
\<close>

definition flags_ok :: "nat \<Rightarrow> metrics list \<Rightarrow> bool" where
  "flags_ok N es \<longleftrightarrow> length es \<le> Suc N \<and> (\<forall>t < length es.
     quit (es ! t) = (if t = N then 1 else 0) \<and> (t = 0 \<longrightarrow> update_file (es ! t) \<noteq> 0))"

definition metrics_inv :: "('s, 'p) platform set \<Rightarrow> string list set \<Rightarrow> nat \<Rightarrow> nat \<Rightarrow> ('h, 'p) node \<Rightarrow> metrics list \<Rightarrow> bool" where
  "metrics_inv PS NS m N nd out \<longleftrightarrow> (case nd of (ag, own, cm) \<Rightarrow>
     (if out = [] then first_pulse own
      else measuring PS NS m ag own \<and> (quit (own_data own) = 0 \<or> length out = Suc N)) \<and>
     (\<forall>e \<in> set out. length (gather_info e) = m \<and> measured_in PS NS (gather_info e)) \<and> flags_ok N out)"

lemma measuring_hash [simp]: "measuring PS NS m (ag\<lparr>hash_ts := h\<rparr>) own = measuring PS NS m ag own"
  "measuring PS NS m ag (own\<lparr>initialized := b\<rparr>) = measuring PS NS m ag own"
  by (simp_all add: measuring_def desires_def)

text \<open>What the environment gives the handler: a file with \<open>m\<close> aliases, the update flag in pulse 0 and \<open>quit\<close> in pulse \<open>N\<close>.\<close>

definition steady :: "string list set \<Rightarrow> nat \<Rightarrow> nat \<Rightarrow> metrics \<Rightarrow> string option \<Rightarrow> bool" where
  "steady NS m N e file \<longleftrightarrow> (timestamp e = 0 \<longrightarrow> update_file e \<noteq> 0) \<and>
     timestamp e \<le> int N \<and> quit e = (if timestamp e = int N then 1 else 0) \<and>
     (\<exists>names \<in> NS. file = Some (aliases_text names) \<and> list_all alias_ok names \<and> int (length names) \<le> int_max \<and> length names = m)"

text \<open>The event that completes a pulse belongs to it.\<close>

lemma own_inv_completed:
  assumes "own_inv k d W es nd out p" "own_inv k d W (es @ [e]) nd1 (out @ [sub]) p1"
  shows "timestamp e = int p"
proof -
  have "length out = p" "length (pulse_events (int p) es) < k" "p1 = Suc p" "\<forall>t < p1. length (pulse_events (int t) (es @ [e])) = k"
    using assms by (auto simp: own_inv_def)
  then have "length (pulse_events (int p) (es @ [e])) \<noteq> length (pulse_events (int p) es)" by auto
  then show ?thesis by (auto split: if_splits)
qed

lemma metrics_submit:
  assumes "own_submit pl W junk (Some (aliases_text names)) e (ag, own, cm) = Inr ((ag1, own1, cm1), sub)"
    and "process_ok pl W (ag_max_degree ag)" "list_all alias_ok names" "int (length names) \<le> int_max" "node_ok ag (own_data own) cm"
    and "names \<in> NS" "pl \<in> PS"
    and "first_pulse own \<and> update_file e \<noteq> 0 \<or> measuring PS NS (length names) ag own"
  shows "measuring PS NS (length names) ag1 own1" "length (gather_info sub) = length names"
    "measured_in PS NS (gather_info sub)" "node_ok ag1 (own_data own1) cm1" "ag_max_degree ag1 = ag_max_degree ag"
    "quit sub = (if first_pulse own \<or> update_file e \<noteq> 0 \<or> quit e \<noteq> 0 then quit e else quit (own_data own))"
    "first_pulse own \<Longrightarrow> update_file sub = update_file e" "own_data own1 = sub"
proof -
  have f: "file_ok (Some (aliases_text names))" using assms(3,4) by (auto simp: file_ok_def)
  have "measuring PS NS (length names) ag1 own1 \<and> node_ok ag1 (own_data own1) cm1 \<and> ag_max_degree ag1 = ag_max_degree ag \<and>
      own_data own1 = sub \<and>
      quit sub = (if first_pulse own \<or> update_file e \<noteq> 0 \<or> quit e \<noteq> 0 then quit e else quit (own_data own)) \<and>
      (first_pulse own \<longrightarrow> update_file sub = update_file e)"
  proof (cases "first_pulse own \<or> update_file e \<noteq> 0 \<or> quit e \<noteq> 0")
    case True
    then obtain data1 where v: "get_metrics_values pl W junk ag (Some (aliases_text names)) e (counter own) (own_data own) cm
        = Inr (ag1, data1, cm1)" "own_data own1 = data1" "sub = data1"
      using assms(1) by (auto simp: own_submit_def)
    have u: "update_file e \<noteq> 0 \<or> desires NS ag" using assms(8) by (auto simp: measuring_def)
    have "node_ok ag1 data1 cm1 \<and> ag_max_degree ag1 = ag_max_degree ag \<and> quit data1 = quit e \<and> update_file data1 = update_file e"
      using get_metrics_values_ok [OF assms(2) f assms(5), of junk e "counter own"] v(1) by auto
    moreover have "total_metrics ag1 = int (length names)"
      using values_metrics(1) [OF assms(2-5) v(1)] assms(8) by (auto simp: measuring_def)
    ultimately show ?thesis using values_measured [OF assms(2-5) v(1) assms(6,7) u] v(2,3) True by (simp add: measuring_def)
  next
    case False
    then have "ag1 = ag" "own_data own1 = own_data own" "sub = own_data own" "cm1 = cm" using assms(1) by (auto simp: own_submit_def)
    then show ?thesis using False assms(5,8) by (auto simp: measuring_def)
  qed
  moreover from this have "length (gather_info (own_data own1)) = length names" by (auto simp: measuring_def node_ok_def)
  ultimately show "measuring PS NS (length names) ag1 own1" "length (gather_info sub) = length names"
    "measured_in PS NS (gather_info sub)" "node_ok ag1 (own_data own1) cm1" "ag_max_degree ag1 = ag_max_degree ag"
    "quit sub = (if first_pulse own \<or> update_file e \<noteq> 0 \<or> quit e \<noteq> 0 then quit e else quit (own_data own))"
    "first_pulse own \<Longrightarrow> update_file sub = update_file e" "own_data own1 = sub"
    by (auto simp: measuring_def)
qed

lemma metrics_next:
  assumes "own_next pl W junk (Some (aliases_text names)) e (ag, own, cm) = Inr (ag1, own1, cm1)"
    and "process_ok pl W (ag_max_degree ag)" "list_all alias_ok names" "int (length names) \<le> int_max" "node_ok ag (own_data own) cm"
    and "names \<in> NS" "pl \<in> PS" "measuring PS NS (length names) ag own"
  shows "measuring PS NS (length names) ag1 own1" "quit (own_data own1) = quit e"
proof -
  obtain data1 where v: "get_metrics_values pl W junk ag (Some (aliases_text names)) e (counter own) (own_data own) cm
      = Inr (ag1, data1, cm1)" "own_data own1 = data1"
    using assms(1) by (auto simp: own_next_def)
  have f: "file_ok (Some (aliases_text names))" using assms(3,4) by (auto simp: file_ok_def)
  show "quit (own_data own1) = quit e"
    using get_metrics_values_ok [OF assms(2) f assms(5), of junk e "counter own"] v by auto
  have "update_file e \<noteq> 0 \<or> desires NS ag" using assms(8) by (simp add: measuring_def)
  then show "measuring PS NS (length names) ag1 own1"
    using values_measured [OF assms(2-5) v(1) assms(6,7)] values_metrics(1) [OF assms(2-5) v(1)] assms(8) v(2)
    by (simp add: measuring_def)
qed

lemma own_metrics_cases:
  assumes "compute_own_metrics pl T W beyond junk fl e (ag, own, cm) = Inr (nd1, o1)"
  obtains (partial) h where "nd1 = (ag\<lparr>hash_ts := h\<rparr>, own\<lparr>initialized := True\<rparr>, cm)" "o1 = []"
  | (full) h ag1 own1 cm1 sub h1 where
      "own_submit pl W junk fl e (ag\<lparr>hash_ts := h\<rparr>, own\<lparr>initialized := True\<rparr>, cm) = Inr ((ag1, own1, cm1), sub)" "o1 = [sub]"
      "quit e \<noteq> 0 \<and> nd1 = (ag1\<lparr>hash_ts := h1\<rparr>, own1, cm1) \<or>
       quit e = 0 \<and> own_next pl W junk fl e (ag1\<lparr>hash_ts := h1\<rparr>, own1, cm1) = Inr nd1"
proof -
  let ?own = "own\<lparr>initialized := True\<rparr>"
  obtain h found deg where c: "count_event T beyond (counter own) e (hash_ts ag) = Inr (h, found)"
      "get_degree_node (ag_max_degree ag) (comm_size W) (comm_rank W) = Inr deg"
    using assms by (auto simp: compute_own_metrics_def Let_def)
  show thesis
  proof (cases "ht_count (h_get T h found) = word_of_int deg")
    case False
    then have "nd1 = (ag\<lparr>hash_ts := h\<rparr>, ?own, cm)" "o1 = []" using assms c by (auto simp: compute_own_metrics_def Let_def)
    then show thesis by (rule partial)
  next
    case True
    then obtain ag1 own1 cm1 sub h1 where
        s: "own_submit pl W junk fl e (ag\<lparr>hash_ts := h\<rparr>, ?own, cm) = Inr ((ag1, own1, cm1), sub)"
        "(if quit e \<noteq> 0 then Inr ((ag1\<lparr>hash_ts := h1\<rparr>, own1, cm1), [sub])
          else bind_r (own_next pl W junk fl e (ag1\<lparr>hash_ts := h1\<rparr>, own1, cm1)) (\<lambda>nd2. Inr (nd2, [sub]))) = Inr (nd1, o1)"
      using assms c by (auto simp: compute_own_metrics_def Let_def)
    then show thesis using full [OF s(1), of h1] by (cases "quit e = 0") auto
  qed
qed

lemma flags_snoc:
  assumes "flags_ok N es" "length es \<le> N" "quit e = (if length es = N then 1 else 0)" "es = [] \<Longrightarrow> update_file e \<noteq> 0"
  shows "flags_ok N (es @ [e])"
  using assms by (auto simp: flags_ok_def nth_append less_Suc_eq)

lemma metrics_step:
  assumes "own_inv k d W es nd out p" "own_inv k d W (es @ [e]) nd1 (out @ o1) p1"
    and "compute_own_metrics pl T W beyond junk fl e nd = Inr (nd1, o1)"
    and "steady NS m N e fl" "process_ok pl W d" "pl \<in> PS" "metrics_inv PS NS m N nd out"
  shows "metrics_inv PS NS m N nd1 (out @ o1)"
proof -
  obtain ag own cm where nd: "nd = (ag, own, cm)" by (cases nd)
  obtain names where fl: "fl = Some (aliases_text names)" "list_all alias_ok names" "int (length names) \<le> int_max"
      "names \<in> NS" "length names = m"
    using assms(4) by (auto simp: steady_def)
  have I: "ag_max_degree ag = d" "node_ok ag (own_data own) cm" "length out = p"
    using assms(1) by (auto simp: own_inv_def nd)
  have J: "out = [] \<Longrightarrow> first_pulse own"
      "out \<noteq> [] \<Longrightarrow> measuring PS NS m ag own \<and> (quit (own_data own) = 0 \<or> length out = Suc N)"
      "\<forall>e \<in> set out. length (gather_info e) = m \<and> measured_in PS NS (gather_info e)" "flags_ok N out"
    using assms(7) by (auto simp: metrics_inv_def nd split: if_splits)
  let ?own = "own\<lparr>initialized := True\<rparr>"
  show ?thesis
    using assms(3) unfolding nd
  proof (cases rule: own_metrics_cases)
    case partial
    then show ?thesis using J by (simp add: metrics_inv_def)
  next
    case (full h ag1 own1 cm1 sub h1)
    let ?ag = "ag\<lparr>hash_ts := h\<rparr>"
    have pr: "process_ok pl W (ag_max_degree ?ag)" using assms(5) I(1) by simp
    have nk: "node_ok ?ag (own_data ?own) cm" using I(2) by (simp add: node_ok_hash)
    have ts: "timestamp e = int p" using own_inv_completed assms(1,2) full(2) by blast
    have S: "p = 0 \<Longrightarrow> update_file e \<noteq> 0" "p \<le> N" "quit e = (if p = N then 1 else 0)"
      using assms(4) ts by (auto simp: steady_def)
    have "first_pulse ?own \<and> update_file e \<noteq> 0 \<or> measuring PS NS (length names) ?ag ?own"
      using J(1,2) I(3) S(1) fl(5) by (cases "out = []") auto
    note s = metrics_submit [OF full(1) [unfolded fl(1)] pr fl(2,3) nk fl(4) assms(6) this]
    have q: "quit sub = quit e" using s(6) J(1,2) I(3) S(2) by (cases "out = []") auto
    have fo: "flags_ok N (out @ [sub])"
      by (rule flags_snoc [OF J(4)]) (use I(3) S q s(7) J(1) in auto)
    have pr1: "process_ok pl W (ag_max_degree (ag1\<lparr>hash_ts := h1\<rparr>))" using assms(5) I(1) s(5) by simp
    have nk1: "node_ok (ag1\<lparr>hash_ts := h1\<rparr>) (own_data own1) cm1" using s(4) by (simp add: node_ok_hash)
    have m1: "measuring PS NS (length names) (ag1\<lparr>hash_ts := h1\<rparr>) own1" using s(1) by simp
    have "measuring PS NS m (fst nd1) (fst (snd nd1)) \<and> (quit (own_data (fst (snd nd1))) = 0 \<or> p = N)"
    proof (cases "quit e = 0")
      case True
      then have "own_next pl W junk fl e (ag1\<lparr>hash_ts := h1\<rparr>, own1, cm1) = Inr (fst nd1, fst (snd nd1), snd (snd nd1))"
        using full(3) by simp
      from metrics_next [OF this [unfolded fl(1)] pr1 fl(2,3) nk1 fl(4) assms(6) m1] True fl(5) show ?thesis by simp
    next
      case False
      then show ?thesis using full(3) m1 S(3) fl(5) by (auto split: if_splits)
    qed
    then show ?thesis using J(3) s(2,3) full(2) fl(5) fo I(3) by (cases nd1) (auto simp: metrics_inv_def)
  qed
qed

text \<open>The handler over all arrivals, with its number of metrics and its flags.\<close>

lemma own_run_steady:
  assumes "fresh_node d nd" "\<forall>i. process_ok (pl i) W d"
    and "get_degree_node d (comm_size W) (comm_rank W) = Inr (int k)" "1 \<le> k" "int k \<le> int_max"
    and "fifo k arr" "quit_last (map snd arr)" "ahead k 9 arr" "int (length arr) < int_max"
    and "\<forall>(e, file) \<in> set (zip (map snd arr) files). steady NS m N e file" "length files = length arr"
  shows "\<exists>nd1 out. own_run pl uth_ops W [0, 0, 0, 0] junk (nd, []) (zip (map snd arr) files) = Inr (nd1, out) \<and> flags_ok N out \<and>
    (\<forall>t < length out. own_event W d (int t) (out ! t) \<and> length (gather_info (out ! t)) = m \<and>
      measured_in (range pl) NS (gather_info (out ! t))) \<and>
    (\<forall>t. t < length out \<longleftrightarrow> length (pulse_events (int t) (map snd arr)) = k)"
proof -
  have files: "\<forall>f \<in> set files. file_ok f"
  proof
    fix f assume "f \<in> set files"
    then obtain i where "i < length files" "f = files ! i" by (auto simp: in_set_conv_nth)
    then have "(map snd arr ! i, f) \<in> set (zip (map snd arr) files)" using assms(11) by (force simp: set_zip)
    then show "file_ok f" using assms(10) by (fastforce simp: steady_def file_ok_def)
  qed
  let ?PS = "range pl"
  have env: "pl i \<in> ?PS" for i by simp
  have "metrics_inv ?PS NS m N nd []" using assms(1) by (auto simp: fresh_node_def metrics_inv_def own_start_def flags_ok_def)
  then have "\<exists>nd1 out p m' n'. own_run pl uth_ops W [0, 0, 0, 0] junk (nd, []) (zip (map snd arr) files) = Inr (nd1, out) \<and>
    own_inv k d W (map snd arr) nd1 out p \<and> uth.holds (hash_ts (fst nd1)) m' n' \<and> counts_ok (int p) (map snd arr) m' \<and>
    metrics_inv ?PS NS m N nd1 out"
    using assms(10) metrics_step [OF _ _ _ _ spec [OF assms(2)] env]
    by (intro ts.own_run_inv_with [OF fresh_node_inv [OF assms(1,4)] assms(6-9,5,2) files assms(11,3),
        of "metrics_inv ?PS NS m N" "steady NS m N" junk])
  then obtain nd1 out p where r: "own_run pl uth_ops W [0, 0, 0, 0] junk (nd, []) (zip (map snd arr) files) = Inr (nd1, out)"
      "own_inv k d W (map snd arr) nd1 out p" "metrics_inv ?PS NS m N nd1 out"
    by blast
  have o: "length out = p" "\<forall>t < p. own_event W d (int t) (out ! t)"
      "\<forall>t < p. length (pulse_events (int t) (map snd arr)) = k" "length (pulse_events (int p) (map snd arr)) < k"
    using r(2) by (auto simp: own_inv_def)
  have "length (gather_info (out ! t)) = m \<and> measured_in ?PS NS (gather_info (out ! t))" if "t < p" for t
    using r(3) that o(1) by (auto simp: metrics_inv_def)
  moreover have "t < p" if "length (pulse_events (int t) (map snd arr)) = k" for t
    using fifo_earlier [OF assms(6) that, of p] o(4) by linarith
  moreover have "flags_ok N out" using r(3) by (auto simp: metrics_inv_def)
  ultimately show ?thesis using r(1) o(1-3) by blast
qed

end
