(* ===== verification/System.thy ===== *)
theory System
  imports Own_Count Leaf_Run Shutdown
begin

text \<open>
  The whole program (evp_monitoring.c, metrics_aggregator.c, cod.h) after its start-up: the leaf threads
  (\<open>start_communication\<close>), the terminal handlers of the inner ranks (\<open>compute_own_metrics\<close>), the COD program of their
  multi stones and the root's \<open>final_result\<close>, joined by the bridges and split stones of \<open>Wiring\<close>. What the
  network decides is a history: the order in which the children's events reach the split stone of a rank, and in which
  their copies and the own events reach its multi stone. Everything else is computed from it by the code's functions.
  What the code relies on beyond that (zero bytes behind the handler's \<open>counter\<close>, no child 9 pulses ahead of another, a number of
  aliases that never changes, leaves that finish in the same pulse) is a hypothesis of the theorems.
\<close>

section \<open>The ranks and their histories\<close>

text \<open>
  What a rank is started with and sees: the state of the process, the contents of fresh memory and of the four bytes behind
  the handler's \<open>counter\<close>, the platform and the
  aliases file as they are at every pulse of a leaf and at every event of a handler, and the pulse in which a leaf sees
  \<open>leafs_finished\<close>.
\<close>

record ('s, 'p) ranks =
  rk_platform :: "int \<Rightarrow> nat \<Rightarrow> ('s, 'p) platform"
  rk_node :: "int \<Rightarrow> (h_timestamp uth, 'p) node"
  rk_junk :: "int \<Rightarrow> nat \<Rightarrow> aggregators"
  rk_beyond :: "int \<Rightarrow> byte list"
  rk_raw :: "int \<Rightarrow> metrics"
  rk_names :: "int \<Rightarrow> nat \<Rightarrow> string list"
  rk_finished :: "int \<Rightarrow> nat \<Rightarrow> bool"
  rk_fuel :: nat

text \<open>Children are numbered from 0 at the split stone; at the multi stone sender 0 is the rank's own handler.\<close>

record history =
  hs_split :: "int \<Rightarrow> (nat \<times> metrics) list"
  hs_multi :: "int \<Rightarrow> (nat \<times> metrics) list"

definition rk_file :: "('s, 'p) ranks \<Rightarrow> int \<Rightarrow> nat \<Rightarrow> string option" where
  "rk_file E r i = Some (aliases_text (rk_names E r i))"

definition leaf_out :: "('s, 'p) ranks \<Rightarrow> int \<Rightarrow> int \<Rightarrow> metrics list option" where
  "leaf_out E n r =
     (case start_communication (rk_platform E r) \<lparr>comm_rank = r, comm_size = n\<rparr> (rk_junk E r) (rk_file E r)
         (rk_finished E r) (rk_raw E r) (rk_fuel E) (fst (rk_node E r)) (snd (snd (rk_node E r))) of
        Some (Inr (st, evs)) \<Rightarrow> Some evs | _ \<Rightarrow> None)"

definition handler_out :: "('s, 'p) ranks \<Rightarrow> int \<Rightarrow> history \<Rightarrow> int \<Rightarrow> metrics list option" where
  "handler_out E n H r =
     (case own_run (rk_platform E r) uth_ops \<lparr>comm_rank = r, comm_size = n\<rparr> (rk_beyond E r) (rk_junk E r) (rk_node E r, [])
         (zip (map snd (hs_split H r)) (map (rk_file E r) [0 ..< length (hs_split H r)])) of
        Inr (nd, evs) \<Rightarrow> Some evs | Inl e \<Rightarrow> None)"

definition multi_out :: "('q, metrics) ev_ops \<Rightarrow> 'q \<Rightarrow> history \<Rightarrow> int \<Rightarrow> metrics list option" where
  "multi_out Q q0 H r =
     (case arrivals Q double_arith (cod_init metrics_zero, q0, []) (map snd (hs_multi H r)) of
        Inr (st, q, evs) \<Rightarrow> Some evs | Inl e \<Rightarrow> None)"

text \<open>What a rank measures itself, and what it submits to its parent (None: it fails, or does not end).\<close>

definition rank_own :: "('s, 'p) ranks \<Rightarrow> int \<Rightarrow> int \<Rightarrow> history \<Rightarrow> int \<Rightarrow> metrics list option" where
  "rank_own E d n H r = (if is_leaf d n r = Inr True then leaf_out E n r else handler_out E n H r)"

definition rank_out :: "('s, 'p) ranks \<Rightarrow> ('q, metrics) ev_ops \<Rightarrow> 'q \<Rightarrow> int \<Rightarrow> int \<Rightarrow> history \<Rightarrow> int \<Rightarrow> metrics list option" where
  "rank_out E Q q0 d n H r = (if is_leaf d n r = Inr True then leaf_out E n r else multi_out Q q0 H r)"

definition submitted :: "metrics list option \<Rightarrow> metrics list" where
  "submitted x = (case x of None \<Rightarrow> [] | Some evs \<Rightarrow> evs)"

lemma submitted_simps [simp]: "submitted None = []" "submitted (Some evs) = evs"
  by (simp_all add: submitted_def)

text \<open>The copies of the children's events at a multi stone.\<close>

definition child_copies :: "(nat \<times> metrics) list \<Rightarrow> (nat \<times> metrics) list" where
  "child_copies arr = map (\<lambda>x. (fst x - 1, snd x)) (filter (\<lambda>x. fst x \<noteq> 0) arr)"

text \<open>
  The network: a bridge delivers what the child submits, in order; the split stone copies what it gets to the multi stone,
  in order; what the handler submits gets there in order. How the copies and the own events interleave is left open.
\<close>

definition delivered :: "('s, 'p) ranks \<Rightarrow> ('q, metrics) ev_ops \<Rightarrow> 'q \<Rightarrow> int \<Rightarrow> int \<Rightarrow> history \<Rightarrow> bool" where
  "delivered E Q q0 d n H \<longleftrightarrow> (\<forall>r \<in> {0 ..< n}. is_leaf d n r = Inr False \<longrightarrow>
     (\<forall>x \<in> set (hs_split H r). fst x < degree d n r) \<and>
     (\<forall>i < degree d n r. prefix (of_sender i (hs_split H r)) (submitted (rank_out E Q q0 d n H (children d n r ! i)))) \<and>
     prefix (child_copies (hs_multi H r)) (hs_split H r) \<and>
     prefix (of_sender 0 (hs_multi H r)) (submitted (rank_own E d n H r)) \<and>
     int (length (hs_split H r)) < int_max \<and> int (length (hs_multi H r)) < int_max)"

text \<open>
  The ranks after a good start: the file always lists \<open>m\<close> aliases, and all leaves see \<open>leafs_finished\<close> in pulse \<open>N\<close>.
\<close>

definition system_ok :: "('s, 'p) ranks \<Rightarrow> int \<Rightarrow> int \<Rightarrow> nat \<Rightarrow> nat \<Rightarrow> bool" where
  "system_ok E d n m N \<longleftrightarrow> valid_topo d n \<and> 1 < n \<and> 0 < m \<and> int N < int_max \<and> N + 2 \<le> rk_fuel E \<and>
     (\<forall>r \<in> {0 ..< n}. fresh_node d (rk_node E r) \<and>
       (\<forall>i. process_ok (rk_platform E r i) \<lparr>comm_rank = r, comm_size = n\<rparr> d \<and> names_ok (rk_names E r i) \<and> length (rk_names E r i) = m) \<and>
       rk_finished E r N \<and> (\<forall>i < N. \<not> rk_finished E r i))"

lemma system_okD:
  assumes "system_ok E d n m N" "0 \<le> r" "r < n"
  shows "\<forall>i. process_ok (rk_platform E r i) \<lparr>comm_rank = r, comm_size = n\<rparr> d" "fresh_node d (rk_node E r)"
    "names_ok (rk_names E r i)" "length (rk_names E r i) = m" "rk_finished E r N" "\<forall>i < N. \<not> rk_finished E r i"
    "valid_topo d n" "1 < n" "0 < m" "int N < int_max" "N + 2 \<le> rk_fuel E"
  using assms by (simp_all add: system_ok_def)

section \<open>A leaf\<close>

lemma leaf_rank:
  assumes "system_ok E d n m N" "0 \<le> r" "r < n" "children d n r = []"
  shows "\<exists>evs. leaf_out E n r = Some evs \<and> length evs = Suc N \<and> stream_ok d n (\<lambda>_. m) r evs \<and> flags_ok N evs \<and>
    (\<forall>t \<le> N. measured (rk_platform E r t) (rk_names E r t) (gather_info (evs ! t)))"
proof -
  note s = system_okD [OF assms(1-3)]
  let ?W = "\<lparr>comm_rank = r, comm_size = n\<rparr>"
  obtain ag own cm where nd: "rk_node E r = (ag, own, cm)" by (cases "rk_node E r")
  have ag: "desired_ok ag" "total_metrics ag = 0" "ag_max_degree ag = d"
    using s(2) by (auto simp: fresh_node_def nd desired_ok_def)
  obtain st where st: "leaf_init ?W (rk_raw E r) ag cm = Inr st" "leaf_ok ?W d (rk_names E r) 0 st"
      "quit (fst (snd (snd st))) = 0"
    using leaf_init_ok [of "rk_platform E r 0" ?W ag "rk_raw E r" cm "rk_names E r"] s(1) ag by auto
  have n: "\<forall>i. names_ok (rk_names E r i)" using s(3) by blast
  obtain st1 evs where l: "pulse_loop (\<lambda>i. leaf_pulse (rk_platform E r i) (rk_junk E r) (rk_file E r i) (rk_finished E r i))
        (rk_fuel E) 0 st = Some (Inr (st1, evs))" "length evs = Suc N"
      "\<forall>i \<le> N. leaf_event ?W d (rk_names E r) i (evs ! i) \<and> quit (evs ! i) = (if i = N then 1 else 0) \<and>
        measured (rk_platform E r i) (rk_names E r i) (gather_info (evs ! i))"
    using leaf_loop_ok [OF s(1) n s(5,6,10,11) st(2,3), of "rk_junk E r"] unfolding rk_file_def by blast
  have c: "changed (rk_names E r) i \<longleftrightarrow> i = 0" for i
    using s(4) [of i] s(4) [of "i - 1"] s(9) by (auto simp: changed_def)
  have "leaf_out E n r = Some evs" using l(1) st(1) by (simp add: leaf_out_def start_communication_def nd)
  moreover have "stream_ok d n (\<lambda>_. m) r evs"
    using l(2,3) s(4) by (auto simp: stream_ok_def own_event_def leaf_event_def less_Suc_eq_le)
  moreover have "flags_ok N evs" using l(2,3) c [of 0] by (auto simp: flags_ok_def leaf_event_def less_Suc_eq_le)
  moreover have "\<forall>t \<le> N. measured (rk_platform E r t) (rk_names E r t) (gather_info (evs ! t))" using l(3) by simp
  ultimately show ?thesis using l(2) by (intro exI [of _ evs]) simp
qed

section \<open>An inner rank\<close>

lemma of_sender_prefix: "prefix xs ys \<Longrightarrow> prefix (of_sender s xs) (of_sender s ys)"
  by (auto simp: prefix_def of_sender_def)

lemma of_sender_copies: "of_sender s (child_copies arr) = of_sender (Suc s) arr"
proof -
  have "filter (\<lambda>x. fst x = s) (map (\<lambda>x. (fst x - 1, snd x)) (filter (\<lambda>x. fst x \<noteq> 0) arr)) =
      map (\<lambda>x. (fst x - 1, snd x)) (filter (\<lambda>x. fst x = Suc s) arr)"
    by (induction arr) auto
  then show ?thesis by (simp add: of_sender_def child_copies_def)
qed

lemma prefix_stamps:
  assumes "stream_at d n M c xs" "prefix es xs"
  shows "map timestamp es = map int [0 ..< length es]"
proof (rule nth_equalityI)
  fix i assume "i < length (map timestamp es)"
  then show "map timestamp es ! i = map int [0 ..< length es] ! i"
    using prefix_nth [OF assms(2), of i] stream_atD(1) [OF assms(1), of i] by simp
qed simp

text \<open>The events at the split stone of a rank whose children submit the streams \<open>f c\<close>.\<close>

definition split_ok :: "int \<Rightarrow> int \<Rightarrow> int \<Rightarrow> nat \<Rightarrow> nat \<Rightarrow> (int \<Rightarrow> metrics list) \<Rightarrow> (nat \<times> metrics) list \<Rightarrow> bool" where
  "split_ok d n r m N f arr \<longleftrightarrow>
     (\<forall>c \<in> set (children d n r). stream_at d n (\<lambda>_. m) c (f c) \<and> flags_ok N (f c)) \<and>
     (\<forall>x \<in> set arr. fst x < degree d n r) \<and>
     (\<forall>i < degree d n r. prefix (of_sender i arr) (f (children d n r ! i)))"

lemma split_child:
  assumes "split_ok d n r m N f arr" "i < degree d n r"
  shows "stream_at d n (\<lambda>_. m) (children d n r ! i) (f (children d n r ! i))" "flags_ok N (f (children d n r ! i))"
    "prefix (of_sender i arr) (f (children d n r ! i))"
  using assms by (auto simp: split_ok_def degree_def)

lemma split_fifo:
  assumes "split_ok d n r m N f arr"
  shows "fifo (degree d n r) arr"
  using prefix_stamps [OF split_child(1,3) [OF assms]] assms by (auto simp: fifo_def split_ok_def)

lemma split_event:
  assumes "split_ok d n r m N f arr" "(s, e) \<in> set arr"
  shows "\<exists>t < Suc N. timestamp e = int t \<and> quit e = (if t = N then 1 else 0) \<and> (t = 0 \<longrightarrow> update_file e \<noteq> 0)"
proof -
  have s: "s < degree d n r" using assms by (auto simp: split_ok_def)
  have "e \<in> set (of_sender s arr)" using assms(2) by (force simp: of_sender_def)
  then obtain t where "t < length (of_sender s arr)" "e = of_sender s arr ! t" by (auto simp: in_set_conv_nth)
  then have t: "t < length (f (children d n r ! s))" "e = f (children d n r ! s) ! t"
    using prefix_nth [OF split_child(3) [OF assms(1) s]] by simp_all
  show ?thesis using stream_atD(1) [OF split_child(1) [OF assms(1) s] t(1)] split_child(2) [OF assms(1) s] t
    by (intro exI [of _ t]) (auto simp: flags_ok_def)
qed

lemma split_quit:
  assumes "split_ok d n r m N f arr"
  shows "quit_last (map snd arr)"
proof -
  have "timestamp (snd y) \<le> timestamp (snd x)" if "x \<in> set arr" "y \<in> set arr" "quit (snd x) \<noteq> 0" for x y
    using split_event [OF assms, of "fst x" "snd x"] split_event [OF assms, of "fst y" "snd y"] that
    by (auto split: if_splits)
  then show ?thesis by (auto simp: quit_last_def)
qed

lemma split_steady:
  assumes "split_ok d n r m N f arr" "\<And>i. names_ok (names i)" "\<And>i. length (names i) = m"
  shows "\<forall>(e, fl) \<in> set (zip (map snd arr) (map (\<lambda>i. Some (aliases_text (names i))) [0 ..< length arr])). steady (range names) m N e fl"
proof -
  have "steady (range names) m N e (Some (aliases_text (names i)))" if e: "e \<in> set (map snd arr)" for e i
  proof -
    obtain x where "x \<in> set arr" "e = snd x" using e by auto
    then have "(fst x, e) \<in> set arr" by simp
    from split_event [OF assms(1) this] show ?thesis using assms(2,3) [of i] by (auto simp: steady_def names_ok_def)
  qed
  then show ?thesis by (fastforce dest: set_zip_leftD set_zip_rightD)
qed

lemma handler_rank:
  assumes "system_ok E d n m N" "0 \<le> r" "r < n" "children d n r \<noteq> []" "split_ok d n r m N f (hs_split H r)"
    and "ahead (degree d n r) 9 (hs_split H r)" "int (length (hs_split H r)) < int_max" "rk_beyond E r = [0, 0, 0, 0]"
  shows "\<exists>own. handler_out E n H r = Some own \<and> stream_ok d n (\<lambda>_. m) r own \<and> flags_ok N own \<and>
    (\<forall>e \<in> set own. measured_in (range (rk_platform E r)) (range (rk_names E r)) (gather_info e)) \<and>
    (\<forall>t. t < length own \<longleftrightarrow> length (pulse_events (int t) (map snd (hs_split H r))) = degree d n r)"
proof -
  note s = system_okD [OF assms(1-3)]
  let ?W = "\<lparr>comm_rank = r, comm_size = n\<rparr>"
  have g: "get_degree_node d (comm_size ?W) (comm_rank ?W) = Inr (int (degree d n r))"
    using get_degree_node_eq [OF s(7) assms(2,3)] by simp
  have k: "1 \<le> degree d n r" using assms(4) by (cases "children d n r") (auto simp: degree_def)
  have "int (degree d n r) \<le> int_max"
    using valid_topoD [OF s(7) assms(2,3)] by (simp add: degree_alt min_def split: if_splits)
  moreover have "\<forall>(e, fl) \<in> set (zip (map snd (hs_split H r)) (map (rk_file E r) [0 ..< length (hs_split H r)])).
      steady (range (rk_names E r)) m N e fl"
    using split_steady [OF assms(5), of "rk_names E r"] s(3,4) by (simp add: rk_file_def [abs_def])
  ultimately obtain nd1 own where o: "own_run (rk_platform E r) uth_ops ?W [0, 0, 0, 0] (rk_junk E r) (rk_node E r, [])
        (zip (map snd (hs_split H r)) (map (rk_file E r) [0 ..< length (hs_split H r)])) = Inr (nd1, own)"
      "flags_ok N own" "\<forall>t < length own. own_event ?W d (int t) (own ! t) \<and> length (gather_info (own ! t)) = m \<and>
        measured_in (range (rk_platform E r)) (range (rk_names E r)) (gather_info (own ! t))"
      "\<forall>t. t < length own \<longleftrightarrow> length (pulse_events (int t) (map snd (hs_split H r))) = degree d n r"
    using own_run_steady [OF s(2,1) g k _ split_fifo [OF assms(5)] split_quit [OF assms(5)] assms(6,7), of _ "range (rk_names E r)" m N "rk_junk E r"]
    by (metis (no_types, lifting) length_map length_upt diff_zero)
  then show ?thesis by (intro exI [of _ own]) (simp add: handler_out_def assms(8) stream_ok_def all_set_conv_all_nth)
qed

lemma multi_rank:
  assumes "event_queue Q elems" "elems q0 = []" "valid_topo d n" "0 \<le> r" "r < n" "children d n r \<noteq> []"
    and "split_ok d n r m N f (hs_split H r)" "stream_ok d n (\<lambda>_. m) r own" "flags_ok N own"
    and "prefix (child_copies (hs_multi H r)) (hs_split H r)" "prefix (of_sender 0 (hs_multi H r)) own"
    and "int (length (hs_multi H r)) < int_max"
  shows "\<exists>out. multi_out Q q0 H r = Some out \<and> inner_run Q double_arith q0 own (map f (children d n r)) (hs_multi H r) out \<and>
    stream_at d n (\<lambda>_. m) r out \<and> flags_ok N out"
proof -
  let ?arr = "hs_multi H r" and ?below = "map f (children d n r)"
  have len: "length ?below = degree d n r" by (simp add: degree_def)
  have pre: "prefix (of_sender (Suc i) ?arr) (?below ! i)" if "i < degree d n r" for i
  proof -
    have "prefix (of_sender (Suc i) ?arr) (of_sender i (hs_split H r))"
      using of_sender_prefix [OF assms(10), of i] by (simp add: of_sender_copies)
    then show ?thesis using split_child(3) [OF assms(7) that] that by (simp add: degree_def)
  qed
  have senders: "fst x \<le> length ?below" if "x \<in> set ?arr" for x
  proof (cases "fst x")
    case (Suc i)
    then have "(i, snd x) \<in> set (child_copies ?arr)" using that by (force simp: child_copies_def)
    then have "(i, snd x) \<in> set (hs_split H r)" using assms(10) by (auto simp: prefix_def)
    then show ?thesis using assms(7) Suc len by (auto simp: split_ok_def)
  qed simp
  have feeds: "feeds_at d n (\<lambda>_. m) r own ?below ?arr"
    using assms(6,8,11) pre senders split_child(1) [OF assms(7)] by (simp add: feeds_at_def degree_def)
  obtain st q l where l: "arrivals Q double_arith (cod_init metrics_zero, q0, []) (map snd ?arr) =
      Inr (st, q, map (\<lambda>t. pulse_result double_arith (int t) (pulse_events (int t) (map snd ?arr))) [0 ..< l])"
    "\<And>t. t < l \<Longrightarrow> length (pulse_events (int t) (map snd ?arr)) = Suc (degree d n r)"
    using node_result [OF assms(1,2) feeds assms(3-5,12), of double_arith] by blast
  define out where "out = map (\<lambda>t. pulse_result double_arith (int t) (pulse_events (int t) (map snd ?arr))) [0 ..< l]"
  have r: "arrivals Q double_arith (cod_init metrics_zero, q0, []) (map snd ?arr) = Inr (st, q, out)" using l(1) by (simp add: out_def)
  have inner: "inner_run Q double_arith q0 own ?below ?arr out"
    using r pre senders assms(11,12) len by (simp add: inner_run_def)
  have stream: "stream_at d n (\<lambda>_. m) r out" unfolding out_def by (rule inner_stream [OF feeds assms(3-5) l(2)])
  have fl: "t < Suc N \<and> quit (out ! t) = (if t = N then 1 else 0) \<and> (t = 0 \<longrightarrow> update_file (out ! t) \<noteq> 0)"
    if t: "t < length out" for t
    using first_flags [OF assms(1-5) feeds assms(12) r t]
  proof
    assume "\<exists>c \<in> set (children d n r). t < length (f c) \<and> quit (out ! t) = quit (f c ! t) \<and>
      update_file (out ! t) = update_file (f c ! t)"
    then obtain c where c: "c \<in> set (children d n r)" "t < length (f c)" "quit (out ! t) = quit (f c ! t)"
        "update_file (out ! t) = update_file (f c ! t)" by blast
    then have "flags_ok N (f c)" using assms(7) by (simp add: split_ok_def)
    then show ?thesis using c by (auto simp: flags_ok_def)
  qed (use assms(9) in \<open>auto simp: flags_ok_def\<close>)
  have "length out \<le> Suc N"
  proof (rule ccontr)
    assume "\<not> length out \<le> Suc N"
    then show False using fl [of "Suc N"] by simp
  qed
  then have "flags_ok N out" using fl by (simp add: flags_ok_def)
  then show ?thesis using r inner stream by (intro exI [of _ out]) (simp add: multi_out_def)
qed

section \<open>All ranks\<close>

text \<open>
  What a rank has measured: a leaf the values of the pulse, for the aliases of the pulse; an inner rank the values at
  one of the handler's events, for the aliases as it read them at one of its events.
\<close>

definition rank_measured :: "('s, 'p) ranks \<Rightarrow> int \<Rightarrow> int \<Rightarrow> int \<Rightarrow> nat \<Rightarrow> metrics \<Rightarrow> bool" where
  "rank_measured E d n r t e \<longleftrightarrow>
     (if children d n r = [] then measured (rk_platform E r t) (rk_names E r t) (gather_info e)
      else measured_in (range (rk_platform E r)) (range (rk_names E r)) (gather_info e))"

text \<open>Every rank runs without failure, and its streams are as the tree needs them.\<close>

definition rank_ok :: "('s, 'p) ranks \<Rightarrow> ('q, metrics) ev_ops \<Rightarrow> 'q \<Rightarrow> int \<Rightarrow> int \<Rightarrow> nat \<Rightarrow> nat \<Rightarrow> history \<Rightarrow> int \<Rightarrow> bool" where
  "rank_ok E Q q0 d n m N H r \<longleftrightarrow> (\<exists>own out. rank_own E d n H r = Some own \<and> rank_out E Q q0 d n H r = Some out \<and>
     stream_ok d n (\<lambda>_. m) r own \<and> stream_at d n (\<lambda>_. m) r out \<and> flags_ok N out \<and>
     (\<forall>t < length own. rank_measured E d n r t (own ! t)) \<and>
     (if children d n r = [] then out = own \<and> length own = Suc N
      else inner_run Q double_arith q0 own (map (\<lambda>c. submitted (rank_out E Q q0 d n H c)) (children d n r)) (hs_multi H r) out \<and>
        fifo (degree d n r) (hs_split H r) \<and>
        (\<forall>t. t < length own \<longleftrightarrow> length (pulse_events (int t) (map snd (hs_split H r))) = degree d n r)))"

lemma every_rank_ok:
  assumes "event_queue Q elems" "elems q0 = []" "system_ok E d n m N" "delivered E Q q0 d n H"
    and "\<forall>r \<in> {0 ..< n}. children d n r \<noteq> [] \<longrightarrow> rk_beyond E r = [0, 0, 0, 0] \<and> ahead (degree d n r) 9 (hs_split H r)"
    and "0 \<le> r" "r < n"
  shows "rank_ok E Q q0 d n m N H r"
  using assms(6,7)
proof (induction "nat (n - r)" arbitrary: r rule: less_induct)
  case less
  note s = system_okD [OF assms(3) less.prems]
  have d: "0 < d" using s(7) by (simp add: valid_topo_def)
  have leaf: "is_leaf d n r = Inr (children d n r = [])" using is_leaf_eq [OF s(7) less.prems] s(8) by simp
  show ?case
  proof (cases "children d n r = []")
    case True
    then show ?thesis using leaf_rank [OF assms(3) less.prems True] leaf stream_ok_at [OF _ s(7) less.prems]
      by (auto simp: rank_ok_def rank_own_def rank_out_def rank_measured_def less_Suc_eq_le)
  next
    case False
    let ?f = "\<lambda>c. submitted (rank_out E Q q0 d n H c)"
    have ch: "rank_ok E Q q0 d n m N H c" if "c \<in> set (children d n r)" for c
      by (rule less.hyps) (use child_greater [OF d less.prems(1) that] less.prems in auto)
    have D: "\<forall>x \<in> set (hs_split H r). fst x < degree d n r"
        "\<forall>i < degree d n r. prefix (of_sender i (hs_split H r)) (?f (children d n r ! i))"
        "prefix (child_copies (hs_multi H r)) (hs_split H r)"
        "prefix (of_sender 0 (hs_multi H r)) (submitted (rank_own E d n H r))"
        "int (length (hs_split H r)) < int_max" "int (length (hs_multi H r)) < int_max"
      using assms(4) less.prems False leaf by (auto simp: delivered_def)
    have B: "rk_beyond E r = [0, 0, 0, 0]" "ahead (degree d n r) 9 (hs_split H r)" using assms(5) less.prems False by auto
    have sp: "split_ok d n r m N ?f (hs_split H r)"
      using ch D(1,2) by (force simp: split_ok_def rank_ok_def)
    obtain own where own: "handler_out E n H r = Some own" "stream_ok d n (\<lambda>_. m) r own" "flags_ok N own"
        "\<forall>e \<in> set own. measured_in (range (rk_platform E r)) (range (rk_names E r)) (gather_info e)"
        "\<forall>t. t < length own \<longleftrightarrow> length (pulse_events (int t) (map snd (hs_split H r))) = degree d n r"
      using handler_rank [OF assms(3) less.prems False sp B(2) D(5) B(1)] by blast
    have ro: "rank_own E d n H r = Some own" using leaf False own(1) by (simp add: rank_own_def)
    obtain out where "multi_out Q q0 H r = Some out" "inner_run Q double_arith q0 own (map ?f (children d n r)) (hs_multi H r) out"
        "stream_at d n (\<lambda>_. m) r out" "flags_ok N out"
      using multi_rank [OF assms(1,2) s(7) less.prems False sp own(2,3) D(3) _ D(6)] D(4) ro by auto
    then show ?thesis using leaf False ro own split_fifo [OF sp] by (simp add: rank_ok_def rank_out_def rank_measured_def)
  qed
qed

abbreviation own_of :: "('s, 'p) ranks \<Rightarrow> int \<Rightarrow> int \<Rightarrow> history \<Rightarrow> int \<Rightarrow> metrics list" where
  "own_of E d n H r \<equiv> submitted (rank_own E d n H r)"

abbreviation out_of :: "('s, 'p) ranks \<Rightarrow> ('q, metrics) ev_ops \<Rightarrow> 'q \<Rightarrow> int \<Rightarrow> int \<Rightarrow> history \<Rightarrow> int \<Rightarrow> metrics list" where
  "out_of E Q q0 d n H r \<equiv> submitted (rank_out E Q q0 d n H r)"

text \<open>The runs of the code's functions make up a run of the tree.\<close>

lemma system_tree:
  assumes "event_queue Q elems" "elems q0 = []" "system_ok E d n m N" "delivered E Q q0 d n H"
    and "\<forall>r \<in> {0 ..< n}. children d n r \<noteq> [] \<longrightarrow> rk_beyond E r = [0, 0, 0, 0] \<and> ahead (degree d n r) 9 (hs_split H r)"
  shows "tree_run Q double_arith q0 d n (own_of E d n H) (hs_multi H) (out_of E Q q0 d n H)"
    "\<forall>r \<in> {0 ..< n}. stream_ok d n (\<lambda>_. m) r (own_of E d n H r)"
proof -
  have v: "valid_topo d n" "1 < n" using assms(3) by (simp_all add: system_ok_def)
  have R: "rank_ok E Q q0 d n m N H r" if "r \<in> {0 ..< n}" for r using every_rank_ok [OF assms] that by simp
  show "tree_run Q double_arith q0 d n (own_of E d n H) (hs_multi H) (out_of E Q q0 d n H)"
    unfolding tree_run_def
  proof
    fix r assume r: "r \<in> {0 ..< n}"
    then have "is_leaf d n r = Inr (children d n r = [])" using is_leaf_eq [OF v(1), of r] v(2) by simp
    then show "if is_leaf d n r = Inr True then out_of E Q q0 d n H r = own_of E d n H r
      else inner_run Q double_arith q0 (own_of E d n H r) (map (out_of E Q q0 d n H) (children d n r)) (hs_multi H r)
        (out_of E Q q0 d n H r)"
      using R [OF r] by (auto simp: rank_ok_def)
  qed
  show "\<forall>r \<in> {0 ..< n}. stream_ok d n (\<lambda>_. m) r (own_of E d n H r)"
    using R by (fastforce simp: rank_ok_def)
qed

text \<open>Everything that is submitted arrives, in orders that keep up.\<close>

definition all_delivered :: "('s, 'p) ranks \<Rightarrow> ('q, metrics) ev_ops \<Rightarrow> 'q \<Rightarrow> int \<Rightarrow> int \<Rightarrow> history \<Rightarrow> bool" where
  "all_delivered E Q q0 d n H \<longleftrightarrow> (\<forall>r \<in> {0 ..< n}. children d n r \<noteq> [] \<longrightarrow>
     (\<forall>i < degree d n r. of_sender i (hs_split H r) = out_of E Q q0 d n H (children d n r ! i)) \<and>
     child_copies (hs_multi H r) = hs_split H r \<and> of_sender 0 (hs_multi H r) = own_of E d n H r \<and>
     keeps_up (Suc (degree d n r)) (hs_multi H r))"

lemma all_delivered_arrived:
  assumes "all_delivered E Q q0 d n H"
  shows "all_arrived d n (own_of E d n H) (hs_multi H) (out_of E Q q0 d n H)"
  unfolding all_arrived_def
proof (intro ballI impI conjI allI)
  fix r assume r: "r \<in> {0 ..< n}" "children d n r \<noteq> []"
  note a = assms [unfolded all_delivered_def, rule_format, OF r]
  show "of_sender 0 (hs_multi H r) = own_of E d n H r" "keeps_up (Suc (degree d n r)) (hs_multi H r)" using a by blast+
  fix i assume "i < degree d n r"
  then show "of_sender (Suc i) (hs_multi H r) = out_of E Q q0 d n H (children d n r ! i)"
    using a of_sender_copies [of i "hs_multi H r"] by simp
qed

lemma every_pulse:
  assumes "event_queue Q elems" "elems q0 = []" "system_ok E d n m N" "delivered E Q q0 d n H"
    and "\<forall>r \<in> {0 ..< n}. children d n r \<noteq> [] \<longrightarrow> rk_beyond E r = [0, 0, 0, 0] \<and> ahead (degree d n r) 9 (hs_split H r)"
    and "all_delivered E Q q0 d n H"
    and "\<forall>r \<in> {0 <..< n}. 0 < degree d n r \<and> int (degree d n r) < d \<longrightarrow> child_first (hs_multi H r)"
    and "0 \<le> r" "r < n"
  shows "length (own_of E d n H r) = Suc N \<and> length (out_of E Q q0 d n H r) = Suc N"
  using assms(8,9)
proof (induction "nat (n - r)" arbitrary: r rule: less_induct)
  case less
  have v: "valid_topo d n" "1 < n" using assms(3) by (simp_all add: system_ok_def)
  have d: "0 < d" using v(1) by (simp add: valid_topo_def)
  let ?own = "own_of E d n H" and ?out = "out_of E Q q0 d n H"
  note tree = system_tree [OF assms(1-5)]
  note complete = rank_complete [OF assms(1,2) v tree(2,1) all_delivered_arrived [OF assms(6)] assms(7) less.prems]
  obtain own out where R: "rank_own E d n H r = Some own" "rank_out E Q q0 d n H r = Some out" "flags_ok N out"
      "children d n r = [] \<longrightarrow> out = own \<and> length own = Suc N"
      "children d n r \<noteq> [] \<longrightarrow> fifo (degree d n r) (hs_split H r) \<and>
        (\<forall>t. t < length own \<longleftrightarrow> length (pulse_events (int t) (map snd (hs_split H r))) = degree d n r)"
    using every_rank_ok [OF assms(1-5) less.prems] by (auto simp: rank_ok_def split: if_splits)
  show ?case
  proof (cases "children d n r = []")
    case True
    then show ?thesis using R by simp
  next
    case False
    have ch: "length (?out c) = Suc N" "\<forall>x \<in> set (subtree d n c). N < length (?own x)" if c: "c \<in> set (children d n r)" for c
    proof -
      have cb: "0 \<le> c" "c < n" "nat (n - c) < nat (n - r)" using child_greater [OF d less.prems(1) c] less.prems by auto
      show l: "length (?out c) = Suc N" using less.hyps [OF cb(3,1,2)] by simp
      show "\<forall>x \<in> set (subtree d n c). N < length (?own x)"
        using rank_complete [OF assms(1,2) v tree(2,1) all_delivered_arrived [OF assms(6)] assms(7) cb(1,2), of N] l by simp
    qed
    have "of_sender i (hs_split H r) = ?out (children d n r ! i)" if "i < degree d n r" for i
      using assms(6) less.prems False that unfolding all_delivered_def by simp
    then have len: "length (of_sender i (hs_split H r)) = Suc N" if "i < degree d n r" for i
      using ch(1) that by (simp add: degree_def)
    then have "{s. s < degree d n r \<and> t < length (of_sender s (hs_split H r))} =
        (if t < Suc N then {..< degree d n r} else {})" for t by auto
    then have c: "length (pulse_events (int t) (map snd (hs_split H r))) = (if t < Suc N then degree d n r else 0)" for t
      using fifo_count [of "degree d n r" "hs_split H r" t] R(5) False by simp
    have "degree d n r \<noteq> 0" using False by (simp add: degree_def)
    then have "t < length own \<longleftrightarrow> t < Suc N" for t using R(5) False c [of t] by auto
    then have own: "length own = Suc N" by (metis less_irrefl linorder_neqE_nat)
    then have "N < length (?out r)"
      using complete [of N] ch(2) R(1) subtree_unfold [OF d less.prems] by auto
    then show ?thesis using own R(1-3) by (simp add: flags_ok_def)
  qed
qed

section \<open>A concrete system\<close>

text \<open>Three ranks with one metric; the leaves are told to finish in pulse 0.\<close>

definition sample_ranks :: "htable uth \<Rightarrow> (htable uth, unit) ranks" where
  "sample_ranks s = \<lparr>rk_platform = \<lambda>_ _. sample_platform s, rk_node = \<lambda>_. sample_fresh, rk_junk = \<lambda>_ _. same_value 7, rk_beyond = \<lambda>_. [0, 0, 0, 0],
     rk_raw = \<lambda>_. metrics_zero, rk_names = \<lambda>_ _. [''rank''], rk_finished = \<lambda>_ i. i = 0, rk_fuel = 2\<rparr>"

lemma sample_ranks_ok: "knows_metrics uth_ops s \<Longrightarrow> system_ok (sample_ranks s) 2 3 1 0"
  using sample_fresh_ok
  by (simp add: system_ok_def sample_ranks_def process_ok_def sample_env_ok valid_topo_def names_ok_def)

text \<open>The metric is the rank of the platform, 3.\<close>

lemma sample_results:
  assumes "knows_metrics uth_ops s"
  shows "\<exists>cm1. metrics_crawler_results_file (sample_platform s) (counted ag 1) [x] (Some (aliases_text [''rank''])) cm =
    Inr (crawled ag [''rank''], [same_value 3], 1 \<noteq> total_metrics ag, cm1)"
proof -
  obtain g ev p1 k where r: "metrics_crawler_results_file (sample_platform s) (counted ag 1) [x]
        (Some (aliases_text [''rank''])) cm = Inr (crawled ag [''rank''], g, 1 \<noteq> total_metrics ag, (Some ev, p1))"
      "k \<le> 1" "written sample_env [Some ''rank''] 0 k [x] g" "k < 1 \<longrightarrow> callback_of ([''rank''] ! k) = None"
    using results_from_text [of "[''rank'']" "sample_platform s" "[x]" ag cm] assms by (auto simp: sample_env_ok)
  have "k = 1" using r(2,4) by (cases k) (auto simp: callback_of_def)
  then have "length g = 1" "g ! 0 = same_value 3"
    using r(3) by (auto simp: written_def callback_of_def run_callback_def sample_env_def)
  then have "g = [same_value 3]" by (cases g) auto
  then show ?thesis using r(1) by blast
qed

lemma sample_number:
  "desired_ok ag \<Longrightarrow> initialize_metrics_crawler_number_from_file ag nr (Some (aliases_text [''rank''])) = Inr (counted ag 1, 1)"
  using number_from_text [of ag "[''rank'']" nr] by simp

lemma sample_leaf:
  assumes "knows_metrics uth_ops s" "r \<in> {1, 2}"
  shows "\<exists>a. leaf_out (sample_ranks s) 3 r = Some [a] \<and> gather_info a = [same_value 3]"
proof -
  have "children 2 3 r = []" using assms(2) three_children by auto
  then obtain evs where e: "leaf_out (sample_ranks s) 3 r = Some evs" "length evs = Suc 0"
    using leaf_rank [OF sample_ranks_ok [OF assms(1)], of r] assms(2) by auto
  have d: "desired_ok (sample_aggregator h)" for h :: "h_timestamp uth" by (simp add: desired_ok_def sample_aggregator_def)
  have m: "malloc_results (\<lambda>_. same_value 7) 1 = [same_value 7]" by (simp add: malloc_results_def)
  obtain a where a: "evs = [a]" using e(2) by (auto simp: length_Suc_conv)
  moreover have "gather_info a = [same_value 3]"
    using e(1) sample_results [OF assms(1), of "sample_aggregator (uth_empty \<lparr>ht_count = 0, ht_ts = 0\<rparr>)" "same_value 7" "(None, ())"]
    unfolding a
    by (auto simp: leaf_out_def start_communication_def sample_ranks_def sample_fresh_def leaf_init_def rk_file_def
        leaf_pulse_def leaf_measure_def sample_number [OF d] m numeral_2_eq_2 Let_def
        split: sum.splits option.splits)
  ultimately show ?thesis using e(1) by blast
qed

lemma sample_submit:
  assumes "knows_metrics uth_ops s" "desired_ok ag" "first_pulse own" "update_file e \<noteq> 0"
    and "own_submit (sample_platform s) W (\<lambda>_. same_value 7) (Some (aliases_text [''rank''])) e (ag, own, cm) = Inr (nd1, sub)"
  shows "gather_info sub = [same_value 3]"
proof -
  have m: "malloc_results (\<lambda>_. same_value 7) 1 = [same_value 7]" by (simp add: malloc_results_def)
  show ?thesis using assms(3-5) sample_results [OF assms(1), of ag "same_value 7" cm]
    by (auto simp: own_submit_def get_metrics_values_def Let_def sample_number [OF assms(2)] m)
qed

text \<open>The leaves' events reach the root, and then its own one.\<close>

definition sample_split :: "(htable uth, unit) ranks \<Rightarrow> int \<Rightarrow> (nat \<times> metrics) list" where
  "sample_split E r = (if r = 0 then map (Pair 0) (submitted (leaf_out E 3 1)) @ map (Pair 1) (submitted (leaf_out E 3 2)) else [])"

definition sample_history :: "(htable uth, unit) ranks \<Rightarrow> history" where
  "sample_history E = \<lparr>hs_split = sample_split E,
     hs_multi = \<lambda>r. if r = 0 then map (\<lambda>x. (Suc (fst x), snd x)) (sample_split E 0) @
       map (Pair 0) (submitted (handler_out E 3 \<lparr>hs_split = sample_split E, hs_multi = \<lambda>_. []\<rparr> 0)) else []\<rparr>"

lemma sample_leaves:
  assumes "knows_metrics uth_ops s"
  obtains a b where "leaf_out (sample_ranks s) 3 1 = Some [a]" "leaf_out (sample_ranks s) 3 2 = Some [b]"
    "gather_info a = [same_value 3]" "gather_info b = [same_value 3]"
    "stream_ok 2 3 (\<lambda>_. 1) 1 [a]" "stream_ok 2 3 (\<lambda>_. 1) 2 [b]" "flags_ok 0 [a]" "flags_ok 0 [b]"
proof -
  obtain a where a: "leaf_out (sample_ranks s) 3 1 = Some [a]" "gather_info a = [same_value 3]"
    using sample_leaf [OF assms, of 1] by auto
  obtain b where b: "leaf_out (sample_ranks s) 3 2 = Some [b]" "gather_info b = [same_value 3]"
    using sample_leaf [OF assms, of 2] by auto
  show thesis
    using leaf_rank [OF sample_ranks_ok [OF assms], of 1] leaf_rank [OF sample_ranks_ok [OF assms], of 2]
      three_children a b that by auto
qed

lemma own_two:
  assumes "own_run (\<lambda>_. pl) T W beyond junk (nd, []) [(a, fl), (b, fl)] = Inr (nd2, [c])"
    and "\<And>h e own nd1. \<lbrakk>own_submit pl W junk fl e ((fst nd)\<lparr>hash_ts := h\<rparr>, own, snd (snd nd)) = Inr (nd1, c); e \<in> {a, b};
      first_pulse own = first_pulse (fst (snd nd))\<rbrakk> \<Longrightarrow> P"
  shows P
proof -
  obtain ag own cm where nd: "nd = (ag, own, cm)" by (cases nd)
  obtain n1 o1 o2 where r: "compute_own_metrics pl T W beyond junk fl a (ag, own, cm) = Inr (n1, o1)"
      "compute_own_metrics pl T W beyond junk fl b n1 = Inr (nd2, o2)" "o1 @ o2 = [c]"
    using assms(1) by (auto simp: nd)
  from r(1) show P
  proof (cases rule: own_metrics_cases)
    case (partial h)
    from r(2) [unfolded partial(1)] show P
    proof (cases rule: own_metrics_cases)
      case (full h1 ag1 own1 cm1 sub h2)
      then show P using assms(2) [of b h1 "own\<lparr>initialized := True\<rparr>"] partial r(3) by (simp add: nd)
    qed (use partial r(3) in simp)
  next
    case (full h ag1 own1 cm1 sub h2)
    then show P using assms(2) [of a h "own\<lparr>initialized := True\<rparr>"] r(3) by (simp add: nd)
  qed
qed

lemma sample_handler:
  assumes "knows_metrics uth_ops s" "leaf_out (sample_ranks s) 3 1 = Some [a]" "leaf_out (sample_ranks s) 3 2 = Some [b]"
    and "stream_ok 2 3 (\<lambda>_. 1) 1 [a]" "stream_ok 2 3 (\<lambda>_. 1) 2 [b]" "flags_ok 0 [a]" "flags_ok 0 [b]"
    and "hs_split H 0 = [(0, a), (1, b)]"
  shows "\<exists>c. handler_out (sample_ranks s) 3 H 0 = Some [c] \<and> timestamp c = 0 \<and> gather_info c = [same_value 3]"
proof -
  let ?E = "sample_ranks s"
  let ?f = "\<lambda>r::int. if r = 1 then [a] else [b]"
  have t: "timestamp a = 0" "timestamp b = 0" using assms(4,5) by (simp_all add: stream_ok_def own_event_def)
  have u: "update_file a \<noteq> 0" "update_file b \<noteq> 0" using assms(6,7) by (simp_all add: flags_ok_def)
  have deg: "degree 2 3 0 = 2" by (simp add: degree_def three_children)
  have sp: "split_ok 2 3 0 1 0 ?f (hs_split H 0)"
    using stream_ok_at [OF assms(4)] stream_ok_at [OF assms(5)] assms(6,7)
    by (auto simp: valid_topo_def split_ok_def three_children deg assms(8) of_sender_def less_Suc_eq numeral_2_eq_2)
  have ah: "ahead (degree 2 3 0) 9 (hs_split H 0)" using t by (auto simp: ahead_def assms(8) deg less_Suc_eq numeral_2_eq_2)
  obtain own where o: "handler_out ?E 3 H 0 = Some own" "stream_ok 2 3 (\<lambda>_. 1) 0 own"
      "\<forall>t. t < length own \<longleftrightarrow> length (pulse_events (int t) (map snd (hs_split H 0))) = degree 2 3 0"
    using handler_rank [OF sample_ranks_ok [OF assms(1)] _ _ _ sp ah] three_children assms(8) by (auto simp: sample_ranks_def)
  have "i < length own \<longleftrightarrow> i < 1" for i using o(3) t deg by (auto simp: assms(8))
  then have "length own = 1" by (metis less_irrefl linorder_neqE_nat)
  then obtain c where c: "own = [c]" by (auto simp: length_Suc_conv)
  obtain nd2 where r: "own_run (\<lambda>_. sample_platform s) uth_ops \<lparr>comm_rank = 0, comm_size = 3\<rparr> [0, 0, 0, 0] (\<lambda>_. same_value 7)
      (sample_fresh, []) [(a, Some (aliases_text [''rank''])), (b, Some (aliases_text [''rank'']))] = Inr (nd2, [c])"
    using o(1) unfolding c
    by (auto simp: handler_out_def assms(8) sample_ranks_def rk_file_def numeral_2_eq_2 simp del: own_run.simps
        split: sum.splits)
  have d: "desired_ok ((fst sample_fresh)\<lparr>hash_ts := h\<rparr>)" "first_pulse (fst (snd sample_fresh))" for h
    by (simp_all add: sample_fresh_def sample_aggregator_def desired_ok_def own_start_def)
  have "gather_info c = [same_value 3]"
  proof (rule own_two [OF r])
    fix h e own nd1
    assume e: "own_submit (sample_platform s) \<lparr>comm_rank = 0, comm_size = 3\<rparr> (\<lambda>_. same_value 7) (Some (aliases_text [''rank''])) e
        ((fst (sample_fresh))\<lparr>hash_ts := h\<rparr>, own, snd (snd sample_fresh)) = Inr (nd1, c)"
      "e \<in> {a, b}" "first_pulse own = first_pulse (fst (snd sample_fresh))"
    show "gather_info c = [same_value 3]"
      by (rule sample_submit [OF assms(1) d(1) _ _ e(1)]) (use e(2,3) d(2) u in auto)
  qed
  moreover have "timestamp c = 0" using o(2) by (simp add: c stream_ok_def own_event_def)
  ultimately show ?thesis using o(1) c by blast
qed

lemma sample_system:
  assumes "knows_metrics uth_ops s"
  defines "E \<equiv> sample_ranks s"
  defines "H \<equiv> sample_history E"
  shows "delivered E list_queue [] 2 3 H" "all_delivered E list_queue [] 2 3 H"
    "\<forall>r \<in> {0 ..< 3}. children 2 3 r \<noteq> [] \<longrightarrow> rk_beyond E r = [0, 0, 0, 0] \<and> ahead (degree 2 3 r) 9 (hs_split H r)"
    "\<forall>r \<in> {0, 1, 2}. length (own_of E 2 3 H r) = 1 \<and> gather_info (own_of E 2 3 H r ! 0) = [same_value 3]"
proof -
  obtain a b where ab: "leaf_out E 3 1 = Some [a]" "leaf_out E 3 2 = Some [b]"
    "gather_info a = [same_value 3]" "gather_info b = [same_value 3]"
    "stream_ok 2 3 (\<lambda>_. 1) 1 [a]" "stream_ok 2 3 (\<lambda>_. 1) 2 [b]" "flags_ok 0 [a]" "flags_ok 0 [b]"
    using sample_leaves [OF assms(1)] unfolding E_def by blast
  let ?H0 = "\<lparr>hs_split = sample_split E, hs_multi = \<lambda>_. []\<rparr>"
  have s0: "sample_split E 0 = [(0, a), (1, b)]" by (simp add: sample_split_def ab)
  obtain c where c: "handler_out E 3 ?H0 0 = Some [c]" "timestamp c = 0" "gather_info c = [same_value 3]"
    using sample_handler [OF assms(1) ab(1,2,5-8) [unfolded E_def], of ?H0] s0 unfolding E_def by auto
  have h: "handler_out E 3 H 0 = Some [c]" using c(1) by (simp add: handler_out_def H_def sample_history_def)
  have sp: "hs_split H 0 = [(0, a), (1, b)]" "hs_multi H 0 = [(1, a), (2, b), (0, c)]"
    using c(1) s0 by (simp_all add: H_def sample_history_def)
  have leaf: "is_leaf 2 3 0 = Inr False" "is_leaf 2 3 1 = Inr True" "is_leaf 2 3 2 = Inr True"
    using is_leaf_eq [of 2 3 0] is_leaf_eq [of 2 3 1] is_leaf_eq [of 2 3 2] by (simp_all add: three_children valid_topo_def)
  have t: "timestamp a = 0" "timestamp b = 0" using ab(5,6) by (simp_all add: stream_ok_def own_event_def)
  have own: "rank_own E 2 3 H 0 = Some [c]" "rank_own E 2 3 H 1 = Some [a]" "rank_own E 2 3 H 2 = Some [b]"
      "rank_out E list_queue [] 2 3 H 1 = Some [a]" "rank_out E list_queue [] 2 3 H 2 = Some [b]"
    using h ab leaf by (simp_all add: rank_own_def rank_out_def)
  have deg: "degree 2 3 0 = 2" by (simp add: degree_def three_children)
  show "\<forall>r \<in> {0, 1, 2}. length (own_of E 2 3 H r) = 1 \<and> gather_info (own_of E 2 3 H r ! 0) = [same_value 3]"
    using own ab(3,4) c(3) by simp
  have k: "keeps_up 3 (hs_multi H 0)" using t c(2) by (simp add: sp keeps_up_def less_Suc_eq all_conj_distrib numeral_3_eq_3)
  show "delivered E list_queue [] 2 3 H"
    unfolding delivered_def three_ranks
    by (auto simp: leaf three_children deg sp own of_sender_def child_copies_def less_Suc_eq numeral_2_eq_2 numeral_3_eq_3)
  show "\<forall>r \<in> {0 ..< 3}. children 2 3 r \<noteq> [] \<longrightarrow> rk_beyond E r = [0, 0, 0, 0] \<and> ahead (degree 2 3 r) 9 (hs_split H r)"
    unfolding three_ranks using t
    by (auto simp: three_children deg sp ahead_def E_def sample_ranks_def less_Suc_eq numeral_2_eq_2)
  show "all_delivered E list_queue [] 2 3 H"
    unfolding all_delivered_def three_ranks
    using k by (auto simp: three_children deg sp own of_sender_def child_copies_def less_Suc_eq numeral_2_eq_2 numeral_3_eq_3)
qed

section \<open>Properties\<close>

text \<open>
  C1. The program as a whole, from the leaves' threads to the root's aggregates, with more than one process. It is required that
  the aliases file lists the same number \<open>m\<close> of metrics at every reading, that all leaves finish in the same pulse, that
  at every inner rank the four bytes behind \<open>counter\<close> are zero (\<open>counter_lookup_overreads\<close>) and no child gets 9 pulses
  ahead of another. Then for every tree, every queue of EVPath
  and every history in which the bridges and the split stones keep the order of each sender (own events may be queued before or
  after the children's), no leaf thread, no handler and no aggregation program fails, and the
  \<open>t\<close>th aggregate that the root submits is that of pulse \<open>t\<close>; it holds, for every metric within the range
  in which doubles add small integers exactly, the sum, minimum and maximum of what all \<open>n\<close> ranks measured for that
  pulse, every rank counted once. What a rank has measured are the values of its custom metrics, up to the first alias that PAPI
  does not deliver (\<open>measured\<close>): a leaf's in the environment of the very pulse, an inner rank's in the environment of one of its events.
\<close>

theorem system_aggregates:
  assumes "event_queue Q elems" "elems q0 = []" "system_ok E d n m N" "delivered E Q q0 d n H"
    and "\<forall>r \<in> {0 ..< n}. children d n r \<noteq> [] \<longrightarrow> rk_beyond E r = [0, 0, 0, 0] \<and> ahead (degree d n r) 9 (hs_split H r)"
  shows "(\<forall>r \<in> {0 ..< n}. rank_own E d n H r \<noteq> None \<and> rank_out E Q q0 d n H r \<noteq> None \<and>
      (\<forall>t < length (own_of E d n H r). rank_measured E d n r t (own_of E d n H r ! t))) \<and>
    (\<forall>t < length (out_of E Q q0 d n H 0). timestamp (out_of E Q q0 d n H 0 ! t) = int t \<and>
      (\<forall>r \<in> {0 ..< n}. t < length (own_of E d n H r)) \<and>
      (\<forall>j < m. within double_bound (map (\<lambda>r. gather_info (own_of E d n H r ! t) ! j) [0 .. n - 1]) \<longrightarrow>
        summarises (gather_info (out_of E Q q0 d n H 0 ! t) ! j) (map (\<lambda>r. gather_info (own_of E d n H r ! t) ! j) [0 .. n - 1])))"
proof (intro conjI allI ballI impI)
  have v: "valid_topo d n" "1 < n" using assms(3) by (simp_all add: system_ok_def)
  have dn: "0 < d" "(0::int) \<le> 0" "0 < n" using v by (simp_all add: valid_topo_def)
  show "rank_own E d n H r \<noteq> None" "rank_out E Q q0 d n H r \<noteq> None" if "r \<in> {0 ..< n}" for r
    using every_rank_ok [OF assms, of r] that by (auto simp: rank_ok_def)
  show "rank_measured E d n r t (own_of E d n H r ! t)" if "r \<in> {0 ..< n}" "t < length (own_of E d n H r)" for r t
    using every_rank_ok [OF assms, of r] that by (auto simp: rank_ok_def)
  note tree = system_tree [OF assms]
  have r: "stream_at d n (\<lambda>_. m) 0 (out_of E Q q0 d n H 0)" "covers d n (own_of E d n H) 0 (out_of E Q q0 d n H 0)"
    using rank_result [OF assms(1,2) v tree(2,1) dn(2,3)] by simp_all
  fix t assume t: "t < length (out_of E Q q0 d n H 0)"
  show "timestamp (out_of E Q q0 d n H 0 ! t) = int t" by (rule stream_atD(1) [OF r(1) t])
  show "t < length (own_of E d n H x)" if "x \<in> {0 ..< n}" for x
    using r(2) t that subtree_root [OF dn(1,3)] by (simp add: covers_def)
  show "summarises (gather_info (out_of E Q q0 d n H 0 ! t) ! j) (map (\<lambda>r. gather_info (own_of E d n H r ! t) ! j) [0 .. n - 1])"
    if "j < m" "within double_bound (map (\<lambda>r. gather_info (own_of E d n H r ! t) ! j) [0 .. n - 1])" for j
    using covers_root [OF dn(1,3) r t that] by blast
qed

lemma sample_within: "within double_bound [same_value 3, same_value 3, same_value 3]"
  by (simp add: within_def same_value_def)

theorem system_aggregates_witness:
  "\<exists>s. knows_metrics uth_ops s \<and>
    0 < length (out_of (sample_ranks s) list_queue [] 2 3 (sample_history (sample_ranks s)) 0) \<and>
    summarises (gather_info (out_of (sample_ranks s) list_queue [] 2 3 (sample_history (sample_ranks s)) 0 ! 0) ! 0)
      [same_value 3, same_value 3, same_value 3]"
proof -
  obtain s :: "htable uth" where s: "knows_metrics uth_ops s" using sample_store by blast
  let ?E = "sample_ranks s" and ?H = "sample_history (sample_ranks s)"
  note S = sample_system [OF s] and ok = sample_ranks_ok [OF s]
  have l: "length (out_of ?E list_queue [] 2 3 ?H 0) = 1"
    using every_pulse [OF lq.event_queue_axioms refl ok S(1,3,2) three_full, of 0] by simp
  have m: "map (\<lambda>r. gather_info (own_of ?E 2 3 ?H r ! 0) ! 0) [0 .. 3 - 1] = [same_value 3, same_value 3, same_value 3]"
  proof -
    have u: "[0 .. 3 - 1 :: int] = [0, 1, 2]" by code_simp
    show ?thesis unfolding u using S(4) by simp
  qed
  have "summarises (gather_info (out_of ?E list_queue [] 2 3 ?H 0 ! 0) ! 0) [same_value 3, same_value 3, same_value 3]"
    using system_aggregates [OF lq.event_queue_axioms refl ok S(1,3), THEN conjunct2, rule_format, of 0] l m sample_within by simp
  then show ?thesis using s l by (intro exI [of _ s]) simp
qed

text \<open>
  C2. The program ends, under the conditions of the theorem above: when \<open>monitoring_finalize\<close> is seen by all leaves in the same pulse
  \<open>N\<close>, and everything that is
  submitted arrives in orders that keep up, the root submits exactly one aggregate for each of the pulses \<open>0, ..., N\<close>,
  only the last of them with the \<open>quit\<close> flag, and once the root process has handled them its wait in \<open>monitoring_finalize\<close>
  is over. For this it is also required that at the last inner rank, when it is not the root and has fewer than \<open>d\<close> children,
  no own event is queued before the children's events of its pulse; EVPath does not promise that, and otherwise nothing may
  ever be submitted (\<open>own_first_stalls\<close>).
\<close>

theorem system_ends:
  assumes "event_queue Q elems" "elems q0 = []" "system_ok E d n m N" "delivered E Q q0 d n H"
    and "\<forall>r \<in> {0 ..< n}. children d n r \<noteq> [] \<longrightarrow> rk_beyond E r = [0, 0, 0, 0] \<and> ahead (degree d n r) 9 (hs_split H r)"
    and "all_delivered E Q q0 d n H"
    and "\<forall>r \<in> {0 <..< n}. 0 < degree d n r \<and> int (degree d n r) < d \<longrightarrow> child_first (hs_multi H r)"
    and "root_start s0" "root_run np s0 tr s" "handled tr = out_of E Q q0 d n H 0"
  shows "map timestamp (out_of E Q q0 d n H 0) = map int [0 ..< Suc N] \<and>
    map quit (out_of E Q q0 d n H 0) = replicate N 0 @ [1] \<and> finalize_wait False 0 (rs_ag s) \<noteq> None"
proof -
  let ?out = "out_of E Q q0 d n H 0"
  have n: "(0::int) \<le> 0" "0 < n" using assms(3) by (simp_all add: system_ok_def)
  have len: "length ?out = Suc N" using every_pulse [OF assms(1-7) n] by simp
  have R: "stream_at d n (\<lambda>_. m) 0 ?out" "flags_ok N ?out"
    using every_rank_ok [OF assms(1-5) n] by (auto simp: rank_ok_def)
  have "map timestamp ?out = map int [0 ..< Suc N]"
    using prefix_stamps [OF R(1) prefix_order.refl] len by simp
  moreover have "map quit ?out = replicate N 0 @ [1]"
    using R(2) len by (intro nth_equalityI) (auto simp: flags_ok_def nth_append less_Suc_eq)
  moreover have "?out ! N \<in> set (handled tr)" "last_aggregate (?out ! N)"
    using assms(10) len R(2) by (simp_all add: flags_ok_def last_aggregate_def)
  ultimately show ?thesis using finalize_handled [OF assms(8,9)] by blast
qed

theorem system_ends_witness:
  "\<exists>s tr s1. knows_metrics uth_ops s \<and> root_run 3 sample_sys tr s1 \<and>
    handled tr = out_of (sample_ranks s) list_queue [] 2 3 (sample_history (sample_ranks s)) 0 \<and>
    map quit (handled tr) = [1] \<and> finalize_wait False 0 (rs_ag s1) \<noteq> None"
proof -
  obtain s :: "htable uth" where s: "knows_metrics uth_ops s" using sample_store by blast
  let ?out = "out_of (sample_ranks s) list_queue [] 2 3 (sample_history (sample_ranks s)) 0"
  note S = sample_system [OF s] and ok = sample_ranks_ok [OF s]
  have l: "length ?out = 1" using every_pulse [OF lq.event_queue_axioms refl ok S(1,3,2) three_full, of 0] by simp
  have "stream_at 2 3 (\<lambda>_. 1) 0 ?out"
    using every_rank_ok [OF lq.event_queue_axioms refl ok S(1,3), of 0] by (auto simp: rank_ok_def)
  then have a: "metrics_nr (?out ! 0) = 1" "length (gather_info (?out ! 0)) = 1"
    using stream_atD(2,3) [of 2 3 "\<lambda>_. 1" 0 ?out 0] l by simp_all
  have o: "handled [Handle (?out ! 0)] = ?out" using handles_one(2) [OF a] l by (cases ?out) auto
  obtain s1 where r: "root_run 3 sample_sys [Handle (?out ! 0)] s1" using handles_one(1) [OF a] by blast
  show ?thesis
    using system_ends [OF lq.event_queue_axioms refl ok S(1,3,2) three_full handles_one(3) [OF a] r o] s r o
    by (intro exI [of _ s] exI [of _ "[Handle (?out ! 0)]"] exI [of _ s1]) simp
qed

section \<open>A single process\<close>

text \<open>Until an aggregate is handled, every call of the monitored program waits.\<close>

lemma start_step:
  assumes "root_start s0" "root_step np s0 a s1"
  shows "\<exists>e. a = Handle e"
  using assms(2,1)
  by (cases rule: root_step.cases)
     (auto simp: root_start_def monitoring_file_updated_def finalize_wait_def dest: return_results_fields(4))

lemma run_without_handle:
  assumes "root_run np s0 tr s" "root_start s0" "\<And>e. \<not> Handle e \<in> set tr"
  shows "tr = [] \<and> s = s0"
  using assms
proof (induction rule: root_run.induct)
  case (step tr s a s1)
  then have "s = s0" by auto
  then show ?case using start_step [OF step.prems(1)] step.hyps(2) step.prems(2) by force
qed simp

text \<open>
  C28. A single process is neither a leaf (\<open>is_leaf\<close> asks for more than one process, so that no thread submits events)
  nor does it have children, so that its terminal handler is never called and its multi stone never gets an event: its own
  events and its aggregates are empty, and the first call of \<open>return_results\<close>, every
  \<open>monitoring_file_updated\<close> and \<open>monitoring_finalize\<close> wait for ever.
\<close>

theorem single_process_waits:
  assumes "valid_topo d 1" "delivered E Q q0 d 1 H"
    and "root_start s0" "root_run np s0 tr s" "handled tr = out_of E Q q0 d 1 H 0"
  shows "is_leaf d 1 0 = Inr False \<and> rank_own E d 1 H 0 = Some [] \<and> rank_out E Q q0 d 1 H 0 = Some [] \<and> tr = [] \<and>
    (\<forall>results s1. \<not> root_step np s (Return results) s1 \<and> \<not> root_step np s Updated s1 \<and> \<not> root_step np s Finish s1)"
proof -
  have leaf: "is_leaf d 1 0 = Inr False" using is_leaf_eq [OF assms(1), of 0] by simp
  have "degree d 1 0 = 0" using assms(1) by (simp add: degree_alt valid_topo_def)
  then have D: "hs_split H 0 = []"
      "prefix (child_copies (hs_multi H 0)) (hs_split H 0)"
      "prefix (of_sender 0 (hs_multi H 0)) (own_of E d 1 H 0)"
    using bspec [OF assms(2) [unfolded delivered_def], of 0] leaf by (cases "hs_split H 0"; auto)+
  have own: "rank_own E d 1 H 0 = Some []" using D(1) leaf by (simp add: rank_own_def handler_out_def)
  have "hs_multi H 0 = []"
    using D own by (cases "hs_multi H 0") (auto simp: child_copies_def of_sender_def split: if_splits)
  then have out: "rank_out E Q q0 d 1 H 0 = Some []" using leaf by (simp add: rank_out_def multi_out_def)
  have "\<not> Handle e \<in> set tr" for e using set_handled [of e tr] assms(5) out by simp
  then have "tr = []" "s = s0" using run_without_handle [OF assms(4,3)] by simp_all
  then show ?thesis using leaf own out start_step [OF assms(3)] by blast
qed

theorem single_process_waits_witness:
  "\<forall>results s1. \<not> root_step 1 sample_sys (Return results) s1 \<and> \<not> root_step 1 sample_sys Finish s1"
proof -
  let ?E = "sample_ranks (uth_empty \<lparr>ht_key = [], ht_value = return_rank\<rparr>)"
  let ?H = "\<lparr>hs_split = \<lambda>_. [], hs_multi = \<lambda>_. []\<rparr>"
  have v: "valid_topo 2 1" by (simp add: valid_topo_def)
  have l: "is_leaf 2 1 0 = Inr False" using is_leaf_eq [OF v, of 0] by simp
  have r: "{0 ..< 1} = {0 :: int}" "degree 2 1 0 = 0" by (auto simp: degree_alt)
  have d: "delivered ?E list_queue [] 2 1 ?H"
    unfolding delivered_def r(1) using r(2) by (simp add: child_copies_def of_sender_def)
  have o: "out_of ?E list_queue [] 2 1 ?H 0 = []" using l by (simp add: rank_out_def multi_out_def)
  have "root_start sample_sys" by (simp add: root_start_def sample_sys_def sample_aggregator_def)
  then show ?thesis
    using single_process_waits [OF v d _ root_run.start, of sample_sys 1] o by (simp add: handled_def)
qed

end
