(* ===== verification/Stones.thy ===== *)
theory Stones
  imports Crawler Topology
begin

text \<open>
  The EVPath stones of a process (metrics_aggregator.c: \<open>compute_evpath_addr\<close> and \<open>set_stones_actions\<close>).
  EVPath is a parameter: its state, and the functions that return something the code uses. The calls that only
  tell EVPath what to do are recorded in the order in which they are made.
\<close>

section \<open>EVPath\<close>

text \<open>
  A connection manager is a number, a stone or an action an int; \<open>contact_string\<close> is
  \<open>attr_list_to_string (CMget_contact_list cm)\<close>.
\<close>

record 'e evpath =
  CManager_create :: "'e \<Rightarrow> nat \<times> 'e"
  EValloc_stone :: "nat \<Rightarrow> 'e \<Rightarrow> int \<times> 'e"
  contact_string :: "nat \<Rightarrow> 'e \<Rightarrow> string"
  EVassoc_split_action :: "nat \<Rightarrow> int \<Rightarrow> 'e \<Rightarrow> int \<times> 'e"

datatype ev_handler = Final_result | Compute_own_metrics

datatype ev_call =
    CMlisten nat
  | CMfork_comm_thread nat
  | EVassoc_bridge_action nat int string int
  | EVstone_set_output nat int int int
  | EVassoc_terminal_action nat int "FMStructDescRec list" ev_handler
  | EVaction_add_split_target nat int int int
  | EVassoc_multi_action nat int "FMStructDescRec list list"

text \<open>A handle that has not been created has an undefined value.\<close>

definition created :: "'a option \<Rightarrow> 'a res" where
  "created x = (case x of None \<Rightarrow> Inl Uninitialised | Some v \<Rightarrow> Inr v)"

lemma created_Some [simp]: "created (Some v) = Inr v"
  by (simp add: created_def)

section \<open>Addresses\<close>

text \<open>\<open>sprintf(addr, "%d:%s", ...)\<close> into an array of ADDRESS_SIZE chars.\<close>

definition show_int :: "int \<Rightarrow> string" where
  "show_int v = (if v < 0 then CHR ''-'' # decimal (nat (- v)) else decimal (nat v))"

definition print_addr :: "int \<Rightarrow> string \<Rightarrow> string res" where
  "print_addr stone contact =
     (let addr = show_int stone @ CHR '':'' # contact
      in if ADDRESS_SIZE \<le> length addr then Inl BufferOverflow else Inr addr)"

text \<open>\<open>sscanf(parent_addr, "%d:%s", ...)\<close>; with fewer than two conversions the process exits.\<close>

definition parse_addr :: "string \<Rightarrow> (int \<times> string) res" where
  "parse_addr s =
     (case scan_ld s of
        Conv v rest \<Rightarrow>
          bind_r (c_int v) (\<lambda>stone.
          if rest \<noteq> [] \<and> hd rest = CHR '':'' then
            (case scan_s (tl rest) of
               Conv w rest1 \<Rightarrow> if ADDRESS_SIZE \<le> length w then Inl BufferOverflow else Inr (stone, w)
             | _ \<Rightarrow> Inl (ExitCode 0))
          else Inl (ExitCode 0))
      | _ \<Rightarrow> Inl (ExitCode 0))"

section \<open>The operations\<close>

text \<open>Stones are allocated in the order of the source; the one for the results only at the root.\<close>

definition compute_evpath_addr :: "'e evpath \<Rightarrow> int \<Rightarrow> node_state \<Rightarrow> 'e \<Rightarrow>
    (node_state \<times> string \<times> 'e \<times> ev_call list) res" where
  "compute_evpath_addr E rank st e =
     (let (cm, e1) = CManager_create E e;
          (multi, e2) = EValloc_stone E cm e1;
          (split, e3) = EValloc_stone E cm e2;
          (terminal, e4) = EValloc_stone E cm e3;
          (bridge, e5) = EValloc_stone E cm e4;
          st1 = st\<lparr>multi_stone := Some multi, bridge_stone := Some bridge, split_stone := Some split,
                  terminal_stone := Some terminal, conn_mgr := Some cm\<rparr>;
          (st2, e6) = (if rank = 0 then let (agreg, e6) = EValloc_stone E cm e5
                                        in (st1\<lparr>agreg_terminal_stone := Some agreg\<rparr>, e6)
                       else (st1, e5))
      in bind_r (print_addr split (contact_string E cm e6)) (\<lambda>addr.
         Inr (st2\<lparr>own_addr := addr\<rparr>, addr, e6, [CMlisten cm])))"

text \<open>
  The first half: the bridge to the parent, or the terminal stone of the results. The format lists are those
  of the build, \<open>bm\<close> being the BENCHMARKING one.
\<close>

definition set_output :: "bool \<Rightarrow> 'e evpath \<Rightarrow> int \<Rightarrow> bool \<Rightarrow> node_state \<Rightarrow> 'e \<Rightarrow>
    (node_state \<times> 'e \<times> ev_call list) res" where
  "set_output bm E rank leaf st e =
     (if rank \<noteq> 0 then
        let (st1, e1, calls) =
          (if leaf then
             let (cm, e1) = CManager_create E e; (bridge, e2) = EValloc_stone E cm e1
             in (st\<lparr>bridge_stone := Some bridge, conn_mgr := Some cm\<rparr>, e2, [CMlisten cm])
           else (st, e, [])) in
        bind_r (created (conn_mgr st1)) (\<lambda>cm.
        bind_r (created (bridge_stone st1)) (\<lambda>bridge.
        bind_r (parse_addr (parent_addr st1)) (\<lambda>(remote, contact).
        let calls1 = calls @ [EVassoc_bridge_action cm bridge contact remote] in
        if leaf then Inr (st1, e1, calls1)
        else bind_r (created (multi_stone st1)) (\<lambda>multi.
          Inr (st1, e1, calls1 @ [EVstone_set_output cm multi 0 bridge])))))
      else
        bind_r (created (conn_mgr st)) (\<lambda>cm.
        bind_r (created (agreg_terminal_stone st)) (\<lambda>agreg.
        bind_r (created (multi_stone st)) (\<lambda>multi.
        Inr (st, e, [EVassoc_terminal_action cm agreg (metrics_format_list bm) Final_result,
                     EVstone_set_output cm multi 0 agreg])))))"

text \<open>The second half: the terminal, split and multi stones of a node that is not a leaf.\<close>

definition set_inner :: "bool \<Rightarrow> 'e evpath \<Rightarrow> node_state \<Rightarrow> 'e \<Rightarrow> ('e \<times> ev_call list) res" where
  "set_inner bm E st e =
     bind_r (created (conn_mgr st)) (\<lambda>cm.
     bind_r (created (terminal_stone st)) (\<lambda>terminal.
     bind_r (created (split_stone st)) (\<lambda>split.
     bind_r (created (multi_stone st)) (\<lambda>multi.
     let (action, e1) = EVassoc_split_action E cm split e in
     Inr (e1, [EVassoc_terminal_action cm terminal (metrics_format_list bm) Compute_own_metrics,
               EVaction_add_split_target cm split action terminal,
               EVaction_add_split_target cm split action multi,
               EVassoc_multi_action cm multi (queue_list bm)])))))"

definition set_stones_actions :: "bool \<Rightarrow> 'e evpath \<Rightarrow> int \<Rightarrow> bool \<Rightarrow> node_state \<Rightarrow> 'e \<Rightarrow>
    (node_state \<times> 'e \<times> ev_call list) res" where
  "set_stones_actions bm E rank leaf st e =
     bind_r (set_output bm E rank leaf st e) (\<lambda>(st1, e1, calls).
     if leaf then Inr (st1, e1, calls)
     else bind_r (set_inner bm E st1 e1) (\<lambda>(e2, calls1). Inr (st1, e2, calls @ calls1)))"

section \<open>Addresses survive the way\<close>

text \<open>What the contact string of EVPath is: one word.\<close>

definition contact_ok :: "string \<Rightarrow> bool" where
  "contact_ok c \<longleftrightarrow> c \<noteq> [] \<and> list_all (Not \<circ> isspace) c"

lemma scan_digits:
  assumes "\<not> isdigit c"
  shows "scan_ld (decimal n @ c # t) = Conv (int n) (c # t)"
    "scan_ld (CHR ''-'' # decimal n @ c # t) = Conv (- int n) (c # t)"
proof -
  obtain x xs where d: "decimal n = x # xs" using decimal_ok [of n] by (cases "decimal n") auto
  have x: "isdigit x" "list_all isdigit xs" "digits_value (x # xs) = int n"
    using decimal_ok [of n] d by auto
  have tw: "takeWhile isdigit (x # xs @ c # t) = x # xs" "dropWhile isdigit (x # xs @ c # t) = c # t"
    using x(1,2) assms by (simp_all add: list_all_iff takeWhile_append2 dropWhile_append2)
  show "scan_ld (decimal n @ c # t) = Conv (int n) (c # t)"
    using x(3) digit_not_space [OF x(1)] skip_ws_digit [OF x(1)] tw by (simp add: scan_ld_def d)
  have "skip_ws (CHR ''-'' # s) = CHR ''-'' # s" for s by (simp add: skip_ws_def isspace_def)
  then show "scan_ld (CHR ''-'' # decimal n @ c # t) = Conv (- int n) (c # t)"
    using x(3) tw by (simp add: scan_ld_def d)
qed

lemma scan_shown:
  assumes "\<not> isdigit c"
  shows "scan_ld (show_int v @ c # t) = Conv v (c # t)"
proof (cases "v < 0")
  case True
  then show ?thesis using scan_digits(2) [OF assms, of "nat (- v)" t] by (simp add: show_int_def)
next
  case False
  then show ?thesis using scan_digits(1) [OF assms, of "nat v" t] by (simp add: show_int_def)
qed

lemma scan_contact:
  assumes "contact_ok c"
  shows "scan_s c = Conv c []"
proof -
  have all: "takeWhile (Not \<circ> isspace) c = c" "dropWhile (Not \<circ> isspace) c = []"
    using assms by (simp_all add: contact_ok_def list_all_iff)
  obtain x xs where c: "c = x # xs" using assms by (cases c) (auto simp: contact_ok_def)
  then have "skip_ws c = c" using assms by (simp add: contact_ok_def skip_ws_def)
  then show ?thesis using all c by (simp add: scan_s_def)
qed

lemma parse_print:
  assumes "contact_ok contact" "int_min \<le> stone" "stone \<le> int_max"
  shows "bind_r (print_addr stone contact) parse_addr =
    (if ADDRESS_SIZE \<le> length (show_int stone) + 1 + length contact then Inl BufferOverflow
     else Inr (stone, contact))"
proof -
  have "\<not> isdigit (CHR '':'')" by (simp add: isdigit_def)
  then have "parse_addr (show_int stone @ CHR '':'' # contact) =
      (if ADDRESS_SIZE \<le> length contact then Inl BufferOverflow else Inr (stone, contact))"
    using assms by (simp add: parse_addr_def scan_shown scan_contact c_int_ok)
  then show ?thesis by (auto simp: print_addr_def Let_def)
qed

section \<open>Properties\<close>

text \<open>
  C24. The address that a node prints for its children is the one they parse: for any stone number and any contact
  string without white space, printing and parsing returns both, and an address that does not fit into
  the array overflows it in the printing process.
\<close>

theorem address_round_trip:
  assumes "contact_ok contact" "int_min \<le> stone" "stone \<le> int_max"
  shows "(length (show_int stone) + 1 + length contact < ADDRESS_SIZE \<longrightarrow>
      (\<exists>addr. print_addr stone contact = Inr addr \<and> length addr < ADDRESS_SIZE \<and>
        parse_addr addr = Inr (stone, contact))) \<and>
    (ADDRESS_SIZE \<le> length (show_int stone) + 1 + length contact \<longrightarrow> print_addr stone contact = Inl BufferOverflow)"
  using parse_print [OF assms] by (auto simp: print_addr_def Let_def)

theorem address_round_trip_witness:
  "\<exists>addr. print_addr 3 ''AAIAAJTJ8o2nZQ'' = Inr addr \<and> length addr < ADDRESS_SIZE \<and>
    parse_addr addr = Inr (3, ''AAIAAJTJ8o2nZQ'')"
proof -
  have "length (show_int 3) = 1" by (simp add: show_int_def decimal.simps)
  then show ?thesis using address_round_trip [of "''AAIAAJTJ8o2nZQ''" 3] by (simp add: contact_ok_def isspace_def)
qed

end
