(* ===== verification/Bootstrap.thy ===== *)
theory Bootstrap
  imports Stones
begin

text \<open>
  The start-up of all processes (evp_monitoring.c: \<open>monitoring_initialize\<close> up to its first barrier). Every process
  but the root waits for the address of its parent; a process that is not a leaf then creates its stones and sends
  its own address to its children, one after the other. The sends are synchronous here, which is the worst case
  that MPI_Send allows: a step of the system is the meeting of a sender and a receiver.
\<close>

section \<open>A process\<close>

datatype phase = Receiving | Sending "mpi_send list" | At_barrier

record 'e proc =
  pr_phase :: phase
  pr_node :: node_state
  pr_ev :: 'e
  pr_calls :: "ev_call list"

definition sending :: "mpi_send list \<Rightarrow> phase" where
  "sending ms = (if ms = [] then At_barrier else Sending ms)"

text \<open>After the address of the parent has arrived.\<close>

definition boot_proceed :: "'e evpath \<Rightarrow> int \<Rightarrow> int \<Rightarrow> int \<Rightarrow> 'e proc \<Rightarrow> 'e proc res" where
  "boot_proceed E d n r p =
     bind_r (is_leaf d n r) (\<lambda>leaf.
     if leaf then Inr (p\<lparr>pr_phase := At_barrier\<rparr>)
     else
       bind_r (compute_evpath_addr E r (pr_node p) (pr_ev p)) (\<lambda>(st, addr, e, calls).
       bind_r (send_addr_to_children d n r addr) (\<lambda>ms.
       Inr \<lparr>pr_phase = sending ms, pr_node = st, pr_ev = e, pr_calls = pr_calls p @ calls\<rparr>)))"

definition boot_received :: "'e evpath \<Rightarrow> int \<Rightarrow> int \<Rightarrow> int \<Rightarrow> string \<Rightarrow> 'e proc \<Rightarrow> 'e proc res" where
  "boot_received E d n r addr p =
     boot_proceed E d n r (p\<lparr>pr_node := (pr_node p)\<lparr>parent_addr := addr\<rparr>\<rparr>)"

text \<open>The process of rank \<open>r\<close> at first; \<open>raw\<close> is the node state in fresh memory.\<close>

definition boot_fresh :: "node_state \<Rightarrow> 'e \<Rightarrow> 'e proc" where
  "boot_fresh raw e = \<lparr>pr_phase = Receiving, pr_node = raw, pr_ev = e, pr_calls = []\<rparr>"

definition boot_start :: "'e evpath \<Rightarrow> int \<Rightarrow> int \<Rightarrow> (int \<Rightarrow> node_state) \<Rightarrow> (int \<Rightarrow> 'e) \<Rightarrow> int \<Rightarrow> 'e proc res" where
  "boot_start E d n raw e0 r =
     (if r \<noteq> 0 then Inr (boot_fresh (raw r) (e0 r)) else boot_proceed E d n r (boot_fresh (raw r) (e0 r)))"

text \<open>
  After the first barrier: the node forks EVPath's communication thread (a failure is only printed), sets the
  actions of its stones and, after the second barrier, splits the communicator by \<open>is_leaf\<close>; the result is the
  state, the calls, and the colour of the split, which also says whether the leaf thread is started.
\<close>

definition boot_finish :: "bool \<Rightarrow> 'e evpath \<Rightarrow> int \<Rightarrow> int \<Rightarrow> int \<Rightarrow> 'e proc \<Rightarrow> ('e proc \<times> bool) res" where
  "boot_finish bm E d n r p =
     bind_r (is_leaf d n r) (\<lambda>leaf.
     bind_r (if leaf then Inr [] else bind_r (created (conn_mgr (pr_node p))) (\<lambda>cm. Inr [CMfork_comm_thread cm])) (\<lambda>fork.
     bind_r (set_stones_actions bm E r leaf (pr_node p) (pr_ev p)) (\<lambda>(st, e, calls).
     Inr (p\<lparr>pr_node := st, pr_ev := e, pr_calls := pr_calls p @ fork @ calls\<rparr>, leaf))))"

section \<open>The system\<close>

type_synonym 'e system = "int \<Rightarrow> 'e proc"

text \<open>A send and the receive that waits for its source and tag meet.\<close>

inductive boot_step :: "'e evpath \<Rightarrow> int \<Rightarrow> int \<Rightarrow> 'e system \<Rightarrow> 'e system \<Rightarrow> bool" for E d n where
  meet: "0 \<le> p \<Longrightarrow> p < n \<Longrightarrow> 0 \<le> c \<Longrightarrow> c < n \<Longrightarrow> pr_phase (s p) = Sending (m # ms) \<Longrightarrow> ms_dest m = c \<Longrightarrow>
     pr_phase (s c) = Receiving \<Longrightarrow> recv_addr_from_parent d c = Inr \<lparr>mr_source = p, mr_tag = ms_tag m\<rparr> \<Longrightarrow>
     boot_received E d n c (ms_buf m) (s c) = Inr pc \<Longrightarrow>
     boot_step E d n s (s(p := (s p)\<lparr>pr_phase := sending ms\<rparr>, c := pc))"

inductive_cases boot_stepE: "boot_step E d n s s1"

inductive boot_run :: "'e evpath \<Rightarrow> int \<Rightarrow> int \<Rightarrow> 'e system \<Rightarrow> nat \<Rightarrow> 'e system \<Rightarrow> bool" for E d n s0 where
  start: "boot_run E d n s0 0 s0"
| step: "boot_run E d n s0 k s \<Longrightarrow> boot_step E d n s s1 \<Longrightarrow> boot_run E d n s0 (Suc k) s1"

definition boot_done :: "int \<Rightarrow> 'e system \<Rightarrow> bool" where
  "boot_done n s \<longleftrightarrow> (\<forall>r. 0 \<le> r \<and> r < n \<longrightarrow> pr_phase (s r) = At_barrier)"

text \<open>All processes have started; where a start fails, the process exits.\<close>

definition boot_init :: "'e evpath \<Rightarrow> int \<Rightarrow> int \<Rightarrow> (int \<Rightarrow> node_state) \<Rightarrow> (int \<Rightarrow> 'e) \<Rightarrow> 'e system \<Rightarrow> bool" where
  "boot_init E d n raw e0 s \<longleftrightarrow> (\<forall>r. 0 \<le> r \<and> r < n \<longrightarrow> boot_start E d n raw e0 r = Inr (s r))"

section \<open>What every process ends with\<close>

text \<open>EVPath works: every process can create its stones, and its address fits.\<close>

definition evpath_ok :: "'e evpath \<Rightarrow> int \<Rightarrow> (int \<Rightarrow> node_state) \<Rightarrow> (int \<Rightarrow> 'e) \<Rightarrow> bool" where
  "evpath_ok E n raw e0 \<longleftrightarrow> (\<forall>r. 0 \<le> r \<and> r < n \<longrightarrow> is_ok (compute_evpath_addr E r (raw r) (e0 r)))"

definition the_boot :: "'e evpath \<Rightarrow> (int \<Rightarrow> node_state) \<Rightarrow> (int \<Rightarrow> 'e) \<Rightarrow> int \<Rightarrow>
    node_state \<times> string \<times> 'e \<times> ev_call list" where
  "the_boot E raw e0 r = projr (compute_evpath_addr E r (raw r) (e0 r))"

abbreviation boot_addr :: "'e evpath \<Rightarrow> (int \<Rightarrow> node_state) \<Rightarrow> (int \<Rightarrow> 'e) \<Rightarrow> int \<Rightarrow> string" where
  "boot_addr E raw e0 r \<equiv> fst (snd (the_boot E raw e0 r))"

text \<open>The node state after the stones of rank \<open>r\<close> have been created, with the address of the parent.\<close>

definition booted :: "'e evpath \<Rightarrow> int \<Rightarrow> int \<Rightarrow> (int \<Rightarrow> node_state) \<Rightarrow> (int \<Rightarrow> 'e) \<Rightarrow> int \<Rightarrow> node_state" where
  "booted E d n raw e0 r =
     (let st = (if 1 < n \<and> children d n r = [] then raw r else fst (the_boot E raw e0 r))
      in if r = 0 then st else st\<lparr>parent_addr := boot_addr E raw e0 (parent d r)\<rparr>)"

lemma compute_parent_addr:
  "compute_evpath_addr E r (st\<lparr>parent_addr := a\<rparr>) e =
    bind_r (compute_evpath_addr E r st e) (\<lambda>(st1, addr, e1, calls). Inr (st1\<lparr>parent_addr := a\<rparr>, addr, e1, calls))"
  by (auto simp: compute_evpath_addr_def Let_def split_beta bind_r_def split: sum.splits)

lemma the_boot_Inr:
  assumes "evpath_ok E n raw e0" "0 \<le> r" "r < n"
  shows "compute_evpath_addr E r (raw r) (e0 r) = Inr (the_boot E raw e0 r)"
  using assms by (auto simp: evpath_ok_def the_boot_def elim!: is_okE)

text \<open>The sends of rank \<open>r\<close>.\<close>

definition boot_sends :: "'e evpath \<Rightarrow> int \<Rightarrow> int \<Rightarrow> (int \<Rightarrow> node_state) \<Rightarrow> (int \<Rightarrow> 'e) \<Rightarrow> int \<Rightarrow> mpi_send list" where
  "boot_sends E d n raw e0 r =
     map (\<lambda>c. \<lparr>ms_buf = boot_addr E raw e0 r, ms_dest = c, ms_tag = 0\<rparr>) (children d n r)"

lemma boot_proceed_ok:
  assumes "evpath_ok E n raw e0" "valid_topo d n" "0 \<le> r" "r < n" "pr_ev p = e0 r"
    and "pr_node p = (if r = 0 then raw r else (raw r)\<lparr>parent_addr := boot_addr E raw e0 (parent d r)\<rparr>)"
  shows "\<exists>p1. boot_proceed E d n r p = Inr p1 \<and> pr_node p1 = booted E d n raw e0 r \<and>
    pr_phase p1 = sending (boot_sends E d n raw e0 r)"
proof (cases "1 < n \<and> children d n r = []")
  case True
  then show ?thesis using assms
    by (simp add: boot_proceed_def is_leaf_eq booted_def boot_sends_def sending_def)
next
  case False
  obtain st addr e calls where b: "the_boot E raw e0 r = (st, addr, e, calls)" by (metis prod_cases4)
  note c = the_boot_Inr [OF assms(1,3,4), unfolded b]
  have "compute_evpath_addr E r (pr_node p) (pr_ev p) =
      Inr (if r = 0 then st else st\<lparr>parent_addr := boot_addr E raw e0 (parent d r)\<rparr>, addr, e, calls)"
    using c assms(5,6) by (cases "r = 0") (simp_all add: compute_parent_addr)
  then show ?thesis using False assms(2-4) b
    by (auto simp: boot_proceed_def is_leaf_eq send_addr_eq booted_def boot_sends_def)
qed

end
