(* ===== verification/Bootstrap_Run.thy ===== *)
theory Bootstrap_Run
  imports Bootstrap
begin

text \<open>
  The start-up cannot get stuck: an invariant of the reachable systems (a process still waits if and only if its
  parent still has to send to it), progress by the least rank that is not at the barrier, and the state
  in which every process arrives there.
\<close>

section \<open>The invariant\<close>

text \<open>The children that a process still has to send to.\<close>

definition due :: "int \<Rightarrow> int \<Rightarrow> 'e system \<Rightarrow> int \<Rightarrow> int list" where
  "due d n s r = (case pr_phase (s r) of
     Receiving \<Rightarrow> children d n r | Sending ms \<Rightarrow> map ms_dest ms | At_barrier \<Rightarrow> [])"

definition waiting :: "'e system \<Rightarrow> int \<Rightarrow> bool" where
  "waiting s r \<longleftrightarrow> pr_phase (s r) = Receiving"

definition boot_inv :: "'e evpath \<Rightarrow> int \<Rightarrow> int \<Rightarrow> (int \<Rightarrow> node_state) \<Rightarrow> (int \<Rightarrow> 'e) \<Rightarrow> 'e system \<Rightarrow> bool" where
  "boot_inv E d n raw e0 s \<longleftrightarrow>
     (\<forall>r. 0 \<le> r \<and> r < n \<longrightarrow>
        (if waiting s r then r \<noteq> 0 \<and> s r = boot_fresh (raw r) (e0 r) else pr_node (s r) = booted E d n raw e0 r) \<and>
        distinct (due d n s r) \<and> set (due d n s r) \<subseteq> set (children d n r) \<and>
        (r \<noteq> 0 \<longrightarrow> (waiting s r \<longleftrightarrow> r \<in> set (due d n s (parent d r)))) \<and>
        (\<forall>ms. pr_phase (s r) = Sending ms \<longrightarrow> ms \<noteq> [] \<and>
          (\<forall>m \<in> set ms. ms_buf m = boot_addr E raw e0 r \<and> ms_tag m = 0)))"

lemma boot_invD:
  assumes "boot_inv E d n raw e0 s" "0 \<le> r" "r < n"
  shows "waiting s r \<Longrightarrow> r \<noteq> 0" "waiting s r \<Longrightarrow> s r = boot_fresh (raw r) (e0 r)"
    "\<not> waiting s r \<Longrightarrow> pr_node (s r) = booted E d n raw e0 r"
    "distinct (due d n s r)" "set (due d n s r) \<subseteq> set (children d n r)"
    "r \<noteq> 0 \<Longrightarrow> waiting s r \<longleftrightarrow> r \<in> set (due d n s (parent d r))"
    "pr_phase (s r) = Sending ms \<Longrightarrow> ms \<noteq> []"
    "pr_phase (s r) = Sending ms \<Longrightarrow> m \<in> set ms \<Longrightarrow> ms_buf m = boot_addr E raw e0 r \<and> ms_tag m = 0"
  using assms unfolding boot_inv_def by (metis (no_types, lifting))+

lemma due_sending: "pr_phase (s r) = sending ms \<Longrightarrow> due d n s r = map ms_dest ms"
  by (cases ms) (simp_all add: due_def sending_def)

lemma due_sends: "pr_phase (s r) = sending (boot_sends E d n raw e0 r) \<Longrightarrow> due d n s r = children d n r"
  by (simp add: due_sending boot_sends_def comp_def)

lemma not_waiting_sending: "pr_phase (s r) = sending ms \<Longrightarrow> \<not> waiting s r"
  by (simp add: waiting_def sending_def split: if_splits)

lemma sending_Sending: "sending ms = Sending ms1 \<Longrightarrow> ms1 = ms \<and> ms \<noteq> []"
  by (simp add: sending_def split: if_splits)

lemma child_rank:
  assumes "valid_topo d n" "0 \<le> p" "c \<in> set (children d n p)"
  shows "0 < c" "c < n" "p < c" "parent d c = p"
proof -
  have d: "0 < d" using assms(1) by (simp add: valid_topo_def)
  show "p < c" "c < n" using child_greater [OF d assms(2,3)] by auto
  then show "0 < c" using assms(2) by simp
  show "parent d c = p" using children_iff_parent [OF d] assms(3) by simp
qed

section \<open>It holds\<close>

lemma boot_init_inv:
  assumes "evpath_ok E n raw e0" "valid_topo d n" "boot_init E d n raw e0 s"
  shows "boot_inv E d n raw e0 s"
  unfolding boot_inv_def
proof (intro allI impI)
  fix r assume r: "0 \<le> r \<and> r < n"
  have n: "0 < n" using assms(2) by (simp add: valid_topo_def)
  have start: "boot_start E d n raw e0 r = Inr (s r)" if "0 \<le> r \<and> r < n" for r
    using assms(3) that by (simp add: boot_init_def)
  have later: "s r = boot_fresh (raw r) (e0 r)" if "0 < r" "r < n" for r
    using start [of r] that by (simp add: boot_start_def)
  obtain p0 where p0: "s 0 = p0" "pr_node p0 = booted E d n raw e0 0" "pr_phase p0 = sending (boot_sends E d n raw e0 0)"
    using boot_proceed_ok [OF assms(1,2) _ n, of "boot_fresh (raw 0) (e0 0)"] start [of 0] n
    by (auto simp: boot_start_def boot_fresh_def)
  have ph0: "pr_phase (s 0) = sending (boot_sends E d n raw e0 0)" using p0 by simp
  have due: "due d n s r = children d n r" if "0 \<le> r" "r < n" for r
  proof (cases "r = 0")
    case True
    then show ?thesis using due_sends [of s 0, OF ph0] by simp
  next
    case False
    then show ?thesis using later [of r] that by (simp add: due_def boot_fresh_def)
  qed
  have w: "waiting s r \<longleftrightarrow> r \<noteq> 0" if "0 \<le> r" "r < n" for r
    using later [of r] not_waiting_sending [of s 0, OF ph0] that by (cases "r = 0") (auto simp: waiting_def boot_fresh_def)
  have par: "r \<in> set (due d n s (parent d r))" if "r \<noteq> 0"
  proof -
    have p: "0 \<le> parent d r" "parent d r < r"
      using parent_less [of d r] assms(2) r that by (auto simp: valid_topo_def)
    then show ?thesis
      using due [of "parent d r"] children_iff_parent [of d r n "parent d r"] assms(2) r
      by (simp add: valid_topo_def)
  qed
  have msgs: "ms \<noteq> [] \<and> (\<forall>m \<in> set ms. ms_buf m = boot_addr E raw e0 r \<and> ms_tag m = 0)"
    if "pr_phase (s r) = Sending ms" for ms
  proof (cases "r = 0")
    case True
    then show ?thesis using that ph0 sending_Sending [of "boot_sends E d n raw e0 0" ms]
      by (auto simp: boot_sends_def)
  next
    case False
    then show ?thesis using that later [of r] r by (simp add: boot_fresh_def)
  qed
  show "(if waiting s r then r \<noteq> 0 \<and> s r = boot_fresh (raw r) (e0 r) else pr_node (s r) = booted E d n raw e0 r) \<and>
        distinct (due d n s r) \<and> set (due d n s r) \<subseteq> set (children d n r) \<and>
        (r \<noteq> 0 \<longrightarrow> (waiting s r \<longleftrightarrow> r \<in> set (due d n s (parent d r)))) \<and>
        (\<forall>ms. pr_phase (s r) = Sending ms \<longrightarrow> ms \<noteq> [] \<and>
          (\<forall>m \<in> set ms. ms_buf m = boot_addr E raw e0 r \<and> ms_tag m = 0))"
    using r w [of r] due [of r] par msgs later [of r] p0 children_distinct [of d n r] by auto
qed

text \<open>The child that the next message of a sender goes to.\<close>

lemma next_child:
  assumes "boot_inv E d n raw e0 s" "evpath_ok E n raw e0" "valid_topo d n" "0 \<le> p" "p < n"
    and "pr_phase (s p) = Sending (m # ms)"
  shows "0 < ms_dest m" "ms_dest m < n" "p < ms_dest m" "parent d (ms_dest m) = p" "waiting s (ms_dest m)"
    "ms_dest m \<notin> ms_dest ` set ms" "set (map ms_dest ms) \<subseteq> set (children d n p)" "distinct (map ms_dest ms)"
    "\<exists>pc. boot_received E d n (ms_dest m) (ms_buf m) (s (ms_dest m)) = Inr pc \<and>
      pr_node pc = booted E d n raw e0 (ms_dest m) \<and> pr_phase pc = sending (boot_sends E d n raw e0 (ms_dest m))"
proof -
  note D = boot_invD [OF assms(1)]
  have due: "due d n s p = ms_dest m # map ms_dest ms" using assms(6) by (simp add: due_def)
  have ch: "ms_dest m \<in> set (children d n p)" using D(5) [OF assms(4,5)] due by simp
  note c = child_rank [OF assms(3,4) ch]
  show "0 < ms_dest m" "ms_dest m < n" "p < ms_dest m" "parent d (ms_dest m) = p" by (fact c)+
  show "ms_dest m \<notin> ms_dest ` set ms" "distinct (map ms_dest ms)" using D(4) [OF assms(4,5)] due by simp_all
  show "set (map ms_dest ms) \<subseteq> set (children d n p)" using D(5) [OF assms(4,5)] due by simp
  have z: "0 \<le> ms_dest m" "ms_dest m \<noteq> 0" using c(1) by simp_all
  show w: "waiting s (ms_dest m)" using D(6) [OF z(1) c(2) z(2)] c(4) due by simp
  have buf: "ms_buf m = boot_addr E raw e0 p" using D(8) [OF assms(4,5,6), of m] by simp
  let ?q = "(s (ms_dest m))\<lparr>pr_node := (pr_node (s (ms_dest m)))\<lparr>parent_addr := ms_buf m\<rparr>\<rparr>"
  have "pr_ev ?q = e0 (ms_dest m)" "pr_node ?q = (raw (ms_dest m))\<lparr>parent_addr := boot_addr E raw e0 (parent d (ms_dest m))\<rparr>"
    using D(2) [OF z(1) c(2) w] buf c(4) by (simp_all add: boot_fresh_def)
  then show "\<exists>pc. boot_received E d n (ms_dest m) (ms_buf m) (s (ms_dest m)) = Inr pc \<and>
      pr_node pc = booted E d n raw e0 (ms_dest m) \<and> pr_phase pc = sending (boot_sends E d n raw e0 (ms_dest m))"
    unfolding boot_received_def using boot_proceed_ok [OF assms(2,3) z(1) c(2), of ?q] z(2) by simp
qed

text \<open>What a meeting of \<open>p\<close> and \<open>c\<close> leaves as it was.\<close>

lemma meet_frame:
  assumes "s1 = s(p := (s p)\<lparr>pr_phase := sending ms\<rparr>, c := pc)" "p \<noteq> c" "pr_phase pc = sending ms1"
    and "map ms_dest ms1 = children d n c" "waiting s c"
  shows "due d n s1 p = map ms_dest ms" "\<not> waiting s1 p" "\<not> waiting s1 c" "due d n s1 c = due d n s c"
    "r \<noteq> p \<Longrightarrow> due d n s1 r = due d n s r" "r \<noteq> p \<Longrightarrow> r \<noteq> c \<Longrightarrow> s1 r = s r \<and> (waiting s1 r \<longleftrightarrow> waiting s r)"
proof -
  show "due d n s1 p = map ms_dest ms" by (rule due_sending) (simp add: assms(1,2))
  show "\<not> waiting s1 p" by (rule not_waiting_sending [of _ _ ms]) (simp add: assms(1,2))
  show "\<not> waiting s1 c" by (rule not_waiting_sending [of _ _ ms1]) (simp add: assms(1,3))
  have "due d n s1 c = map ms_dest ms1" by (rule due_sending) (simp add: assms(1,3))
  then show c: "due d n s1 c = due d n s c" using assms(4,5) by (simp add: due_def waiting_def)
  show "r \<noteq> p \<Longrightarrow> due d n s1 r = due d n s r" using c by (cases "r = c") (simp_all add: due_def assms(1))
  show "r \<noteq> p \<Longrightarrow> r \<noteq> c \<Longrightarrow> s1 r = s r \<and> (waiting s1 r \<longleftrightarrow> waiting s r)" by (simp add: waiting_def assms(1))
qed

lemma meet_msgs:
  "pr_phase q = sending (boot_sends E d n raw e0 r) \<Longrightarrow> pr_phase q = Sending ms \<Longrightarrow>
    ms \<noteq> [] \<and> (\<forall>m \<in> set ms. ms_buf m = boot_addr E raw e0 r \<and> ms_tag m = 0)"
  using sending_Sending [of "boot_sends E d n raw e0 r" ms] by (auto simp: boot_sends_def)

lemma boot_step_inv:
  assumes "boot_step E d n s s1" "boot_inv E d n raw e0 s" "evpath_ok E n raw e0" "valid_topo d n"
  shows "boot_inv E d n raw e0 s1 \<and>
    (\<exists>c. 0 \<le> c \<and> c < n \<and> waiting s c \<and> \<not> waiting s1 c \<and> (\<forall>r. r \<noteq> c \<longrightarrow> 0 \<le> r \<longrightarrow> r < n \<longrightarrow> (waiting s1 r \<longleftrightarrow> waiting s r)))"
  using assms(1)
proof cases
  case (meet p c m ms pc)
  note D = boot_invD [OF assms(2)]
  note N = next_child [OF assms(2-4) meet(2,3,6)]
  have c: "c = ms_dest m" using meet(7) by simp
  have pc: "pr_node pc = booted E d n raw e0 c" "pr_phase pc = sending (boot_sends E d n raw e0 c)"
    using N(9) meet(10) c by auto
  have pc': "p \<noteq> c" using N(3) c by simp
  have kids: "map ms_dest (boot_sends E d n raw e0 c) = children d n c" by (simp add: boot_sends_def comp_def)
  note F = meet_frame [OF meet(1) pc' pc(2) kids N(5) [folded c]]
  have np: "\<not> waiting s p" using meet(6) by (simp add: waiting_def)
  have duep: "due d n s p = c # map ms_dest ms" using meet(6) c by (simp add: due_def)
  have "(if waiting s1 r then r \<noteq> 0 \<and> s1 r = boot_fresh (raw r) (e0 r) else pr_node (s1 r) = booted E d n raw e0 r) \<and>
        distinct (due d n s1 r) \<and> set (due d n s1 r) \<subseteq> set (children d n r) \<and>
        (r \<noteq> 0 \<longrightarrow> (waiting s1 r \<longleftrightarrow> r \<in> set (due d n s1 (parent d r)))) \<and>
        (\<forall>ms. pr_phase (s1 r) = Sending ms \<longrightarrow> ms \<noteq> [] \<and>
          (\<forall>m \<in> set ms. ms_buf m = boot_addr E raw e0 r \<and> ms_tag m = 0))" if r: "0 \<le> r \<and> r < n" for r
  proof -
    note r0 = conjunct1 [OF r] and rn = conjunct2 [OF r]
    have w: "r \<noteq> 0 \<longrightarrow> (waiting s1 r \<longleftrightarrow> r \<in> set (due d n s1 (parent d r)))"
    proof
      assume nz: "r \<noteq> 0"
      note old = D(6) [OF r0 rn nz]
      show "waiting s1 r \<longleftrightarrow> r \<in> set (due d n s1 (parent d r))"
      proof (cases "parent d r = p")
        case True
        have "r \<noteq> p" using parent_less [of d r] assms(4) True r0 nz by (auto simp: valid_topo_def)
        then show ?thesis using True F(1,3,6) old duep N(6) c by (cases "r = c") auto
      next
        case False
        then have "r \<noteq> c" using N(4) c by auto
        then show ?thesis using False F(2,5,6) old np by (cases "r = p") auto
      qed
    qed
    consider "r = p" | "r = c" | "r \<noteq> p" "r \<noteq> c" by blast
    then show ?thesis
    proof cases
      case 1
      have "\<forall>ms'. pr_phase (s1 p) = Sending ms' \<longrightarrow> ms' \<noteq> [] \<and>
          (\<forall>m \<in> set ms'. ms_buf m = boot_addr E raw e0 p \<and> ms_tag m = 0)"
        using sending_Sending [of ms] D(8) [OF meet(2,3,6)] pc' by (fastforce simp: meet(1))
      moreover have "pr_node (s1 p) = booted E d n raw e0 p" using D(3) [OF meet(2,3) np] pc' by (simp add: meet(1))
      ultimately show ?thesis using w 1 F(1,2) N(7,8) by simp
    next
      case 2
      have "s1 c = pc" by (simp add: meet(1))
      then show ?thesis using w 2 F(3,4) pc(1) meet_msgs [OF pc(2)] D(4,5) [OF r0 rn] by simp
    next
      case 3
      then show ?thesis using w F(5) [OF 3(1)] F(6) [OF 3] D(1-5) [OF r0 rn] D(7,8) [OF r0 rn] by metis
    qed
  qed
  moreover have "waiting s1 r \<longleftrightarrow> waiting s r" if "r \<noteq> c" for r
    using F(2,6) np that by (cases "r = p") auto
  moreover have "0 \<le> c" "c < n" "waiting s c" using N(1,2,5) c by simp_all
  ultimately show ?thesis using F(3) unfolding boot_inv_def by blast
qed

section \<open>Progress\<close>

lemma boot_progress:
  assumes "boot_inv E d n raw e0 s" "evpath_ok E n raw e0" "valid_topo d n" "\<not> boot_done n s"
  shows "\<exists>s1. boot_step E d n s s1"
proof -
  note D = boot_invD [OF assms(1)]
  let ?P = "\<lambda>k. int k < n \<and> pr_phase (s (int k)) \<noteq> At_barrier"
  obtain r where "0 \<le> r" "r < n" "pr_phase (s r) \<noteq> At_barrier" using assms(4) by (auto simp: boot_done_def)
  then have "?P (nat r)" by simp
  then obtain k where k: "?P k" "\<forall>i < k. \<not> ?P i" using exists_least_iff [of ?P] by blast
  have kn: "0 \<le> int k" "int k < n" using k(1) by simp_all
  have "\<not> waiting s (int k)"
  proof
    assume w: "waiting s (int k)"
    have nz: "int k \<noteq> 0" using D(1) [OF kn w] .
    have par: "0 \<le> parent d (int k)" "parent d (int k) < int k"
      using parent_less [of d "int k"] assms(3) nz by (auto simp: valid_topo_def)
    then have "\<not> ?P (nat (parent d (int k)))" using k(2) by (metis nat_less_iff nat_int zless_nat_conj)
    then have "pr_phase (s (parent d (int k))) = At_barrier" using par kn(2) by simp
    then show False using D(6) [OF kn nz] w by (simp add: due_def)
  qed
  then obtain ms0 where ms0: "pr_phase (s (int k)) = Sending ms0"
    using k(1) by (cases "pr_phase (s (int k))") (auto simp: waiting_def)
  obtain m ms where "ms0 = m # ms" using D(7) [OF kn ms0] by (cases ms0) auto
  then have ms: "pr_phase (s (int k)) = Sending (m # ms)" using ms0 by simp
  note N = next_child [OF assms(1-3) kn ms]
  obtain pc where pc: "boot_received E d n (ms_dest m) (ms_buf m) (s (ms_dest m)) = Inr pc" using N(9) by blast
  have "recv_addr_from_parent d (ms_dest m) = Inr \<lparr>mr_source = int k, mr_tag = ms_tag m\<rparr>"
    using get_parent_eq [OF assms(3) N(1,2)] N(4) D(8) [OF kn ms, of m] by (simp add: recv_addr_from_parent_def)
  then show ?thesis
    using boot_step.meet [OF kn _ N(2) ms refl _ _ pc] N(1,5) by (auto simp: waiting_def)
qed

section \<open>Runs\<close>

definition waiting_ranks :: "int \<Rightarrow> 'e system \<Rightarrow> int set" where
  "waiting_ranks n s = {r. 0 \<le> r \<and> r < n \<and> waiting s r}"

lemma finite_waiting: "finite (waiting_ranks n s)"
  by (rule finite_subset [of _ "{0..<n}"]) (auto simp: waiting_ranks_def)

lemma step_waiting:
  assumes "boot_step E d n s s1" "boot_inv E d n raw e0 s" "evpath_ok E n raw e0" "valid_topo d n"
  shows "card (waiting_ranks n s) = Suc (card (waiting_ranks n s1))"
proof -
  obtain c where c: "0 \<le> c" "c < n" "waiting s c" "\<not> waiting s1 c"
      "\<forall>r. r \<noteq> c \<longrightarrow> 0 \<le> r \<longrightarrow> r < n \<longrightarrow> (waiting s1 r \<longleftrightarrow> waiting s r)"
    using boot_step_inv [OF assms] by blast
  have "waiting_ranks n s1 = waiting_ranks n s - {c}" "c \<in> waiting_ranks n s"
    using c by (auto simp: waiting_ranks_def)
  then show ?thesis using card.remove [OF finite_waiting, of c n s] by simp
qed

lemma boot_run_inv:
  assumes "boot_run E d n s0 k s" "evpath_ok E n raw e0" "valid_topo d n" "boot_init E d n raw e0 s0"
  shows "boot_inv E d n raw e0 s \<and> k + card (waiting_ranks n s) = nat n - 1"
  using assms(1)
proof (induction rule: boot_run.induct)
  case start
  have i: "boot_inv E d n raw e0 s0" by (rule boot_init_inv [OF assms(2-4)])
  have n: "0 < n" using assms(3) by (simp add: valid_topo_def)
  have "waiting s0 r" if "0 < r" "r < n" for r
  proof -
    have "boot_start E d n raw e0 r = Inr (s0 r)" using assms(4) that by (simp add: boot_init_def)
    then have "s0 r = boot_fresh (raw r) (e0 r)" using that by (simp add: boot_start_def)
    then show ?thesis by (simp add: waiting_def boot_fresh_def)
  qed
  moreover have "\<not> waiting s0 0" using boot_invD(1) [OF i, of 0] n by auto
  ultimately have "waiting_ranks n s0 = {0 <..< n}"
    unfolding waiting_ranks_def by (auto simp: order.strict_iff_order)
  then show ?case using i by simp
next
  case (step k s s1)
  then show ?case using boot_step_inv [OF step.hyps(2) _ assms(2,3)] step_waiting [OF step.hyps(2) _ assms(2,3)]
    by fastforce
qed

lemma boot_waiting_done:
  assumes "boot_inv E d n raw e0 s" "boot_done n s"
  shows "waiting_ranks n s = {}"
  using assms(2) by (auto simp: waiting_ranks_def waiting_def boot_done_def)

lemma boot_run_reaches:
  assumes "valid_topo d n" "evpath_ok E n raw e0" "boot_init E d n raw e0 s0" "boot_run E d n s0 k s"
  shows "\<exists>s1. boot_run E d n s0 (nat n - 1) s1 \<and> boot_done n s1"
  using assms(4)
proof (induction "card (waiting_ranks n s)" arbitrary: k s rule: less_induct)
  case less
  have i: "boot_inv E d n raw e0 s" "k + card (waiting_ranks n s) = nat n - 1"
    using boot_run_inv [OF less.prems assms(2,1,3)] by simp_all
  show ?case
  proof (cases "boot_done n s")
    case True
    then show ?thesis using less.prems i(2) boot_waiting_done [OF i(1) True] by auto
  next
    case False
    then obtain s1 where s1: "boot_step E d n s s1" using boot_progress [OF i(1) assms(2,1)] by blast
    have "card (waiting_ranks n s1) < card (waiting_ranks n s)"
      using step_waiting [OF s1 i(1) assms(2,1)] by simp
    then show ?thesis using less.hyps boot_run.step [OF less.prems s1] by blast
  qed
qed

section \<open>A small tree\<close>

text \<open>An EVPath that numbers its stones.\<close>

definition counting_ev :: "int evpath" where
  "counting_ev = \<lparr>CManager_create = (\<lambda>e. (0, e)), EValloc_stone = (\<lambda>_ e. (e mod 1000, e + 1)),
     contact_string = (\<lambda>_ _. ''AAIAAJ''), EVassoc_split_action = (\<lambda>_ _ e. (0, e))\<rparr>"

definition blank_node :: node_state where
  "blank_node = \<lparr>parent_addr = [], own_addr = [], multi_stone = None, bridge_stone = None, split_stone = None,
     terminal_stone = None, agreg_terminal_stone = None, conn_mgr = None\<rparr>"

definition three_start :: "int system" where
  "three_start r = projr (boot_start counting_ev 2 3 (\<lambda>_. blank_node) (\<lambda>_. 1) r)"

lemma three_ok: "evpath_ok counting_ev 3 (\<lambda>_. blank_node) (\<lambda>_. 1)"
  by (auto simp: evpath_ok_def compute_evpath_addr_def counting_ev_def blank_node_def print_addr_def show_int_def
    decimal.simps Let_def split_beta)

lemma three_init: "boot_init counting_ev 2 3 (\<lambda>_. blank_node) (\<lambda>_. 1) three_start"
proof -
  have t: "valid_topo 2 3" by (simp add: valid_topo_def)
  have "\<exists>p. boot_start counting_ev 2 3 (\<lambda>_. blank_node) (\<lambda>_. 1) r = Inr p" if "0 \<le> r" "r < 3" for r
    using boot_proceed_ok [OF three_ok t, of 0 "boot_fresh blank_node 1"]
    by (cases "r = 0") (auto simp: boot_start_def boot_fresh_def)
  then show ?thesis unfolding boot_init_def three_start_def by force
qed

section \<open>Properties\<close>

text \<open>
  C8. The start-up ends for every number of processes and every degree: in every reachable system that is not
  done a send and a receive can meet, so that no deadlock is possible although the sends block, and after
  the \<open>n - 1\<close> addresses have been delivered every process is at the barrier.
\<close>

theorem startup_never_blocks:
  assumes "valid_topo d n" "evpath_ok E n raw e0" "boot_init E d n raw e0 s0" "boot_run E d n s0 k s"
  shows "(\<not> boot_done n s \<longrightarrow> (\<exists>s1. boot_step E d n s s1)) \<and> (boot_done n s \<longrightarrow> k = nat n - 1) \<and> k \<le> nat n - 1"
proof -
  have i: "boot_inv E d n raw e0 s" "k + card (waiting_ranks n s) = nat n - 1"
    using boot_run_inv [OF assms(4,2,1,3)] by simp_all
  show ?thesis using boot_progress [OF i(1) assms(2,1)] boot_waiting_done [OF i(1)] i(2) by auto
qed

theorem startup_never_blocks_witness:
  "\<exists>s1. boot_step counting_ev 2 3 three_start s1"
proof -
  have "valid_topo 2 3" by (simp add: valid_topo_def)
  moreover have "pr_phase (three_start 1) = Receiving"
    by (simp add: three_start_def boot_start_def boot_fresh_def)
  then have "\<not> boot_done 3 three_start" by (auto simp: boot_done_def intro!: exI [of _ 1])
  ultimately show ?thesis using startup_never_blocks [OF _ three_ok three_init boot_run.start] by blast
qed

text \<open>
  C17. Every process learns the address of its parent: when all processes are at the barrier, the parent's address
  in the state of rank \<open>r\<close> is the own address of the rank above it, whatever the order of the messages.
\<close>

theorem parent_address_delivered:
  assumes "valid_topo d n" "evpath_ok E n raw e0" "boot_init E d n raw e0 s0" "boot_run E d n s0 k s"
    and "boot_done n s" "0 < r" "r < n"
  shows "parent_addr (pr_node (s r)) = own_addr (pr_node (s ((r - 1) div d)))"
proof -
  note i = conjunct1 [OF boot_run_inv [OF assms(4,2,1,3)]]
  have d: "0 < d" using assms(1) by (simp add: valid_topo_def)
  let ?p = "parent d r"
  have p: "0 \<le> ?p" "?p < r" using parent_less [OF d assms(6)] by auto
  have nw: "\<not> waiting s x" if "0 \<le> x" "x < n" for x using assms(5) that by (simp add: boot_done_def waiting_def)
  have "r \<in> set (children d n ?p)" using children_iff_parent [OF d] assms(7) by simp
  then have kids: "children d n ?p \<noteq> []" by auto
  obtain st addr e calls where b: "the_boot E raw e0 ?p = (st, addr, e, calls)" by (metis prod_cases4)
  have pn: "?p < n" using p(2) assms(7) by simp
  have "compute_evpath_addr E ?p (raw ?p) (e0 ?p) = Inr (st, addr, e, calls)"
    using the_boot_Inr [OF assms(2) p(1) pn] b by simp
  then have "own_addr st = addr"
    by (auto simp: compute_evpath_addr_def Let_def split_beta split: if_splits)
  then have "own_addr (pr_node (s ?p)) = addr"
    using boot_invD(3) [OF i p(1) pn nw [OF p(1) pn]] kids b by (simp add: booted_def Let_def)
  moreover have "parent_addr (pr_node (s r)) = addr"
    using boot_invD(3) [OF i _ assms(7) nw] assms(6,7) b by (simp add: booted_def Let_def)
  ultimately show ?thesis by (simp add: parent_def)
qed

theorem parent_address_delivered_witness:
  "\<exists>s. boot_run counting_ev 2 3 three_start 2 s \<and> boot_done 3 s \<and> parent_addr (pr_node (s 1)) = own_addr (pr_node (s 0)) \<and>
    parent_addr (pr_node (s 2)) = own_addr (pr_node (s 0))"
proof -
  have t: "valid_topo 2 3" by (simp add: valid_topo_def)
  obtain s where s: "boot_run counting_ev 2 3 three_start 2 s" "boot_done 3 s"
    using boot_run_reaches [OF t three_ok three_init boot_run.start] by auto
  have "parent_addr (pr_node (s 1)) = own_addr (pr_node (s 0))" "parent_addr (pr_node (s 2)) = own_addr (pr_node (s 0))"
    using parent_address_delivered [OF t three_ok three_init s, of 1]
      parent_address_delivered [OF t three_ok three_init s, of 2] by simp_all
  then show ?thesis using s by blast
qed

end
