(* ===== verification/Wiring.thy ===== *)
theory Wiring
  imports Bootstrap_Run
begin

text \<open>
  The network after the start-up (evp_monitoring.c: \<open>monitoring_initialize\<close> after its first barrier): every
  process sets the actions of its stones, and the bridge of every process but the root ends at the split stone
  of the process above it.
\<close>

section \<open>EVPath\<close>

text \<open>What the code relies on: contact strings are words, and stones are ints.\<close>

definition ev_sane :: "'e evpath \<Rightarrow> bool" where
  "ev_sane E \<longleftrightarrow> (\<forall>cm e. contact_ok (contact_string E cm e) \<and>
     int_min \<le> fst (EValloc_stone E cm e) \<and> fst (EValloc_stone E cm e) \<le> int_max)"

lemma compute_fields:
  assumes "compute_evpath_addr E r st e = Inr (st1, addr, e1, calls)" "ev_sane E"
  obtains cm multi bridge sp terminal contact where "conn_mgr st1 = Some cm" "multi_stone st1 = Some multi"
    "bridge_stone st1 = Some bridge" "split_stone st1 = Some sp" "terminal_stone st1 = Some terminal"
    "r = 0 \<Longrightarrow> agreg_terminal_stone st1 \<noteq> None" "parse_addr addr = Inr (sp, contact)"
proof -
  let ?cm = "fst (CManager_create E e)"
  let ?m = "EValloc_stone E ?cm (snd (CManager_create E e))"
  let ?s = "EValloc_stone E ?cm (snd ?m)"
  obtain e6 where p: "print_addr (fst ?s) (contact_string E ?cm e6) = Inr addr"
    and f: "conn_mgr st1 = Some ?cm" "multi_stone st1 = Some (fst ?m)" "split_stone st1 = Some (fst ?s)"
      "bridge_stone st1 \<noteq> None" "terminal_stone st1 \<noteq> None" "r = 0 \<Longrightarrow> agreg_terminal_stone st1 \<noteq> None"
    using assms(1) by (auto simp: compute_evpath_addr_def Let_def split_beta split: if_splits)
  have "contact_ok (contact_string E ?cm e6)" "int_min \<le> fst ?s" "fst ?s \<le> int_max"
    using assms(2) unfolding ev_sane_def by blast+
  from parse_print [OF this] have "parse_addr addr = Inr (fst ?s, contact_string E ?cm e6)"
    using p by (simp add: print_addr_def Let_def split: if_splits)
  then show thesis using f that by blast
qed

section \<open>The wired tree\<close>

text \<open>The calls that wire the inside of a node that is not a leaf.\<close>

definition wired_inside :: "bool \<Rightarrow> node_state \<Rightarrow> ev_call list \<Rightarrow> bool" where
  "wired_inside bm st calls \<longleftrightarrow> (\<exists>cm multi sp terminal action.
     conn_mgr st = Some cm \<and> multi_stone st = Some multi \<and> split_stone st = Some sp \<and> terminal_stone st = Some terminal \<and>
     calls = [EVassoc_terminal_action cm terminal (metrics_format_list bm) Compute_own_metrics,
              EVaction_add_split_target cm sp action terminal, EVaction_add_split_target cm sp action multi,
              EVassoc_multi_action cm multi (queue_list bm)])"

text \<open>The calls that wire the output: to the results at the root, to the stone \<open>remote\<close> of the parent elsewhere.\<close>

definition wired_output :: "bool \<Rightarrow> bool \<Rightarrow> node_state \<Rightarrow> int option \<Rightarrow> ev_call list \<Rightarrow> bool" where
  "wired_output bm leaf st remote calls \<longleftrightarrow>
     (case remote of
        None \<Rightarrow> (\<exists>cm multi agreg. conn_mgr st = Some cm \<and> multi_stone st = Some multi \<and>
          agreg_terminal_stone st = Some agreg \<and>
          calls = [EVassoc_terminal_action cm agreg (metrics_format_list bm) Final_result,
                   EVstone_set_output cm multi 0 agreg])
      | Some target \<Rightarrow> (\<exists>cm bridge contact multi. conn_mgr st = Some cm \<and> bridge_stone st = Some bridge \<and>
          (if leaf then calls = [CMlisten cm, EVassoc_bridge_action cm bridge contact target]
           else multi_stone st = Some multi \<and>
             calls = [EVassoc_bridge_action cm bridge contact target, EVstone_set_output cm multi 0 bridge])))"

lemma inner_output:
  assumes "conn_mgr st = Some cm" "multi_stone st = Some multi" "bridge_stone st = Some bridge"
    and "r = 0 \<Longrightarrow> agreg_terminal_stone st \<noteq> None" "r \<noteq> 0 \<Longrightarrow> parse_addr (parent_addr st) = Inr (target, contact)"
  shows "\<exists>calls. set_output bm E r False st e = Inr (st, e, calls) \<and>
    wired_output bm False st (if r = 0 then None else Some target) calls"
  using assms by (cases "r = 0") (auto simp: set_output_def wired_output_def)

lemma leaf_output:
  assumes "r \<noteq> 0" "parse_addr (parent_addr st) = Inr (target, contact)"
  shows "\<exists>st1 e1 calls. set_output bm E r True st e = Inr (st1, e1, calls) \<and> wired_output bm True st1 (Some target) calls"
  using assms by (auto simp: set_output_def wired_output_def split_beta Let_def)

lemma inner_inside:
  assumes "conn_mgr st = Some cm" "multi_stone st = Some multi" "split_stone st = Some sp" "terminal_stone st = Some terminal"
  shows "\<exists>e1 calls. set_inner bm E st e = Inr (e1, calls) \<and> wired_inside bm st calls"
  using assms by (auto simp: set_inner_def wired_inside_def split_beta Let_def)

lemma booted_inner:
  assumes "evpath_ok E n raw e0" "ev_sane E" "0 \<le> r" "r < n" "\<not> (1 < n \<and> children d n r = [])"
    and "st = booted E d n raw e0 r"
  shows "\<exists>cm multi bridge sp terminal contact. conn_mgr st = Some cm \<and> multi_stone st = Some multi \<and>
    bridge_stone st = Some bridge \<and> split_stone st = Some sp \<and> terminal_stone st = Some terminal \<and>
    (r = 0 \<longrightarrow> agreg_terminal_stone st \<noteq> None) \<and> parse_addr (boot_addr E raw e0 r) = Inr (sp, contact)"
proof -
  obtain st0 addr e calls where b: "the_boot E raw e0 r = (st0, addr, e, calls)" by (metis prod_cases4)
  have c: "compute_evpath_addr E r (raw r) (e0 r) = Inr (st0, addr, e, calls)"
    using the_boot_Inr [OF assms(1,3,4)] b by simp
  have st: "st = (if r = 0 then st0 else st0\<lparr>parent_addr := boot_addr E raw e0 (parent d r)\<rparr>)"
    unfolding assms(6) booted_def Let_def if_not_P [OF assms(5)] b by simp
  show ?thesis
  proof (rule compute_fields [OF c assms(2)])
    fix cm multi bridge sp terminal contact
    assume f: "conn_mgr st0 = Some cm" "multi_stone st0 = Some multi" "bridge_stone st0 = Some bridge"
      "split_stone st0 = Some sp" "terminal_stone st0 = Some terminal" "r = 0 \<Longrightarrow> agreg_terminal_stone st0 \<noteq> None"
      "parse_addr addr = Inr (sp, contact)"
    show ?thesis
      by (rule exI [of _ cm], rule exI [of _ multi], rule exI [of _ bridge], rule exI [of _ sp],
        rule exI [of _ terminal], rule exI [of _ contact])
        (use f b st in simp)
  qed
qed

text \<open>The stone at which the bridge of rank \<open>r\<close> ends.\<close>

lemma booted_parent:
  assumes "valid_topo d n" "evpath_ok E n raw e0" "ev_sane E" "0 < r" "r < n"
  shows "\<exists>target contact. split_stone (booted E d n raw e0 (parent d r)) = Some target \<and>
    parse_addr (parent_addr (booted E d n raw e0 r)) = Inr (target, contact)"
proof -
  have d: "0 < d" using assms(1) by (simp add: valid_topo_def)
  have p: "0 \<le> parent d r" "parent d r < n" using parent_less [OF d assms(4)] assms(5) by auto
  have "r \<in> set (children d n (parent d r))" using children_iff_parent [OF d] assms(4,5) by simp
  then have "\<not> (1 < n \<and> children d n (parent d r) = [])" by auto
  moreover have "parent_addr (booted E d n raw e0 r) = boot_addr E raw e0 (parent d r)"
    using assms(4) by (simp add: booted_def Let_def)
  ultimately show ?thesis using booted_inner [OF assms(2,3) p _ refl] by fastforce
qed

lemma leaf_not_root:
  assumes "valid_topo d n" "1 < n" "children d n r = []"
  shows "r \<noteq> 0"
proof
  assume "r = 0"
  then have "1 \<in> set (children d n r)"
    using children_iff_parent [of d 1 n 0] assms(1,2) by (simp add: valid_topo_def parent_def)
  then show False using assms(3) by simp
qed

lemma wired_rank:
  assumes "valid_topo d n" "evpath_ok E n raw e0" "ev_sane E" "0 \<le> r" "r < n"
  defines "st \<equiv> booted E d n raw e0 r" and "leaf \<equiv> 1 < n \<and> children d n r = []"
  shows "\<exists>st1 e1 out inside. set_stones_actions bm E r leaf st e = Inr (st1, e1, out @ inside) \<and>
    wired_output bm leaf st1 (if r = 0 then None else split_stone (booted E d n raw e0 (parent d r))) out \<and>
    (r \<noteq> 0 \<longrightarrow> split_stone (booted E d n raw e0 (parent d r)) \<noteq> None) \<and>
    (if leaf then inside = [] else wired_inside bm st1 inside)"
proof (cases leaf)
  case True
  then have r: "r \<noteq> 0" using leaf_not_root [OF assms(1)] by (simp add: leaf_def)
  then obtain target contact where t: "split_stone (booted E d n raw e0 (parent d r)) = Some target"
      "parse_addr (parent_addr st) = Inr (target, contact)"
    using booted_parent [OF assms(1-3) _ assms(5)] assms(4) by (auto simp: st_def)
  obtain st1 e1 out where o: "set_output bm E r True st e = Inr (st1, e1, out)"
      "wired_output bm True st1 (Some target) out" using leaf_output [OF r t(2), where bm = bm and E = E and e = e] by blast
  show ?thesis
    by (rule exI [of _ st1], rule exI [of _ e1], rule exI [of _ out], rule exI [of _ "[]"])
      (use o t(1) True r in \<open>simp add: set_stones_actions_def\<close>)
next
  case False
  then have nl: "\<not> (1 < n \<and> children d n r = [])" by (simp add: leaf_def)
  obtain cm multi bridge sp terminal where f: "conn_mgr st = Some cm" "multi_stone st = Some multi"
      "bridge_stone st = Some bridge" "split_stone st = Some sp" "terminal_stone st = Some terminal"
      "r = 0 \<longrightarrow> agreg_terminal_stone st \<noteq> None"
    using booted_inner [OF assms(2,3,4,5) nl] unfolding st_def by blast
  have "\<exists>target contact. r \<noteq> 0 \<longrightarrow> split_stone (booted E d n raw e0 (parent d r)) = Some target \<and>
      parse_addr (parent_addr st) = Inr (target, contact)"
    using booted_parent [OF assms(1-3) _ assms(5)] assms(4) by (auto simp: st_def)
  then obtain target contact where t: "r \<noteq> 0 \<Longrightarrow> split_stone (booted E d n raw e0 (parent d r)) = Some target"
      "r \<noteq> 0 \<Longrightarrow> parse_addr (parent_addr st) = Inr (target, contact)" by blast
  obtain out where out: "set_output bm E r False st e = Inr (st, e, out)"
      "wired_output bm False st (if r = 0 then None else Some target) out"
    using inner_output [OF f(1-3) _ t(2), where bm = bm and E = E and e = e] f(6) by blast
  obtain e1 inside where ins: "set_inner bm E st e = Inr (e1, inside)" "wired_inside bm st inside"
    using inner_inside [OF f(1,2,4,5), where bm = bm and E = E and e = e] by blast
  have all: "set_stones_actions bm E r leaf st e = Inr (st, e1, out @ inside)"
    using out(1) ins(1) False by (simp add: set_stones_actions_def)
  show ?thesis
    by (rule exI [of _ st], rule exI [of _ e1], rule exI [of _ out], rule exI [of _ inside])
      (use all out(2) ins(2) t(1) False in \<open>cases "r = 0"; simp\<close>)
qed

section \<open>Properties\<close>


lemma three_sane: "ev_sane counting_ev"
proof -
  have "int_min \<le> e mod 1000 \<and> e mod 1000 \<le> int_max" for e :: int
    using pos_mod_bound [of 1000 e] pos_mod_sign [of 1000 e] by linarith
  then show ?thesis by (simp add: ev_sane_def counting_ev_def contact_ok_def isspace_def)
qed


end
