(* ===== verification/Program.thy ===== *)
theory Program
  imports Stones Root_Results
begin

text \<open>
  The ends of the library: how \<open>monitoring_initialize\<close> (evp_monitoring.c) prepares the aggregator and, in the
  BENCHMARKING build, opens the file for the results, and the driver test.c, which reads its arguments, starts
  the monitoring and prints the first results. What a file holds is given as its text, and whether one can be
  created as a function of its name.
\<close>

section \<open>The results file\<close>

text \<open>The conversions \<open>%d\<close>, \<open>%ld\<close> and \<open>%u\<close>; \<open>max_timestamps\<close> is printed as a long.\<close>

definition results_name :: "int \<Rightarrow> int \<Rightarrow> 64 word \<Rightarrow> int \<Rightarrow> 32 word \<Rightarrow> string" where
  "results_name procs d ts nr pulse =
     ''./Monitoring_results/evpath_'' @ show_int procs @ ''nodes_'' @ show_int d @ ''degree_'' @ show_int (sint ts)
       @ ''events_'' @ show_int nr @ ''metrics_'' @ show_int (uint pulse) @ ''pulse''"

text \<open>The root reads the number of metrics, prints the name into a char array and creates the file.\<close>

definition open_results :: "int \<Rightarrow> string option \<Rightarrow> (string \<Rightarrow> bool) \<Rightarrow> 'h metrics_aggregator \<Rightarrow> string res" where
  "open_results procs file creatable ag =
     bind_r (read_number None file) (\<lambda>nr.
     let name = results_name procs (ag_max_degree ag) (max_timestamps ag) nr (pulse_interval ag) in
     if MAX_FILENAME_LENGTH \<le> length name then Inl BufferOverflow
     else if creatable name then Inr name else Inl (ExitCode (-1)))"

text \<open>
  \<open>monitoring_initialize\<close> up to the exchange of the addresses: the aggregator, the name of the results file at the
  root of the BENCHMARKING build, and the table of callbacks.
\<close>

definition boot_prepare :: "bool \<Rightarrow> ('s, htable) hash_ops \<Rightarrow> ('s \<Rightarrow> 's) \<Rightarrow> 's \<Rightarrow> int \<Rightarrow> int \<Rightarrow> string option \<Rightarrow>
    (string \<Rightarrow> bool) \<Rightarrow> 'h \<Rightarrow> 'h metrics_aggregator \<Rightarrow> string \<Rightarrow> 64 word \<Rightarrow> int \<Rightarrow> 32 word \<Rightarrow>
    ('h metrics_aggregator \<times> string option \<times> 's) res" where
  "boot_prepare bm H clear store rank procs file creatable no_table raw a_f ts_nr d pulse =
     bind_r (initialize_metrics_aggregator bm no_table raw a_f ts_nr d pulse) (\<lambda>ag.
     bind_r (if bm \<and> rank = 0 then bind_r (open_results procs file creatable ag) (\<lambda>name. Inr (Some name))
             else Inr None) (\<lambda>results.
     bind_r (init_known_metrics H clear store) (\<lambda>store1.
     Inr (ag, results, store1))))"

section \<open>The driver\<close>

text \<open>
  The arguments: \<open>sscanf\<close> with \<open>%s\<close> into an array of 50 chars, \<open>%PRIu64\<close>, \<open>%d\<close> and \<open>%u\<close>. The calls are not
  checked, so that an argument without a number leaves its variable unwritten. A negative number given for an
  unsigned one wraps.
\<close>

definition scan_uint :: "int \<Rightarrow> int conv \<Rightarrow> int res" where
  "scan_uint bound c =
     (case c of
        Conv v _ \<Rightarrow> if - bound < v \<and> v < bound then Inr (v mod bound) else Inl Overflow
      | _ \<Rightarrow> Inl Uninitialised)"

definition scan_int :: "int conv \<Rightarrow> int res" where
  "scan_int c = (case c of Conv v _ \<Rightarrow> c_int v | _ \<Rightarrow> Inl Uninitialised)"

definition scan_name :: "string \<Rightarrow> string res" where
  "scan_name arg =
     (case scan_s arg of
        Conv w _ \<Rightarrow> if 50 \<le> length w then Inl BufferOverflow else Inr w
      | _ \<Rightarrow> Inl Uninitialised)"

definition main_arguments :: "bool \<Rightarrow> string list \<Rightarrow> (string \<times> 64 word \<times> int \<times> 32 word) res" where
  "main_arguments thread_multiple argv =
     (if \<not> thread_multiple then Inl (ExitCode 1)
      else if length argv < 5 then Inl (ExitCode 0)
      else
        bind_r (scan_name (argv ! 1)) (\<lambda>a_f.
        bind_r (scan_uint (2 ^ 64) (scan_ld (argv ! 2))) (\<lambda>ts_nr.
        bind_r (scan_int (scan_ld (argv ! 3))) (\<lambda>d.
        bind_r (scan_uint (2 ^ 32) (scan_ld (argv ! 4))) (\<lambda>pulse.
        Inr (a_f, word_of_int ts_nr, d, word_of_int pulse))))))"

text \<open>
  The default build then reads the number of metrics itself and allocates as many results; the root fills them
  with \<open>return_results\<close> and prints them. None is a call that waits.
\<close>

definition main_number :: "string option \<Rightarrow> int res" where
  "main_number file =
     (case file of
        None \<Rightarrow> Inl (ExitCode (-1))
      | Some txt \<Rightarrow>
          (case scan_ld txt of
             Eof \<Rightarrow> Inl Uninitialised
           | NoMatch \<Rightarrow> Inl (ExitCode (-1))
           | Conv v _ \<Rightarrow> c_int v))"

definition main_results :: "int \<Rightarrow> string option \<Rightarrow> 'h metrics_aggregator \<times> bool \<Rightarrow>
    (('h metrics_aggregator \<times> bool) \<times> sys_metric list) res option" where
  "main_results rank file s =
     (case main_number file of
        Inl e \<Rightarrow> Some (Inl e)
      | Inr n \<Rightarrow>
          let res = calloc_results n in
          if rank \<noteq> 0 then Some (Inr (s, []))
          else
            (case return_results s (case res of None \<Rightarrow> [] | Some r \<Rightarrow> r) of
               None \<Rightarrow> None
             | Some r \<Rightarrow> Some (bind_r r (\<lambda>(s1, res1). Inr (s1, take (nat n) res1)))))"

section \<open>Lengths of numbers\<close>

text \<open>\<open>digits n\<close> is the length of the decimal representation.\<close>

lemma decimal_length:
  "0 < k \<Longrightarrow> length (decimal n) \<le> k \<longleftrightarrow> n < 10 ^ k"
proof (induction n arbitrary: k rule: less_induct)
  case (less n)
  show ?case
  proof (cases "n < 10")
    case True
    then have "length (decimal n) = 1" by (subst decimal.simps) simp
    moreover have "(10::nat) ^ 1 \<le> 10 ^ k" using less.prems by (intro power_increasing) auto
    ultimately show ?thesis using True less.prems by simp
  next
    case False
    have "decimal n = decimal (n div 10) @ [char_of (48 + n mod 10)]"
      unfolding decimal.simps [of n] if_not_P [OF False] ..
    then have l: "length (decimal n) = Suc (length (decimal (n div 10)))"
      by (simp only: length_append list.size)
    obtain j where j: "k = Suc j" using less.prems by (cases k) auto
    have pos: "0 < length (decimal (n div 10))" using decimal_ok [of "n div 10"] by auto
    have d: "n div 10 < 10 ^ j \<longleftrightarrow> n < 10 ^ k"
      using div_less_iff_less_mult [of 10 n "10 ^ j"] by (simp add: j mult.commute)
    show ?thesis
    proof (cases "j = 0")
      case True
      then show ?thesis using l pos j False by simp
    next
      case j0: False
      then show ?thesis using less.IH [of "n div 10" j] False l j d by simp
    qed
  qed
qed

lemma show_int_length:
  assumes "0 < k" "0 \<le> v" "v < 10 ^ k"
  shows "length (show_int v) \<le> k"
proof -
  have "nat v < 10 ^ k" using assms(2,3) by (simp add: nat_less_iff)
  then show ?thesis using assms decimal_length [OF assms(1)] by (simp add: show_int_def)
qed

definition name_digits :: "int \<Rightarrow> int \<Rightarrow> 64 word \<Rightarrow> int \<Rightarrow> 32 word \<Rightarrow> nat" where
  "name_digits procs d ts nr pulse = length (show_int procs) + length (show_int d) + length (show_int (sint ts)) +
     length (show_int nr) + length (show_int (uint pulse))"

lemma results_name_length: "length (results_name procs d ts nr pulse) = 61 + name_digits procs d ts nr pulse"
  by (simp add: results_name_def name_digits_def)

text \<open>The copy of the results leaves a destination that is too short.\<close>

lemma copy_results_over:
  assumes "length dst < n" "n \<le> length src" "i \<le> length dst"
  shows "copy_results (int n) (int i) src dst = Inl OutOfBounds"
  using assms
proof (induction "length dst - i" arbitrary: i dst)
  case 0
  then show ?case by (simp add: copy_results.simps [of "int n" "int i"] arr_set_def)
next
  case (Suc d)
  then have i: "i < length src" "i < length dst" "i < n" by simp_all
  have "copy_results (int n) (int (Suc i)) src (dst[i := src ! i]) = Inl OutOfBounds"
    by (rule Suc.hyps(1)) (use Suc in simp_all)
  then show ?case using i by (simp add: copy_results.simps [of "int n" "int i"] add.commute)
qed

section \<open>Properties\<close>

lemma open_results_eq:
  assumes "scan_ld txt = Conv nr rest" "long_min \<le> nr" "nr \<le> long_max"
  shows "open_results procs (Some txt) creatable ag =
      (let name = results_name procs (ag_max_degree ag) (max_timestamps ag) nr (pulse_interval ag) in
       if 100 \<le> length name then Inl BufferOverflow else if creatable name then Inr name else Inl (ExitCode (-1)))"
  using assms by (simp add: open_results_def read_number_def c_long_ok)

text \<open>
  The name of the results file fits into its array of 100 chars exactly when the five numbers have at most 38
  digits together, as those of less than 10^7 processes and metrics, a degree below 10^6, less than 10^8 pulses and
  any pulse interval have; beyond that the sprintf overflows the array.
\<close>

theorem results_name_bound:
  assumes "scan_ld txt = Conv nr rest" "long_min \<le> nr" "nr \<le> long_max"
    and "digits = name_digits procs (ag_max_degree ag) (max_timestamps ag) nr (pulse_interval ag)"
  shows "(open_results procs (Some txt) creatable ag = Inl BufferOverflow \<longleftrightarrow> 38 < digits) \<and>
    (0 \<le> procs \<and> procs < 10 ^ 7 \<and> 0 \<le> ag_max_degree ag \<and> ag_max_degree ag < 10 ^ 6 \<and>
      0 \<le> sint (max_timestamps ag) \<and> sint (max_timestamps ag) < 10 ^ 8 \<and> 0 \<le> nr \<and> nr < 10 ^ 7 \<longrightarrow> digits \<le> 38)"
proof (intro conjI impI)
  show "open_results procs (Some txt) creatable ag = Inl BufferOverflow \<longleftrightarrow> 38 < digits"
    by (auto simp: open_results_eq [OF assms(1-3)] results_name_length assms(4) Let_def)
next
  assume *: "0 \<le> procs \<and> procs < 10 ^ 7 \<and> 0 \<le> ag_max_degree ag \<and> ag_max_degree ag < 10 ^ 6 \<and>
      0 \<le> sint (max_timestamps ag) \<and> sint (max_timestamps ag) < 10 ^ 8 \<and> 0 \<le> nr \<and> nr < 10 ^ 7"
  have "uint (pulse_interval ag) < 10 ^ 10" using uint_lt2p [of "pulse_interval ag"] by simp
  then have "length (show_int (uint (pulse_interval ag))) \<le> 10" by (intro show_int_length) simp_all
  moreover have "length (show_int procs) \<le> 7" "length (show_int (ag_max_degree ag)) \<le> 6"
    "length (show_int (sint (max_timestamps ag))) \<le> 8" "length (show_int nr) \<le> 7"
    using * by (simp_all add: show_int_length)
  ultimately show "digits \<le> 38" by (simp add: assms(4) name_digits_def)
qed

theorem results_name_bound_witness:
  "\<not> open_results 1000 (Some ''7 x'') (\<lambda>_. True) (sample_aggregator () \<lparr>max_timestamps := 5, pulse_interval := 9\<rparr>) =
    Inl BufferOverflow"
proof -
  have "scan_ld ''7 x'' = Conv 7 '' x''" by code_simp
  from results_name_bound [OF this _ _ refl, where procs = 1000 and creatable = "\<lambda>_. True"
      and ag = "sample_aggregator () \<lparr>max_timestamps := 5, pulse_interval := 9\<rparr>"]
  show ?thesis by (simp add: sample_aggregator_def)
qed

text \<open>
  What the driver prints at the root: while no result is available it waits, and afterwards it prints the metrics of
  the latest pulse, provided that its own reading of the aliases file and the aggregator agree on their number; an
  aliases file that lists more metrics when the aggregator reads it makes it write beyond its array.
\<close>

theorem driver_prints_results:
  assumes "main_number file = Inr (int n)" "monitoring_results ag = Some rs" "total_metrics ag = int m" "m = length rs"
  shows "main_results 0 file (ag, True) =
    (if \<not> results_available ag then None
     else Some (if n < m then Inl OutOfBounds
       else Inr ((ag\<lparr>results_available := False\<rparr>, False), rs @ replicate (n - m) zero_metric)))"
proof (cases "n < m")
  case True
  have "copy_results (int m) (int 0) rs (replicate n zero_metric) = Inl OutOfBounds"
    using copy_results_over [of "replicate n zero_metric" m rs 0] True assms(4) by simp
  then show ?thesis using assms True by (simp add: main_results_def return_results_def calloc_results_def)
next
  case False
  then have "copy_results (int m) (int 0) rs (replicate n zero_metric) = Inr (rs @ replicate (n - m) zero_metric)"
    using assms(4) by (subst copy_results_ok) simp_all
  then show ?thesis using assms False by (simp add: main_results_def return_results_def calloc_results_def)
qed

theorem driver_prints_results_witness:
  "main_results 0 (Some ''1'') (sample_aggregator () \<lparr>monitoring_results := Some [zero_metric, zero_metric],
      total_metrics := 2, results_available := True\<rparr>, True) = Some (Inl OutOfBounds)"
proof -
  have "scan_ld ''1'' = Conv 1 []" by code_simp
  then have n: "main_number (Some ''1'') = Inr (int 1)" by (simp add: main_number_def c_int_def)
  from driver_prints_results [OF n, where m = 2 and rs = "[zero_metric, zero_metric]"
    and ag = "sample_aggregator () \<lparr>monitoring_results := Some [zero_metric, zero_metric],
      total_metrics := 2, results_available := True\<rparr>"] show ?thesis by simp
qed

end
