(* ===== verification/Uthash_Map.thy ===== *)
theory Uthash_Map
  imports Keyed_Store "HOL-Library.AList"
begin

text \<open>
  What a client of uthash.h may rely on: any sequence of its operations acts on the table as the corresponding
  operations act on an association list, in the order in which the elements have been added.
\<close>

section \<open>The operations of a client\<close>

text \<open>
  \<open>Put\<close> changes the element of a key or adds one, as the counting in metrics_aggregator.c does; \<open>Del\<close> deletes the
  element of a key, if there is one; \<open>Replace\<close> is HASH_REPLACE with a new element.
\<close>

datatype 'a client_op = Put "byte list" 'a | Del "byte list" | Replace "byte list" 'a | Clear

definition client_step :: "'a client_op \<Rightarrow> 'a uth \<Rightarrow> 'a uth res" where
  "client_step op s =
     (case op of
        Put k x \<Rightarrow> bind_r (HASH_FIND s k) (\<lambda>found.
          case found of None \<Rightarrow> uth_insert s k x | Some p \<Rightarrow> Inr (uth_set s p x))
      | Del k \<Rightarrow> bind_r (HASH_FIND s k) (\<lambda>found.
          case found of None \<Rightarrow> Inr s | Some p \<Rightarrow> HASH_DELETE s p)
      | Replace k x \<Rightarrow>
          let (p, s1) = new_elem s x in bind_r (HASH_REPLACE s1 k p) (\<lambda>(s2, replaced). Inr s2)
      | Clear \<Rightarrow> Inr (HASH_CLEAR s))"

fun client_run :: "'a client_op list \<Rightarrow> 'a uth \<Rightarrow> 'a uth res" where
  "client_run [] s = Inr s"
| "client_run (op # ops) s = bind_r (client_step op s) (client_run ops)"

text \<open>The same on an association list.\<close>

definition spec_step :: "'a client_op \<Rightarrow> (byte list \<times> 'a) list \<Rightarrow> (byte list \<times> 'a) list" where
  "spec_step op al =
     (case op of
        Put k x \<Rightarrow> AList.update k x al
      | Del k \<Rightarrow> AList.delete k al
      | Replace k x \<Rightarrow> AList.delete k al @ [(k, x)]
      | Clear \<Rightarrow> [])"

section \<open>The abstraction\<close>

definition entry :: "'a uth \<Rightarrow> ptr \<Rightarrow> byte list \<times> 'a" where
  "entry s x = (hkey (mem s x), payload (mem s x))"

definition abs_list :: "'a uth \<Rightarrow> (byte list \<times> 'a) list \<Rightarrow> bool" where
  "abs_list s al \<longleftrightarrow> (\<exists>xs. uth_inv s xs \<and> map (entry s) xs = al \<and> distinct (map fst al) \<and> length xs < 2 ^ 32)"

text \<open>
  The counters of the table are 32 bits wide: an element can be added when the number of buckets can be doubled and the
  number of elements increased.
\<close>

definition roomy :: "'a uth \<Rightarrow> bool" where
  "roomy s \<longleftrightarrow> head s = None \<or> log2_num_buckets (tbl s) < 31 \<and> unat (HASH_COUNT s) < 2 ^ 32 - 1"

lemma roomyD:
  assumes "roomy s" "uth_inv s xs" "length xs < 2 ^ 32"
  shows "xs = [] \<or> log2_num_buckets (tbl s) < 31" "length xs < 2 ^ 32 - 1"
proof -
  have h: "head s = first xs None" using assms(2) by (simp add: uth_inv_def)
  show "xs = [] \<or> log2_num_buckets (tbl s) < 31" using assms(1) h by (cases xs) (auto simp: roomy_def)
  show "length xs < 2 ^ 32 - 1"
  proof (cases "xs = []")
    case False
    then have "HASH_COUNT s = of_nat (length xs)" using assms(2) h by (cases xs) (simp_all add: HASH_COUNT_def uth_inv_def list_ok_def)
    moreover have "head s \<noteq> None" using h False by (cases xs) auto
    ultimately show ?thesis using assms(1,3) by (auto simp: roomy_def unat_of_nat)
  qed simp
qed

lemma expand_log2:
  "HASH_EXPAND_BUCKETS s = Inr s1 \<Longrightarrow> log2_num_buckets (tbl s1) = Suc (log2_num_buckets (tbl s))"
  by (auto simp: HASH_EXPAND_BUCKETS_def Let_def split: if_splits)

lemma add_to_bkt_log2:
  "HASH_ADD_TO_BKT s i p = Inr s1 \<Longrightarrow> log2_num_buckets (tbl s1) \<le> Suc (log2_num_buckets (tbl s))"
  by (auto simp: HASH_ADD_TO_BKT_def Let_def dest!: expand_log2 split: if_splits)

lemma add_log2:
  assumes "HASH_ADD_KEYPTR s key p = Inr s1" "head s \<noteq> None \<Longrightarrow> log2_num_buckets (tbl s) \<le> 5 + n"
  shows "log2_num_buckets (tbl s1) \<le> 5 + Suc n"
proof (cases "head s")
  case None
  then show ?thesis using assms(1)
    by (auto simp: HASH_ADD_KEYPTR_def Let_def HASH_MAKE_TABLE_def split_beta dest!: add_to_bkt_log2)
next
  case (Some h)
  then show ?thesis using assms
    by (auto simp: HASH_ADD_KEYPTR_def Let_def split_beta split: option.splits dest!: add_to_bkt_log2)
qed

lemma delete_log2:
  "HASH_DELETE s p = Inr s1 \<Longrightarrow> log2_num_buckets (tbl s1) = log2_num_buckets (tbl s)"
  by (auto simp: HASH_DELETE_def HASH_DEL_IN_BKT_def unlist_def Let_def split: if_splits)

lemma find_head: "HASH_FIND s k = Inr (Some p) \<Longrightarrow> head s \<noteq> None"
  by (cases "head s") (auto simp: HASH_FIND_def)

text \<open>Lookup in the list of the elements.\<close>

lemma find_entry:
  assumes "uth_inv s xs" "distinct (map fst (map (entry s) xs))"
  shows "\<exists>r. HASH_FIND s k = Inr r \<and> (case r of None \<Rightarrow> k \<notin> fst ` set (map (entry s) xs)
    | Some p \<Rightarrow> \<exists>ys zs. xs = ys @ p # zs \<and> hkey (mem s p) = k \<and> k \<notin> fst ` set (map (entry s) (ys @ zs)))"
proof -
  obtain r where r: "HASH_FIND s k = Inr r" "case r of None \<Rightarrow> \<forall>x \<in> set xs. hkey (mem s x) \<noteq> k
      | Some x \<Rightarrow> x \<in> set xs \<and> hkey (mem s x) = k"
    using HASH_FIND_ok [OF assms(1)] by blast
  show ?thesis
  proof (cases r)
    case None
    then show ?thesis using r by (auto simp: entry_def)
  next
    case (Some p)
    then have p: "p \<in> set xs" "hkey (mem s p) = k" using r(2) by auto
    then obtain ys zs where xs: "xs = ys @ p # zs" by (meson split_list)
    have "k \<notin> fst ` set (map (entry s) (ys @ zs))" using assms(2) p(2) by (auto simp: xs entry_def)
    then show ?thesis using r(1) Some xs p(2) by auto
  qed
qed

text \<open>Adding an element whose struct has just been allocated.\<close>

lemma insert_abs:
  assumes "uth_inv s xs" "xs = [] \<or> log2_num_buckets (tbl s) < 31" "length xs < 2 ^ 32 - 1"
    and "payload (mem s p) = x" "p < brk s" "p \<notin> set xs" "k \<notin> fst ` set (map (entry s) xs)"
    and "distinct (map fst (map (entry s) xs))"
  shows "\<exists>s1. HASH_ADD_KEYPTR s k p = Inr s1 \<and> abs_list s1 (map (entry s) xs @ [(k, x)])"
proof -
  obtain s1 where s1: "HASH_ADD_KEYPTR s k p = Inr s1" "uth_inv s1 (xs @ [p])"
      "\<forall>y. payload (mem s1 y) = payload (mem s y)" "\<forall>y. hkey (mem s1 y) = (if y = p then k else hkey (mem s y))"
    using HASH_ADD_ok [OF assms(1,6,5,2,3)] by blast
  have "map (entry s1) (xs @ [p]) = map (entry s) xs @ [(k, x)]"
    using s1(3,4) assms(4,6) by (auto simp: entry_def)
  moreover have "distinct (map fst (map (entry s) xs @ [(k, x)]))" using assms(7,8) by auto
  ultimately show ?thesis using s1(1,2) assms(3)
    unfolding abs_list_def by (intro exI [of _ s1] conjI exI [of _ "xs @ [p]"]) auto
qed

lemma fresh_struct:
  assumes "uth_inv s xs" "new_elem s x = (p, s1)"
  shows "uth_inv s1 xs" "map (entry s1) xs = map (entry s) xs" "p \<notin> set xs" "p < brk s1" "payload (mem s1 p) = x"
    "head s1 = head s" "tbl s1 = tbl s"
proof -
  have p: "p = brk s" "s1 = s\<lparr>mem := (mem s)(brk s := (mem s (brk s))\<lparr>payload := x\<rparr>), brk := brk s + 1\<rparr>"
    using assms(2) by (auto simp: new_elem_def)
  show "uth_inv s1 xs" unfolding p(2) by (rule payload_inv [OF assms(1)]) simp
  show n: "p \<notin> set xs" using assms(1) p(1) by (auto simp: uth_inv_def)
  then show "map (entry s1) xs = map (entry s) xs" by (auto simp: p entry_def)
  show "p < brk s1" "payload (mem s1 p) = x" "head s1 = head s" "tbl s1 = tbl s" by (simp_all add: p)
qed

lemma delete_entry:
  assumes "uth_inv s (ys @ p # zs)" "distinct (map fst (map (entry s) (ys @ p # zs)))"
  shows "\<exists>s1. HASH_DELETE s p = Inr s1 \<and> uth_inv s1 (ys @ zs) \<and> brk s1 = brk s \<and> log2_num_buckets (tbl s1) = log2_num_buckets (tbl s) \<and>
    (\<forall>x. entry s1 x = entry s x) \<and>
    map (entry s) (ys @ zs) = AList.delete (hkey (mem s p)) (map (entry s) (ys @ p # zs))"
proof -
  have d: "distinct (ys @ p # zs)" using assms(1) by (simp add: uth_inv_def)
  obtain s1 where s1: "HASH_DELETE s p = Inr s1" "uth_inv s1 (remove1 p (ys @ p # zs))" "brk s1 = brk s"
      "\<forall>x. payload (mem s1 x) = payload (mem s x) \<and> hkey (mem s1 x) = hkey (mem s x)"
    using HASH_DELETE_ok [OF assms(1), of p] by auto
  have "remove1 p (ys @ p # zs) = ys @ zs" using d by (simp add: remove1_append)
  moreover have "AList.delete (hkey (mem s p)) (map (entry s) (ys @ p # zs)) = map (entry s) (ys @ zs)"
  proof -
    have "hkey (mem s p) \<notin> fst ` set (map (entry s) ys) \<union> fst ` set (map (entry s) zs)"
      using assms(2) by (auto simp: entry_def)
    then show ?thesis by (simp add: AList.delete_eq entry_def filter_id_conv image_iff)
  qed
  ultimately show ?thesis using s1 delete_log2 [OF s1(1)] by (auto simp: entry_def)
qed

lemma abs_listI:
  assumes "uth_inv s xs" "map (entry s) xs = al" "distinct (map fst al)" "length xs < 2 ^ 32"
  shows "abs_list s al"
  using assms unfolding abs_list_def by blast

lemma head_nonempty: "uth_inv s xs \<Longrightarrow> head s \<noteq> None \<longleftrightarrow> xs \<noteq> []"
  by (simp add: uth_inv_def)

lemma set_entry:
  assumes "uth_inv s (ys @ p # zs)"
  shows "map (entry (uth_set s p x)) (ys @ p # zs) = map (entry s) ys @ (hkey (mem s p), x) # map (entry s) zs"
proof -
  have "p \<notin> set ys \<union> set zs" using assms by (auto simp: uth_inv_def)
  then show ?thesis by (auto simp: entry_def uth_set_def)
qed

lemma update_split:
  "k \<notin> fst ` set xs \<Longrightarrow> AList.update k v (xs @ (k, w) # zs) = xs @ (k, v) # zs"
  by (induction xs) auto

lemma update_new: "k \<notin> fst ` set al \<Longrightarrow> AList.update k v al = al @ [(k, v)]"
  by (induction al) auto

lemma delete_absent: "k \<notin> fst ` set al \<Longrightarrow> AList.delete k al = al"
  by (simp add: AList.delete_eq filter_id_conv image_iff) force

lemma put_ok:
  assumes "abs_list s al" "roomy s"
  shows "\<exists>s1. client_step (Put k x) s = Inr s1 \<and> abs_list s1 (AList.update k x al)"
proof -
  obtain xs where xs: "uth_inv s xs" "map (entry s) xs = al" "distinct (map fst al)" "length xs < 2 ^ 32"
    using assms(1) by (auto simp: abs_list_def)
  obtain r where r: "HASH_FIND s k = Inr r" "case r of None \<Rightarrow> k \<notin> fst ` set (map (entry s) xs)
      | Some p \<Rightarrow> \<exists>ys zs. xs = ys @ p # zs \<and> hkey (mem s p) = k \<and> k \<notin> fst ` set (map (entry s) (ys @ zs))"
    using find_entry [OF xs(1), of k] xs(2,3) by auto
  show ?thesis
  proof (cases r)
    case None
    then have new: "k \<notin> fst ` set al" using r(2) xs(2) by simp
    obtain p s0 where e: "new_elem s x = (p, s0)" by (metis surj_pair)
    note f = fresh_struct [OF xs(1) e]
    have lg: "xs = [] \<or> log2_num_buckets (tbl s0) < 31" using roomyD(1) [OF assms(2) xs(1,4)] f(7) by simp
    obtain s1 where "HASH_ADD_KEYPTR s0 k p = Inr s1" "abs_list s1 (al @ [(k, x)])"
      using insert_abs [OF f(1) lg roomyD(2) [OF assms(2) xs(1,4)] f(5,4,3), of k] f(2) xs(2,3) new by auto
    then show ?thesis using r(1) None e new by (simp add: client_step_def uth_insert_def update_new)
  next
    case (Some p)
    then obtain ys zs where p: "xs = ys @ p # zs" "hkey (mem s p) = k" "k \<notin> fst ` set (map (entry s) (ys @ zs))"
      using r(2) by auto
    have inv: "uth_inv (uth_set s p x) xs" using payload_inv [OF xs(1), of "brk s" p x] by (simp add: uth_set_def)
    have al: "al = map (entry s) ys @ (k, payload (mem s p)) # map (entry s) zs"
      using xs(2) p(1,2) by (auto simp: entry_def)
    have up: "AList.update k x al = map (entry s) ys @ (k, x) # map (entry s) zs"
      unfolding al using p(3) by (intro update_split) auto
    have "map (entry (uth_set s p x)) xs = AList.update k x al"
      using set_entry [of s ys p zs x] xs(1) p up by simp
    moreover have "distinct (map fst (AList.update k x al))" using xs(3) unfolding up by (simp add: al)
    ultimately have "abs_list (uth_set s p x) (AList.update k x al)"
      by (rule abs_listI [OF inv]) (use xs(4) in simp)
    then show ?thesis using r(1) Some by (simp add: client_step_def)
  qed
qed

lemma del_ok:
  assumes "abs_list s al"
  shows "\<exists>s1. client_step (Del k) s = Inr s1 \<and> abs_list s1 (AList.delete k al)"
proof -
  obtain xs where xs: "uth_inv s xs" "map (entry s) xs = al" "distinct (map fst al)" "length xs < 2 ^ 32"
    using assms(1) by (auto simp: abs_list_def)
  obtain r where r: "HASH_FIND s k = Inr r" "case r of None \<Rightarrow> k \<notin> fst ` set (map (entry s) xs)
      | Some p \<Rightarrow> \<exists>ys zs. xs = ys @ p # zs \<and> hkey (mem s p) = k \<and> k \<notin> fst ` set (map (entry s) (ys @ zs))"
    using find_entry [OF xs(1), of k] xs(2,3) by auto
  show ?thesis
  proof (cases r)
    case None
    then have "AList.delete k al = al" using r(2) xs(2) by (intro delete_absent) simp
    then show ?thesis using r(1) None assms by (simp add: client_step_def)
  next
    case (Some p)
    then obtain ys zs where p: "xs = ys @ p # zs" "hkey (mem s p) = k" using r(2) by auto
    have "distinct (map fst (map (entry s) (ys @ p # zs)))" using xs(2,3) p(1) by blast
    from delete_entry [OF xs(1) [unfolded p(1)] this] obtain s1 where s1: "HASH_DELETE s p = Inr s1" "uth_inv s1 (ys @ zs)"
        "log2_num_buckets (tbl s1) = log2_num_buckets (tbl s)" "\<forall>x. entry s1 x = entry s x"
        "map (entry s) (ys @ zs) = AList.delete k al" using p xs(2) by auto
    have "entry s1 = entry s" using s1(4) by auto
    then have "map (entry s1) (ys @ zs) = AList.delete k al" using s1(5) by simp
    moreover have "distinct (map fst (AList.delete k al))" using xs(3) by (rule distinct_delete)
    ultimately have "abs_list s1 (AList.delete k al)"
      by (rule abs_listI [OF s1(2)]) (use xs(4) p(1) in simp)
    then show ?thesis using r(1) Some s1(1) by (simp add: client_step_def)
  qed
qed

lemma replace_ok:
  assumes "abs_list s al" "roomy s"
  shows "\<exists>s1. client_step (Replace k x) s = Inr s1 \<and> abs_list s1 (AList.delete k al @ [(k, x)])"
proof -
  obtain xs where xs: "uth_inv s xs" "map (entry s) xs = al" "distinct (map fst al)" "length xs < 2 ^ 32"
    using assms(1) by (auto simp: abs_list_def)
  obtain p s0 where e: "new_elem s x = (p, s0)" by (metis surj_pair)
  note f = fresh_struct [OF xs(1) e]
  have lg: "xs = [] \<or> log2_num_buckets (tbl s0) < 31" using roomyD(1) [OF assms(2) xs(1,4)] f(7) by simp
  note few = roomyD(2) [OF assms(2) xs(1,4)]
  obtain r where r: "HASH_FIND s0 k = Inr r" "case r of None \<Rightarrow> k \<notin> fst ` set (map (entry s0) xs)
      | Some p \<Rightarrow> \<exists>ys zs. xs = ys @ p # zs \<and> hkey (mem s0 p) = k \<and> k \<notin> fst ` set (map (entry s0) (ys @ zs))"
    using find_entry [OF f(1), of k] f(2) xs(2,3) by auto
  show ?thesis
  proof (cases r)
    case None
    then have new: "k \<notin> fst ` set al" using r(2) f(2) xs(2) by simp
    obtain s1 where "HASH_ADD_KEYPTR s0 k p = Inr s1" "abs_list s1 (al @ [(k, x)])"
      using insert_abs [OF f(1) lg few f(5,4,3), of k] f(2) xs(2,3) new by auto
    then show ?thesis using r(1) None e new by (simp add: client_step_def HASH_REPLACE_def delete_absent)
  next
    case (Some q)
    then obtain ys zs where q: "xs = ys @ q # zs" "hkey (mem s0 q) = k" using r(2) by auto
    have "distinct (map fst (map (entry s0) (ys @ q # zs)))" using xs(2,3) q(1) f(2) by metis
    from delete_entry [OF f(1) [unfolded q(1)] this] obtain s2 where s2: "HASH_DELETE s0 q = Inr s2" "uth_inv s2 (ys @ zs)"
        "brk s2 = brk s0" "log2_num_buckets (tbl s2) = log2_num_buckets (tbl s0)" "\<forall>x. entry s2 x = entry s0 x"
        "map (entry s0) (ys @ zs) = AList.delete k al" using q xs(2) f(2) by auto
    have "entry s2 = entry s0" using s2(5) by auto
    then have al: "map (entry s2) (ys @ zs) = AList.delete k al" using s2(6) by simp
    have lg2: "ys @ zs = [] \<or> log2_num_buckets (tbl s2) < 31" using lg q(1) s2(4) by simp
    have "payload (mem s2 p) = x" using s2(5) f(5) by (simp add: entry_def)
    moreover have "p < brk s2" "p \<notin> set (ys @ zs)" "length (ys @ zs) < 2 ^ 32 - 1" using f(3,4) s2(3) q(1) few by auto
    moreover have "k \<notin> fst ` set (AList.delete k al)" by (simp add: AList.delete_eq) force
    ultimately obtain s1 where "HASH_ADD_KEYPTR s2 k p = Inr s1" "abs_list s1 (AList.delete k al @ [(k, x)])"
      using insert_abs [OF s2(2) lg2, of p x k, unfolded al] distinct_delete [OF xs(3)] by blast
    then show ?thesis using r(1) Some e s2(1) by (simp add: client_step_def HASH_REPLACE_def)
  qed
qed

lemma clear_ok:
  assumes "abs_list s al"
  shows "\<exists>s1. client_step Clear s = Inr s1 \<and> abs_list s1 []"
proof -
  have "uth_inv (HASH_CLEAR s) []" using assms
    by (auto simp: abs_list_def uth_inv_def HASH_CLEAR_def split: option.split)
  then show ?thesis by (auto simp: client_step_def abs_list_def)
qed

lemma step_refines:
  assumes "abs_list s al" "roomy s"
  shows "\<exists>s1. client_step op s = Inr s1 \<and> abs_list s1 (spec_step op al)"
proof (cases op)
  case (Put k x)
  then show ?thesis using put_ok [OF assms, of k x] by (simp add: spec_step_def)
next
  case (Del k)
  then show ?thesis using del_ok [OF assms(1), of k] by (simp add: spec_step_def)
next
  case (Replace k x)
  then show ?thesis using replace_ok [OF assms, of k x] by (simp add: spec_step_def)
next
  case Clear
  then show ?thesis using clear_ok [OF assms(1)] by (simp add: spec_step_def)
qed

lemma run_refines:
  assumes "abs_list s al" "\<forall>i < length ops. \<forall>s1. client_run (take i ops) s = Inr s1 \<longrightarrow> roomy s1"
  shows "\<exists>s1. client_run ops s = Inr s1 \<and> abs_list s1 (fold spec_step ops al)"
  using assms
proof (induction ops arbitrary: s al)
  case (Cons op ops)
  have "roomy s" using Cons.prems(2) [rule_format, of 0 s] by simp
  then obtain s1 where s1: "client_step op s = Inr s1" "abs_list s1 (spec_step op al)"
    using step_refines [OF Cons.prems(1), of op] by auto
  have "\<forall>i < length ops. \<forall>s2. client_run (take i ops) s1 = Inr s2 \<longrightarrow> roomy s2"
    using Cons.prems(2) [rule_format, of "Suc i" for i] s1(1) by simp
  from Cons.IH [OF s1(2) this] s1(1) show ?case by simp
qed simp

subsection \<open>Room\<close>

text \<open>An element that is added doubles the number of buckets at most once.\<close>

definition adds :: "'a client_op \<Rightarrow> nat" where
  "adds op = (case op of Put _ _ \<Rightarrow> 1 | Replace _ _ \<Rightarrow> 1 | _ \<Rightarrow> 0)"

definition log_le :: "nat \<Rightarrow> 'a uth \<Rightarrow> bool" where
  "log_le n s \<longleftrightarrow> head s \<noteq> None \<longrightarrow> log2_num_buckets (tbl s) \<le> 5 + n"

lemma step_log:
  assumes "client_step op s = Inr s1" "log_le n s"
  shows "log_le (n + adds op) s1"
proof (cases op)
  case (Put k x)
  obtain p s0 where e: "new_elem s x = (p, s0)" by (metis surj_pair)
  then have 0: "head s0 = head s" "tbl s0 = tbl s" by (auto simp: new_elem_def)
  obtain r where r: "HASH_FIND s k = Inr r" "(case r of None \<Rightarrow> uth_insert s k x | Some p \<Rightarrow> Inr (uth_set s p x)) = Inr s1"
    using assms(1) Put by (auto simp: client_step_def)
  show ?thesis
  proof (cases r)
    case None
    then have "HASH_ADD_KEYPTR s0 k p = Inr s1" using r(2) e by (simp add: uth_insert_def)
    from add_log2 [OF this, of n] show ?thesis using assms(2) 0 Put by (simp add: log_le_def adds_def)
  next
    case (Some q)
    then have "head s1 = head s" "tbl s1 = tbl s" using r(2) by (auto simp: uth_set_def)
    then show ?thesis using assms(2) by (auto simp: log_le_def)
  qed
next
  case (Del k)
  then obtain r where r: "HASH_FIND s k = Inr r" "(case r of None \<Rightarrow> Inr s | Some p \<Rightarrow> HASH_DELETE s p) = Inr s1"
    using assms(1) by (auto simp: client_step_def)
  show ?thesis
  proof (cases r)
    case (Some p)
    then show ?thesis using r find_head [of s k p] delete_log2 [of s p s1] assms(2) by (simp add: log_le_def)
  qed (use r(2) assms(2) in \<open>auto simp: log_le_def\<close>)
next
  case (Replace k x)
  obtain p s0 where e: "new_elem s x = (p, s0)" by (metis surj_pair)
  then have 0: "head s0 = head s" "tbl s0 = tbl s" by (auto simp: new_elem_def)
  obtain r s2 where r: "HASH_FIND s0 k = Inr r" "(case r of None \<Rightarrow> Inr s0 | Some q \<Rightarrow> HASH_DELETE s0 q) = Inr s2"
      "HASH_ADD_KEYPTR s2 k p = Inr s1"
    using assms(1) Replace e by (auto simp: client_step_def HASH_REPLACE_def)
  have "log2_num_buckets (tbl s2) \<le> 5 + n" if h: "head s2 \<noteq> None"
  proof (cases r)
    case (Some q)
    then show ?thesis using r(1,2) find_head [of s0 k q] delete_log2 [of s0 q s2] assms(2) 0 by (simp add: log_le_def)
  qed (use h r(2) assms(2) 0 in \<open>simp add: log_le_def\<close>)
  from add_log2 [OF r(3) this] show ?thesis using Replace by (simp add: adds_def log_le_def)
next
  case Clear
  then show ?thesis using assms by (auto simp: client_step_def adds_def log_le_def HASH_CLEAR_def split: option.splits)
qed

lemma spec_step_length: "length (spec_step op al) \<le> length al + adds op"
proof (cases op)
  case (Put k x)
  have "length (AList.update k x al) \<le> Suc (length al)" by (induction al) auto
  then show ?thesis using Put by (simp add: spec_step_def adds_def)
next
  case (Del k)
  then show ?thesis by (simp add: spec_step_def adds_def AList.delete_eq)
next
  case (Replace k x)
  then show ?thesis by (simp add: spec_step_def adds_def AList.delete_eq)
qed (simp add: spec_step_def adds_def)

text \<open>Twenty-five additions always have room, whatever the keys.\<close>

lemma few_adds_roomy:
  "abs_list s al \<Longrightarrow> log_le n s \<Longrightarrow> length al \<le> n \<Longrightarrow> n + sum_list (map adds ops) \<le> 25 \<Longrightarrow>
    \<forall>i < length ops. \<forall>s1. client_run (take i ops) s = Inr s1 \<longrightarrow> roomy s1"
proof (induction ops arbitrary: n s al)
  case (Cons op ops)
  have room: "roomy s"
  proof (cases "head s = None")
    case False
    obtain xs where xs: "uth_inv s xs" "map (entry s) xs = al" using Cons.prems(1) by (auto simp: abs_list_def)
    then have "xs \<noteq> []" "length xs \<le> 25" using False Cons.prems(3,4) by (auto simp: uth_inv_def)
    moreover then have "HASH_COUNT s = of_nat (length xs)" using xs(1) False by (cases xs) (auto simp: HASH_COUNT_def uth_inv_def list_ok_def)
    ultimately show ?thesis using False Cons.prems(2,4) by (simp add: roomy_def log_le_def unat_of_nat)
  qed (simp add: roomy_def)
  obtain s1 where s1: "client_step op s = Inr s1" "abs_list s1 (spec_step op al)"
    using step_refines [OF Cons.prems(1) room, of op] by auto
  have IH: "\<forall>i < length ops. \<forall>s2. client_run (take i ops) s1 = Inr s2 \<longrightarrow> roomy s2"
    by (rule Cons.IH [OF s1(2) step_log [OF s1(1) Cons.prems(2)]])
      (use spec_step_length [of op al] Cons.prems(3,4) in simp_all)
  show ?case
  proof (intro allI impI)
    fix i s2 assume "i < length (op # ops)" "client_run (take i (op # ops)) s = Inr s2"
    then show "roomy s2" using room IH s1(1) by (cases i) auto
  qed
qed simp

lemma empty_abs: "abs_list (uth_empty z) []"
  using uth_empty_rep [of z] by (auto simp: abs_list_def uth_rep_def)

lemma lookup_list:
  "distinct (map fst (map (entry s) xs)) \<Longrightarrow> hkey (mem s p) = k \<Longrightarrow> p \<in> set xs \<Longrightarrow>
    map_of (map (entry s) xs) k = Some (payload (mem s p))"
  by (rule map_of_is_SomeI) (auto simp: entry_def image_iff)

section \<open>Properties\<close>

text \<open>
  C12. The hash table refines an ordered association list: any sequence of client operations on an empty table, as long as no
  operation begins on a table with \<open>2 ^ 31\<close> buckets or \<open>2 ^ 32 - 1\<close> elements, never fails; at the end HASH_FIND finds exactly the keys of the list, with
  their values, HASH_COUNT is the length of the list, the integrity check HASH_FSCK accepts the table, and the elements
  are linked in the order of the list. The bounds are those of the table's 32-bit counters.
\<close>

theorem hash_table_refines_list:
  assumes "\<forall>i < length ops. \<forall>s1. client_run (take i ops) (uth_empty z) = Inr s1 \<longrightarrow> roomy s1"
  shows "\<exists>s xs. client_run ops (uth_empty z) = Inr s \<and> HASH_FSCK s = Inr () \<and>
    HASH_COUNT s = of_nat (length (fold spec_step ops [])) \<and> length (fold spec_step ops []) < 2 ^ 32 \<and>
    (\<forall>k. \<exists>r. HASH_FIND s k = Inr r \<and>
       map_option (\<lambda>p. payload (mem s p)) r = map_of (fold spec_step ops []) k) \<and>
    map (entry s) xs = fold spec_step ops [] \<and> head s = first xs None \<and>
    seg (\<lambda>x. el_prev (mem s x)) (\<lambda>x. el_next (mem s x)) None xs None"
proof -
  obtain s xs where s: "client_run ops (uth_empty z) = Inr s" "uth_inv s xs"
      "map (entry s) xs = fold spec_step ops []" "distinct (map fst (map (entry s) xs))" "length xs < 2 ^ 32"
    using run_refines [OF empty_abs assms] by (auto simp: abs_list_def)
  have find: "\<exists>r. HASH_FIND s k = Inr r \<and> map_option (\<lambda>p. payload (mem s p)) r = map_of (fold spec_step ops []) k" for k
  proof -
    obtain r where r: "HASH_FIND s k = Inr r" "case r of None \<Rightarrow> \<forall>x \<in> set xs. hkey (mem s x) \<noteq> k
        | Some x \<Rightarrow> x \<in> set xs \<and> hkey (mem s x) = k"
      using HASH_FIND_ok [OF s(2)] by blast
    have "map_option (\<lambda>p. payload (mem s p)) r = map_of (map (entry s) xs) k"
    proof (cases r)
      case None
      then have "k \<notin> fst ` set (map (entry s) xs)" using r(2) by (auto simp: entry_def)
      then show ?thesis using None by (simp add: map_of_eq_None_iff [THEN iffD2])
    next
      case (Some p)
      then show ?thesis using r(2) lookup_list [OF s(4), of p k] by simp
    qed
    then show ?thesis using r(1) s(3) by auto
  qed
  have len: "length (fold spec_step ops []) = length xs" using s(3) by (metis length_map)
  have "HASH_COUNT s = of_nat (length xs)" using s(2)
    by (cases xs) (simp_all add: HASH_COUNT_def uth_inv_def list_ok_def)
  moreover have "seg (\<lambda>x. el_prev (mem s x)) (\<lambda>x. el_next (mem s x)) None xs None" using s(2)
    by (cases xs) (simp_all add: uth_inv_def list_ok_def)
  ultimately show ?thesis using s(1-3,5) find len HASH_FSCK_ok [OF s(2)]
    by (intro exI [of _ s] exI [of _ xs]) (simp add: uth_inv_def)
qed

theorem hash_table_refines_list_witness:
  "\<exists>s r. client_run [Put [1] (5 :: int), Put [2] 6, Replace [1] 7, Del [2]] (uth_empty 0) = Inr s \<and>
    HASH_FIND s [1] = Inr r \<and> map_option (\<lambda>p. payload (mem s p)) r = Some 7 \<and> HASH_COUNT s = 1"
proof -
  have "fold spec_step [Put [1] (5 :: int), Put [2] 6, Replace [1] 7, Del [2]] [] = [([1], 7)]"
    by (simp add: spec_step_def AList.delete_eq)
  moreover have "log_le 0 (uth_empty 0)" by (simp add: log_le_def uth_empty_def)
  from few_adds_roomy [OF empty_abs this, of "[Put [1] (5 :: int), Put [2] 6, Replace [1] 7, Del [2]]"]
  have "\<forall>i < length [Put [1] (5 :: int), Put [2] 6, Replace [1] 7, Del [2]]. \<forall>s1.
      client_run (take i [Put [1] (5 :: int), Put [2] 6, Replace [1] 7, Del [2]]) (uth_empty 0) = Inr s1 \<longrightarrow> roomy s1"
    by (simp add: adds_def)
  from hash_table_refines_list [OF this] obtain s where
    "client_run [Put [1] (5 :: int), Put [2] 6, Replace [1] 7, Del [2]] (uth_empty 0) = Inr s"
    "HASH_COUNT s = of_nat (length (fold spec_step [Put [1] (5 :: int), Put [2] 6, Replace [1] 7, Del [2]] []))"
    "\<forall>k. \<exists>r. HASH_FIND s k = Inr r \<and> map_option (\<lambda>p. payload (mem s p)) r =
      map_of (fold spec_step [Put [1] (5 :: int), Put [2] 6, Replace [1] 7, Del [2]] []) k" by blast
  ultimately show ?thesis by (metis (no_types, lifting) length_Cons list.size(3) map_of_Cons_code(2) of_nat_1 One_nat_def)
qed

end
