(* ===== verification/Uthash_Sort.thy ===== *)
theory Uthash_Sort
  imports Keyed_Store "HOL-Library.Multiset"
begin

text \<open>
  HASH_SRT of uthash.h: a bottom-up merge sort of the list in insertion order, on its links in place. The order of
  the elements changes and nothing else: the buckets, and so every lookup, stay as they are. The loops over the
  list take fuel; theory and code agree with a merge sort of lists.
\<close>

section \<open>The macro\<close>

text \<open>
  The variables of the merge of two runs. The comparison sees the fields of the structs outside the handle.
\<close>

record 'a srt =
  sr_p :: "ptr option"
  sr_psize :: u32
  sr_q :: "ptr option"
  sr_qsize :: u32
  sr_list :: "ptr option"
  sr_tail :: "ptr option"
  sr_mem :: "ptr \<Rightarrow> 'a uth_elem"

text \<open>The loop that finds the second run: the size of the first one and the start of the second.\<close>

fun srt_seek :: "nat \<Rightarrow> (ptr \<Rightarrow> 'a uth_elem) \<Rightarrow> u32 \<Rightarrow> ptr option \<Rightarrow> (u32 \<times> ptr option) res" where
  "srt_seek 0 m psize q = Inr (psize, q)"
| "srt_seek (Suc n) m psize None = Inl NullDeref"
| "srt_seek (Suc n) m psize (Some x) =
     (case el_next (m x) of None \<Rightarrow> Inr (psize + 1, None) | Some y \<Rightarrow> srt_seek n m (psize + 1) (Some y))"

definition srt_take_p :: "'a srt \<Rightarrow> (ptr option \<times> 'a srt) res" where
  "srt_take_p st =
     Inr (sr_p st, st\<lparr>sr_p := (case sr_p st of None \<Rightarrow> None | Some x \<Rightarrow> el_next (sr_mem st x)),
            sr_psize := sr_psize st - 1\<rparr>)"

definition srt_take_q :: "'a srt \<Rightarrow> (ptr option \<times> 'a srt) res" where
  "srt_take_q st =
     (case sr_q st of
        None \<Rightarrow> Inl NullDeref
      | Some x \<Rightarrow> Inr (Some x, st\<lparr>sr_q := el_next (sr_mem st x), sr_qsize := sr_qsize st - 1\<rparr>))"

definition srt_choose :: "('a \<Rightarrow> 'a \<Rightarrow> int) \<Rightarrow> 'a srt \<Rightarrow> (ptr option \<times> 'a srt) res" where
  "srt_choose cmp st =
     (if sr_psize st = 0 then srt_take_q st
      else case sr_q st of
        None \<Rightarrow> srt_take_p st
      | Some y \<Rightarrow>
          if sr_qsize st = 0 then srt_take_p st
          else case sr_p st of
            None \<Rightarrow> Inl NullDeref
          | Some x \<Rightarrow> if cmp (payload (sr_mem st x)) (payload (sr_mem st y)) \<le> 0 then srt_take_p st else srt_take_q st)"

definition srt_link :: "ptr option \<Rightarrow> 'a srt \<Rightarrow> 'a srt" where
  "srt_link e st =
     (let m = sr_mem st;
          (l, m1) = (case sr_tail st of
              None \<Rightarrow> (e, m)
            | Some t \<Rightarrow> (sr_list st, m(t := (m t)\<lparr>el_next := e\<rparr>)));
          m2 = (case e of None \<Rightarrow> m1 | Some x \<Rightarrow> m1(x := (m1 x)\<lparr>el_prev := sr_tail st\<rparr>))
      in st\<lparr>sr_list := l, sr_mem := m2, sr_tail := e\<rparr>)"

lemma srt_link_sizes [simp]:
  "sr_psize (srt_link e st) = sr_psize st" "sr_qsize (srt_link e st) = sr_qsize st"
  "sr_p (srt_link e st) = sr_p st" "sr_q (srt_link e st) = sr_q st"
  by (simp_all add: srt_link_def Let_def split_beta)

lemma unat_minus_one: "(w :: u32) \<noteq> 0 \<Longrightarrow> unat (w - 1) < unat w"
  by (simp add: measure_unat)

lemma srt_choose_less:
  assumes "srt_choose cmp st = Inr (e, st1)" "0 < sr_psize st \<or> (0 < sr_qsize st \<and> sr_q st \<noteq> None)"
  shows "unat (sr_psize st1) + unat (sr_qsize st1) < unat (sr_psize st) + unat (sr_qsize st)"
  using assms unat_minus_one [of "sr_psize st"] unat_minus_one [of "sr_qsize st"]
  by (auto simp: srt_choose_def srt_take_p_def srt_take_q_def word_neq_0_conv split: if_splits option.splits)

function srt_merge :: "('a \<Rightarrow> 'a \<Rightarrow> int) \<Rightarrow> 'a srt \<Rightarrow> 'a srt res" where
  "srt_merge cmp st =
     (if 0 < sr_psize st \<or> (0 < sr_qsize st \<and> sr_q st \<noteq> None)
      then bind_r (srt_choose cmp st) (\<lambda>r. srt_merge cmp (srt_link (fst r) (snd r)))
      else Inr st)"
  by pat_completeness auto
termination
  by (relation "measure (\<lambda>(cmp, st). unat (sr_psize st) + unat (sr_qsize st))") (auto dest: srt_choose_less)

declare srt_merge.simps [simp del]

text \<open>One pass over the list with runs of the size \<open>w\<close>; \<open>nm\<close> counts the merges.\<close>

fun srt_pass :: "nat \<Rightarrow> ('a \<Rightarrow> 'a \<Rightarrow> int) \<Rightarrow> u32 \<Rightarrow> 'a srt \<Rightarrow> u32 \<Rightarrow> ('a srt \<times> u32) res" where
  "srt_pass 0 cmp w st nm = (if sr_p st = None then Inr (st, nm) else Inl OutOfFuel)"
| "srt_pass (Suc fuel) cmp w st nm =
     (if sr_p st = None then Inr (st, nm)
      else
        bind_r (srt_seek (unat w) (sr_mem st) 0 (sr_p st)) (\<lambda>(psize, q).
        bind_r (srt_merge cmp (st\<lparr>sr_psize := psize, sr_q := q, sr_qsize := w\<rparr>)) (\<lambda>st1.
        srt_pass fuel cmp w (st1\<lparr>sr_p := sr_q st1\<rparr>) (nm + 1))))"

text \<open>The last element put out ends the list.\<close>

definition srt_end :: "'a srt \<Rightarrow> (ptr \<Rightarrow> 'a uth_elem)" where
  "srt_end st = (case sr_tail st of
     None \<Rightarrow> sr_mem st
   | Some t \<Rightarrow> (sr_mem st)(t := (sr_mem st t)\<lparr>el_next := None\<rparr>))"

lemma srt_end_q [simp]: "srt_end (st\<lparr>sr_q := v\<rparr>) = srt_end st"
  by (cases "sr_tail st") (simp_all add: srt_end_def)

text \<open>The passes, until one has merged at most once: the first element, the last one and the memory.\<close>

fun srt_loop :: "nat \<Rightarrow> nat \<Rightarrow> ('a \<Rightarrow> 'a \<Rightarrow> int) \<Rightarrow> u32 \<Rightarrow> ptr option \<Rightarrow> (ptr \<Rightarrow> 'a uth_elem) \<Rightarrow>
    (ptr option \<times> ptr option \<times> (ptr \<Rightarrow> 'a uth_elem)) res" where
  "srt_loop 0 n cmp w l m = Inl OutOfFuel"
| "srt_loop (Suc fuel) n cmp w l m =
     bind_r (srt_pass n cmp w \<lparr>sr_p = l, sr_psize = 0, sr_q = None, sr_qsize = 0, sr_list = None, sr_tail = None,
         sr_mem = m\<rparr> 0) (\<lambda>(st, nm).
     if nm \<le> 1 then Inr (sr_list st, sr_tail st, srt_end st)
     else srt_loop fuel n cmp (w * 2) (sr_list st) (srt_end st))"

definition HASH_SRT :: "('a \<Rightarrow> 'a \<Rightarrow> int) \<Rightarrow> 'a uth \<Rightarrow> 'a uth res" where
  "HASH_SRT cmp s =
     (case head s of
        None \<Rightarrow> Inr s
      | Some h \<Rightarrow>
          bind_r (srt_loop (brk s + 1) (brk s) cmp 1 (Some h) (mem s)) (\<lambda>(l, t, m).
          Inr (s\<lparr>head := l, mem := m, tbl := (tbl s)\<lparr>tail := t\<rparr>\<rparr>)))"

section \<open>Merge sort of lists\<close>

fun lmerge :: "('b \<Rightarrow> 'b \<Rightarrow> bool) \<Rightarrow> 'b list \<Rightarrow> 'b list \<Rightarrow> 'b list" where
  "lmerge le [] ys = ys"
| "lmerge le (x # xs) [] = x # xs"
| "lmerge le (x # xs) (y # ys) = (if le x y then x # lmerge le xs (y # ys) else y # lmerge le (x # xs) ys)"

lemma lmerge_Nil2 [simp]: "lmerge le xs [] = xs"
  by (cases xs) simp_all

lemma lmerge_mset: "mset (lmerge le xs ys) = mset xs + mset ys"
  by (induction le xs ys rule: lmerge.induct) simp_all

lemma lmerge_length [simp]: "length (lmerge le xs ys) = length xs + length ys"
  by (metis lmerge_mset size_union size_mset)

lemma lmerge_set: "set (lmerge le xs ys) = set xs \<union> set ys"
  by (metis lmerge_mset set_mset_union set_mset_mset)

definition total_le :: "('b \<Rightarrow> 'b \<Rightarrow> bool) \<Rightarrow> bool" where
  "total_le le \<longleftrightarrow> (\<forall>x y. le x y \<or> le y x) \<and> (\<forall>x y z. le x y \<longrightarrow> le y z \<longrightarrow> le x z)"

lemma lmerge_sorted:
  assumes "total_le le" "sorted_wrt le xs" "sorted_wrt le ys"
  shows "sorted_wrt le (lmerge le xs ys)"
  using assms
proof (induction le xs ys rule: lmerge.induct)
  case (3 le x xs y ys)
  have tot: "le x y \<or> le y x" and trans: "\<And>a b c. le a b \<Longrightarrow> le b c \<Longrightarrow> le a c"
    using 3(3) unfolding total_le_def by blast+
  show ?case
  proof (cases "le x y")
    case True
    then have "\<forall>z \<in> set xs \<union> set (y # ys). le x z" using 3(4,5) trans by auto
    then show ?thesis using 3 True by (simp add: lmerge_set)
  next
    case False
    then have "\<forall>z \<in> set (x # xs) \<union> set ys. le y z" using 3(4,5) trans tot by auto
    then show ?thesis using 3 False by (simp add: lmerge_set)
  qed
qed simp_all

text \<open>Elements that are equal for the order keep their order.\<close>

lemma lmerge_stable:
  assumes "total_le le" "sorted_wrt le xs" "\<forall>a b. P a \<longrightarrow> P b \<longrightarrow> le a b"
  shows "filter P (lmerge le xs ys) = filter P xs @ filter P ys"
  using assms
proof (induction le xs ys rule: lmerge.induct)
  case (3 le x xs y ys)
  show ?case
  proof (cases "le x y")
    case True
    then show ?thesis using 3 by simp
  next
    case False
    have "\<not> P a" if "P y" "a \<in> set (x # xs)" for a
    proof
      assume "P a"
      then have "le a y" using that(1) 3(5) by blast
      moreover have "le x a" using that(2) 3(3,4) by (auto simp: total_le_def)
      ultimately show False using False 3(3) unfolding total_le_def by blast
    qed
    then have "P y \<Longrightarrow> filter P (x # xs) = []" by (simp add: filter_empty_conv)
    then show ?thesis using 3 False by (cases "P y") auto
  qed
qed simp_all

function lpass :: "('b \<Rightarrow> 'b \<Rightarrow> bool) \<Rightarrow> nat \<Rightarrow> 'b list \<Rightarrow> 'b list" where
  "lpass le w xs =
     (if xs = [] \<or> w = 0 then xs
      else lmerge le (take w xs) (take w (drop w xs)) @ lpass le w (drop (w + w) xs))"
  by pat_completeness auto
termination
  by (relation "measure (\<lambda>(le, w, xs). length xs)") auto

declare lpass.simps [simp del]

lemma lpass_mset: "mset (lpass le w xs) = mset xs"
proof (induction le w xs rule: lpass.induct)
  case (1 le w xs)
  show ?case
  proof (cases "xs = [] \<or> w = 0")
    case False
    have "take w xs @ take w (drop w xs) @ drop (w + w) xs = xs" by (metis append_take_drop_id drop_drop add.commute)
    then have "mset xs = mset (take w xs @ take w (drop w xs) @ drop (w + w) xs)" by metis
    then show ?thesis using 1 False by (simp add: lpass.simps [of le w xs] lmerge_mset)
  qed (simp add: lpass.simps)
qed

text \<open>Every run of the size \<open>w\<close> is sorted.\<close>

function runs :: "('b \<Rightarrow> 'b \<Rightarrow> bool) \<Rightarrow> nat \<Rightarrow> 'b list \<Rightarrow> bool" where
  "runs le w xs \<longleftrightarrow> (if xs = [] \<or> w = 0 then True else sorted_wrt le (take w xs) \<and> runs le w (drop w xs))"
  by pat_completeness auto
termination
  by (relation "measure (\<lambda>(le, w, xs). length xs)") (auto intro!: diff_less)

declare runs.simps [simp del]

lemma runs_one: "runs le 1 xs"
  by (induction xs) (simp_all add: runs.simps)

lemma runs_unfold: "xs \<noteq> [] \<Longrightarrow> 0 < w \<Longrightarrow> runs le w xs \<longleftrightarrow> sorted_wrt le (take w xs) \<and> runs le w (drop w xs)"
  by (simp add: runs.simps [of le w xs])

lemma runs_parts:
  assumes "runs le w xs" "0 < w"
  shows "sorted_wrt le (take w xs)" "sorted_wrt le (take w (drop w xs))" "runs le w (drop (w + w) xs)"
proof -
  show t: "sorted_wrt le (take w xs)" using assms runs_unfold [of xs w le] by (cases "xs = []") auto
  have d: "runs le w (drop w xs)" using assms runs_unfold [of xs w le] by (cases "xs = []") auto
  then show "sorted_wrt le (take w (drop w xs))" "runs le w (drop (w + w) xs)"
    using assms(2) runs_unfold [of "drop w xs" w le] by (cases "drop w xs = []"; auto)+
qed

lemma lpass_runs:
  assumes "total_le le"
  shows "runs le w xs \<Longrightarrow> 0 < w \<Longrightarrow> runs le (2 * w) (lpass le w xs)"
proof (induction "length xs" arbitrary: xs rule: less_induct)
  case less
  show ?case
  proof (cases "xs = []")
    case True
    then show ?thesis by (simp add: lpass.simps runs.simps)
  next
    case False
    let ?M = "lmerge le (take w xs) (take w (drop w xs))" and ?R = "lpass le w (drop (w + w) xs)"
    note parts = runs_parts [OF less.prems]
    have M: "sorted_wrt le ?M" by (rule lmerge_sorted [OF assms parts(1,2)])
    have R: "runs le (2 * w) ?R"
      by (rule less.hyps) (use False less.prems parts(3) in \<open>auto intro!: diff_less\<close>)
    have lp: "lpass le w xs = ?M @ ?R" using False less.prems(2) by (simp add: lpass.simps [of le w xs])
    have td: "take (2 * w) (?M @ ?R) = ?M \<and> drop (2 * w) (?M @ ?R) = ?R"
    proof (cases "2 * w \<le> length xs")
      case True
      then have "length ?M = 2 * w" by simp
      then show ?thesis by simp
    next
      case short: False
      then have "?R = []" by (simp add: lpass.simps)
      then show ?thesis using short by simp
    qed
    have ne: "?M @ ?R \<noteq> []"
    proof -
      have "0 < length ?M" unfolding lmerge_length using False less.prems(2) by simp
      then show ?thesis by (metis length_greater_0_conv Nil_is_append_conv)
    qed
    have "0 < 2 * w" using less.prems(2) by simp
    from runs_unfold [OF ne this] show ?thesis unfolding lp td [THEN conjunct1] td [THEN conjunct2] using M R by blast
  qed
qed

lemma lpass_stable:
  assumes "total_le le" "\<forall>a b. P a \<longrightarrow> P b \<longrightarrow> le a b"
  shows "runs le w xs \<Longrightarrow> 0 < w \<Longrightarrow> filter P (lpass le w xs) = filter P xs"
proof (induction "length xs" arbitrary: xs rule: less_induct)
  case less
  show ?case
  proof (cases "xs = []")
    case True
    then show ?thesis by (simp add: lpass.simps)
  next
    case False
    note parts = runs_parts [OF less.prems]
    have R: "filter P (lpass le w (drop (w + w) xs)) = filter P (drop (w + w) xs)"
      by (rule less.hyps) (use False less.prems parts(3) in \<open>auto intro!: diff_less\<close>)
    have "filter P (lpass le w xs) = filter P (take w xs @ take w (drop w xs) @ drop (w + w) xs)"
      using False less.prems(2) R lmerge_stable [OF assms(1) parts(1) assms(2)]
      by (simp add: lpass.simps [of le w xs])
    also have "take w xs @ take w (drop w xs) @ drop (w + w) xs = xs"
      by (metis append_take_drop_id drop_drop add.commute)
    finally show ?thesis .
  qed
qed

lemma runs_sorted:
  assumes "runs le w xs" "0 < w" "length xs \<le> w"
  shows "sorted_wrt le xs"
  using runs_parts(1) [OF assms(1,2)] assms(3) by simp

text \<open>The number of merges of a pass.\<close>

function merges :: "nat \<Rightarrow> nat \<Rightarrow> nat" where
  "merges w n = (if n = 0 \<or> w = 0 then 0 else Suc (merges w (n - w - w)))"
  by pat_completeness auto
termination
  by (relation "measure (\<lambda>(w, n). n)") auto

declare merges.simps [simp del]

lemma merges_le: "merges w n \<le> n"
  by (induction w n rule: merges.induct) (subst merges.simps, fastforce)

lemma merges_one: "0 < w \<Longrightarrow> merges w n \<le> 1 \<longleftrightarrow> n \<le> 2 * w"
  by (subst merges.simps, subst merges.simps) auto

section \<open>The links of the runs\<close>

text \<open>A list linked by its next pointers alone, with \<open>q\<close> after its end.\<close>

fun path :: "(ptr \<Rightarrow> 'a uth_elem) \<Rightarrow> ptr list \<Rightarrow> ptr option \<Rightarrow> bool" where
  "path m [] q \<longleftrightarrow> True"
| "path m (x # xs) q \<longleftrightarrow> el_next (m x) = first xs q \<and> path m xs q"

lemma path_cong: "\<forall>x \<in> set xs. el_next (m' x) = el_next (m x) \<Longrightarrow> path m' xs q \<longleftrightarrow> path m xs q"
  by (induction xs) auto

lemma path_upd [simp]:
  "path (m(e := (m e)\<lparr>el_prev := v\<rparr>)) xs q \<longleftrightarrow> path m xs q"
  "e \<notin> set xs \<Longrightarrow> path (m(e := (m e)\<lparr>el_next := w\<rparr>)) xs q \<longleftrightarrow> path m xs q"
  "e \<notin> set xs \<Longrightarrow> path (m(e := y)) xs q \<longleftrightarrow> path m xs q"
  by (rule path_cong; auto)+

lemma path_append: "path m (xs @ ys) q \<longleftrightarrow> path m xs (first ys q) \<and> path m ys q"
  by (induction xs) (auto simp: first_append)

lemma seg_path: "seg pv (\<lambda>x. el_next (m x)) p xs q \<Longrightarrow> path m xs q"
  by (induction xs arbitrary: p) auto

abbreviation linked_out :: "(ptr \<Rightarrow> 'a uth_elem) \<Rightarrow> ptr list \<Rightarrow> ptr option \<Rightarrow> bool" where
  "linked_out m xs q \<equiv> seg (\<lambda>x. el_prev (m x)) (\<lambda>x. el_next (m x)) None xs q"

lemma linked_out_end:
  assumes "linked_out m (xs @ [y]) z" "y \<notin> set xs"
    and "\<forall>x \<in> set xs. el_prev (m' x) = el_prev (m x) \<and> el_next (m' x) = el_next (m x)"
    and "el_prev (m' y) = el_prev (m y)"
  shows "linked_out m' (xs @ [y]) (el_next (m' y))"
proof -
  have "linked_out m xs (Some y)" "el_prev (m y) = final xs None" using assms(1) by (simp_all add: seg_append)
  moreover have "linked_out m' xs (Some y) \<longleftrightarrow> linked_out m xs (Some y)" by (rule seg_cong) (use assms(3) in auto)
  ultimately show ?thesis using assms(4) by (simp add: seg_append)
qed

text \<open>What the sort does not touch.\<close>

definition same_data :: "(ptr \<Rightarrow> 'a uth_elem) \<Rightarrow> (ptr \<Rightarrow> 'a uth_elem) \<Rightarrow> bool" where
  "same_data m m' \<longleftrightarrow> (\<forall>x. hh_prev (m' x) = hh_prev (m x) \<and> hh_next (m' x) = hh_next (m x) \<and>
     hkey (m' x) = hkey (m x) \<and> hashv (m' x) = hashv (m x) \<and> payload (m' x) = payload (m x))"

lemma same_data_refl [simp]: "same_data m m"
  by (simp add: same_data_def)

lemma same_data_trans: "same_data m m1 \<Longrightarrow> same_data m1 m2 \<Longrightarrow> same_data m m2"
  by (simp add: same_data_def)

lemma same_data_links [simp]:
  "same_data m (m'(x := (m' x)\<lparr>el_next := v\<rparr>)) \<longleftrightarrow> same_data m m'"
  "same_data m (m'(x := (m' x)\<lparr>el_prev := v\<rparr>)) \<longleftrightarrow> same_data m m'"
  by (auto simp: same_data_def)

lemma seek_ok:
  "path m xs None \<Longrightarrow> xs \<noteq> [] \<Longrightarrow>
    srt_seek n m c (first xs None) = Inr (c + of_nat (min n (length xs)), first (drop n xs) None)"
proof (induction n arbitrary: xs c)
  case 0
  then show ?case by simp
next
  case (Suc n)
  then obtain x ys where xs: "xs = x # ys" by (cases xs) auto
  show ?case
  proof (cases ys)
    case Nil
    then show ?thesis using Suc.prems by (simp add: xs)
  next
    case (Cons y zs)
    have "srt_seek n m (c + 1) (first ys None) = Inr (c + 1 + of_nat (min n (length ys)), first (drop n ys) None)"
      by (rule Suc.IH) (use Suc.prems xs Cons in simp_all)
    then show ?thesis using Suc.prems by (simp add: xs Cons)
  qed
qed

text \<open>
  While two runs are merged: \<open>P\<close> is what is left of the first, \<open>Q\<close> what is left of the list behind it, and \<open>out\<close>
  what has been put out.
\<close>

definition srt_inv :: "(ptr \<Rightarrow> 'a uth_elem) \<Rightarrow> 'a srt \<Rightarrow> ptr list \<Rightarrow> ptr list \<Rightarrow> ptr list \<Rightarrow> bool" where
  "srt_inv m0 st P Q out \<longleftrightarrow> distinct (out @ P @ Q) \<and>
     (P \<noteq> [] \<longrightarrow> sr_p st = first P None) \<and> (\<exists>z. path (sr_mem st) P z) \<and>
     sr_q st = first Q None \<and> path (sr_mem st) Q None \<and>
     sr_list st = first out None \<and> sr_tail st = final out None \<and> (\<exists>z. linked_out (sr_mem st) out z) \<and>
     same_data m0 (sr_mem st) \<and> (\<forall>x. x \<notin> set (out @ P @ Q) \<longrightarrow> sr_mem st x = m0 x)"

text \<open>Putting out an element that is not in the runs any more.\<close>

lemma srt_link_ok:
  assumes "distinct (out @ e # P @ Q)" "(P \<noteq> [] \<longrightarrow> sr_p st = first P None)" "\<exists>z. path (sr_mem st) P z"
    and "sr_q st = first Q None" "path (sr_mem st) Q None" "sr_list st = first out None" "sr_tail st = final out None"
    and "\<exists>z. linked_out (sr_mem st) out z" "same_data m0 (sr_mem st)"
    and "\<forall>x. x \<notin> set (out @ e # P @ Q) \<longrightarrow> sr_mem st x = m0 x"
  shows "srt_inv m0 (srt_link (Some e) st) P Q (out @ [e])"
proof (cases out rule: rev_cases)
  case Nil
  let ?m = "(sr_mem st)(e := (sr_mem st e)\<lparr>el_prev := None\<rparr>)"
  have st1: "srt_link (Some e) st = st\<lparr>sr_list := Some e, sr_mem := ?m, sr_tail := Some e\<rparr>"
    using assms(7) by (simp add: srt_link_def Nil Let_def)
  show ?thesis using assms by (auto simp: srt_inv_def st1 Nil)
next
  case (snoc os t)
  define m1 where "m1 = (sr_mem st)(t := (sr_mem st t)\<lparr>el_next := Some e\<rparr>)"
  define m where "m = m1(e := (m1 e)\<lparr>el_prev := Some t\<rparr>)"
  have te: "t \<noteq> e" using assms(1) snoc by auto
  have st1: "srt_link (Some e) st = st\<lparr>sr_mem := m, sr_tail := Some e\<rparr>"
    using assms(7) by (simp add: srt_link_def snoc Let_def m_def m1_def)
  have p: "path m P z = path (sr_mem st) P z" "path m Q z = path (sr_mem st) Q z" for z
    using assms(1) snoc by (auto simp: m_def m1_def)
  have sd: "same_data m0 m" using assms(9) by (simp only: m_def m1_def same_data_links)
  obtain z where "linked_out (sr_mem st) (os @ [t]) z" using assms(8) snoc by blast
  then have "linked_out m (os @ [t]) (el_next (m t))"
    by (rule linked_out_end) (use assms(1) snoc in \<open>auto simp: m_def m1_def\<close>)
  moreover have "el_next (m t) = Some e" "el_prev (m e) = Some t" using te by (simp_all add: m_def m1_def)
  ultimately have "linked_out m (out @ [e]) (el_next (m e))" by (simp add: snoc seg_append)
  moreover have "sr_list st = first (out @ [e]) None" using assms(6) snoc by (simp add: first_append)
  moreover have "\<forall>x. x \<notin> set ((out @ [e]) @ P @ Q) \<longrightarrow> m x = m0 x"
    using assms(10) snoc by (auto simp: m_def m1_def)
  moreover have "distinct ((out @ [e]) @ P @ Q)" using assms(1) by auto
  ultimately show ?thesis using assms(2-5) sd p unfolding srt_inv_def st1 by auto
qed

lemma lmerge_Nil1: "lmerge le [] ys = ys"
  by simp

definition srt_le :: "('a \<Rightarrow> 'a \<Rightarrow> int) \<Rightarrow> (ptr \<Rightarrow> 'a uth_elem) \<Rightarrow> ptr \<Rightarrow> ptr \<Rightarrow> bool" where
  "srt_le cmp m x y \<longleftrightarrow> cmp (payload (m x)) (payload (m y)) \<le> 0"

text \<open>Taking the first element of one of the runs and putting it out.\<close>

lemma put_p:
  assumes "srt_inv m0 st (x # P) Q out"
  shows "\<exists>st1. srt_take_p st = Inr (Some x, st1) \<and> srt_inv m0 (srt_link (Some x) st1) P Q (out @ [x]) \<and>
    sr_psize st1 = sr_psize st - 1 \<and> sr_qsize st1 = sr_qsize st"
proof -
  let ?st1 = "st\<lparr>sr_p := el_next (sr_mem st x), sr_psize := sr_psize st - 1\<rparr>"
  have i: "distinct (out @ x # P @ Q)" "sr_p st = Some x" "\<exists>z. path (sr_mem st) P z \<and> el_next (sr_mem st x) = first P z"
      "sr_q st = first Q None" "path (sr_mem st) Q None" "sr_list st = first out None" "sr_tail st = final out None"
      "\<exists>z. linked_out (sr_mem st) out z" "same_data m0 (sr_mem st)"
      "\<forall>y. y \<notin> set (out @ x # P @ Q) \<longrightarrow> sr_mem st y = m0 y"
    using assms by (auto simp: srt_inv_def)
  have "P \<noteq> [] \<longrightarrow> el_next (sr_mem st x) = first P None" using i(3) by (cases P) auto
  then have "srt_inv m0 (srt_link (Some x) ?st1) P Q (out @ [x])"
    using i by (intro srt_link_ok) auto
  then show ?thesis using i(2) by (simp add: srt_take_p_def)
qed

lemma put_q:
  assumes "srt_inv m0 st P (y # Q) out"
  shows "\<exists>st1. srt_take_q st = Inr (Some y, st1) \<and> srt_inv m0 (srt_link (Some y) st1) P Q (out @ [y]) \<and>
    sr_psize st1 = sr_psize st \<and> sr_qsize st1 = sr_qsize st - 1"
proof -
  let ?st1 = "st\<lparr>sr_q := el_next (sr_mem st y), sr_qsize := sr_qsize st - 1\<rparr>"
  have i: "distinct (out @ y # P @ Q)" "P \<noteq> [] \<longrightarrow> sr_p st = first P None" "\<exists>z. path (sr_mem st) P z"
      "sr_q st = Some y" "path (sr_mem st) Q None" "el_next (sr_mem st y) = first Q None"
      "sr_list st = first out None" "sr_tail st = final out None"
      "\<exists>z. linked_out (sr_mem st) out z" "same_data m0 (sr_mem st)"
      "\<forall>x. x \<notin> set (out @ y # P @ Q) \<longrightarrow> sr_mem st x = m0 x"
    using assms by (auto simp: srt_inv_def)
  have "srt_inv m0 (srt_link (Some y) ?st1) P Q (out @ [y])"
    using i by (intro srt_link_ok) auto
  then show ?thesis using i(4) by (simp add: srt_take_q_def)
qed

lemma same_data_payload: "same_data m0 m \<Longrightarrow> payload (m x) = payload (m0 x)"
  by (simp add: same_data_def)

lemma of_nat_u32_0: "n < 2 ^ 32 \<Longrightarrow> (of_nat n :: u32) = 0 \<longleftrightarrow> n = 0"
  by (auto simp: word_of_nat_eq_0_iff dest: nat_dvd_not_less)

lemma merge_ok:
  "srt_inv m0 st P Q out \<Longrightarrow> sr_psize st = of_nat (length P) \<Longrightarrow> sr_qsize st = of_nat k \<Longrightarrow>
    length P < 2 ^ 32 \<Longrightarrow> k < 2 ^ 32 \<Longrightarrow>
    \<exists>st1. srt_merge cmp st = Inr st1 \<and>
      srt_inv m0 st1 [] (drop k Q) (out @ lmerge (srt_le cmp m0) P (take k Q))"
proof (induction "length P + k" arbitrary: st P Q out k rule: less_induct)
  case less
  have pz: "sr_psize st = 0 \<longleftrightarrow> P = []" using less.prems(2,4) of_nat_u32_0 [of "length P"] by simp
  have qz: "sr_qsize st = 0 \<longleftrightarrow> k = 0" using less.prems(3,5) of_nat_u32_0 [of k] by simp
  have q: "sr_q st = first Q None" using less.prems(1) by (simp add: srt_inv_def)
  have step: "\<exists>st1. srt_merge cmp st = Inr st1 \<and>
      srt_inv m0 st1 [] (drop k Q) (out @ lmerge (srt_le cmp m0) P (take k Q))"
    if "srt_choose cmp st = srt_take_p st" "P = x # P'"
      "lmerge (srt_le cmp m0) P (take k Q) = x # lmerge (srt_le cmp m0) P' (take k Q)" for x P'
  proof -
    note h = that
    obtain st1 where st1: "srt_take_p st = Inr (Some x, st1)" "srt_inv m0 (srt_link (Some x) st1) P' Q (out @ [x])"
        "sr_psize st1 = sr_psize st - 1" "sr_qsize st1 = sr_qsize st"
      using put_p less.prems(1) h(2) by blast
    have "srt_merge cmp st = srt_merge cmp (srt_link (Some x) st1)"
      using that(1) st1(1) pz that(2) by (simp add: srt_merge.simps [of cmp st] word_neq_0_conv [symmetric])
    moreover have "\<exists>st2. srt_merge cmp (srt_link (Some x) st1) = Inr st2 \<and>
        srt_inv m0 st2 [] (drop k Q) ((out @ [x]) @ lmerge (srt_le cmp m0) P' (take k Q))"
      by (rule less.hyps) (use that(2) st1 less.prems in simp_all)
    ultimately show ?thesis using that(3) by simp
  qed
  have step_q: "\<exists>st1. srt_merge cmp st = Inr st1 \<and>
      srt_inv m0 st1 [] (drop k Q) (out @ lmerge (srt_le cmp m0) P (take k Q))"
    if "srt_choose cmp st = srt_take_q st" "Q = y # Q'" "k = Suc k'"
      "lmerge (srt_le cmp m0) P (take k Q) = y # lmerge (srt_le cmp m0) P (take k' Q')" for y Q' k'
  proof -
    note h = that
    obtain st1 where st1: "srt_take_q st = Inr (Some y, st1)" "srt_inv m0 (srt_link (Some y) st1) P Q' (out @ [y])"
        "sr_psize st1 = sr_psize st" "sr_qsize st1 = sr_qsize st - 1"
      using put_q less.prems(1) h(2) by blast
    have "srt_merge cmp st = srt_merge cmp (srt_link (Some y) st1)"
      using that(1-3) st1(1) qz q by (simp add: srt_merge.simps [of cmp st] word_neq_0_conv [symmetric])
    moreover have "\<exists>st2. srt_merge cmp (srt_link (Some y) st1) = Inr st2 \<and>
        srt_inv m0 st2 [] (drop k' Q') ((out @ [y]) @ lmerge (srt_le cmp m0) P (take k' Q'))"
      by (rule less.hyps) (use that(3) st1 less.prems in simp_all)
    ultimately show ?thesis using that(2-4) by simp
  qed
  show ?case
  proof (cases P)
    case Nil
    show ?thesis
    proof (cases "k = 0 \<or> Q = []")
      case True
      then have "srt_merge cmp st = Inr st" using pz qz q Nil by (auto simp: srt_merge.simps [of cmp st])
      then show ?thesis using less.prems(1) Nil True by auto
    next
      case False
      then obtain y Q' k' where "Q = y # Q'" "k = Suc k'" by (cases Q; cases k) auto
      then show ?thesis using Nil pz by (intro step_q) (auto simp: srt_choose_def)
    qed
  next
    case (Cons x P')
    show ?thesis
    proof (cases "k = 0 \<or> Q = []")
      case True
      then show ?thesis using Cons pz qz q
        by (intro step [of x P']) (auto simp: srt_choose_def split: option.split)
    next
      case False
      then obtain y Q' k' where Q: "Q = y # Q'" and k: "k = Suc k'" by (cases Q; cases k) auto
      have p: "sr_p st = Some x" "\<And>z. payload (sr_mem st z) = payload (m0 z)"
        using less.prems(1) Cons by (auto simp: srt_inv_def same_data_def)
      show ?thesis
      proof (cases "srt_le cmp m0 x y")
        case True
        then show ?thesis using Cons Q k p pz qz q
          by (intro step [of x P']) (simp_all add: srt_choose_def srt_le_def)
      next
        case False
        then show ?thesis using Cons Q k p pz qz q
          by (intro step_q [of y Q' k']) (simp_all add: srt_choose_def srt_le_def)
      qed
    qed
  qed
qed

section \<open>Passes and the whole sort\<close>

lemma pass_ok:
  "srt_inv m0 (st\<lparr>sr_q := sr_p st\<rparr>) [] xs out \<Longrightarrow> length xs \<le> fuel \<Longrightarrow> length xs < 2 ^ 32 \<Longrightarrow> w \<noteq> 0 \<Longrightarrow>
    \<exists>st1. srt_pass fuel cmp w st nm = Inr (st1, nm + of_nat (merges (unat w) (length xs))) \<and>
      srt_inv m0 (st1\<lparr>sr_q := None\<rparr>) [] [] (out @ lpass (srt_le cmp m0) (unat w) xs)"
proof (induction fuel arbitrary: st xs out nm)
  case 0
  then have "sr_p st = None" by (simp add: srt_inv_def)
  then show ?case using 0 by (auto simp: lpass.simps merges.simps srt_inv_def)
next
  case (Suc fuel)
  let ?n = "unat w"
  have w: "0 < ?n" using Suc.prems(4) by (simp add: unat_gt_0)
  have p: "sr_p st = first xs None" using Suc.prems(1) by (simp add: srt_inv_def)
  show ?case
  proof (cases "xs = []")
    case True
    then show ?thesis using Suc.prems(1) p by (auto simp: lpass.simps merges.simps srt_inv_def)
  next
    case False
    define l where "l = length (take ?n xs)"
    define st0 where "st0 = st\<lparr>sr_psize := of_nat l, sr_q := first (drop ?n xs) None, sr_qsize := w\<rparr>"
    have path: "path (sr_mem st) (take ?n xs @ drop ?n xs) None" using Suc.prems(1) by (simp add: srt_inv_def)
    have seek: "srt_seek ?n (sr_mem st) 0 (sr_p st) = Inr (of_nat l, first (drop ?n xs) None)"
      using seek_ok [of "sr_mem st" xs ?n 0] path False p by (simp add: l_def min.commute)
    have "first xs None = first (take ?n xs) None" using False w by (cases xs; cases ?n) simp_all
    then have i0: "srt_inv m0 st0 (take ?n xs) (drop ?n xs) out"
      using Suc.prems(1) path p unfolding st0_def srt_inv_def path_append
      by (auto simp: distinct_append simp flip: set_append)
    have "l < 2 ^ 32" using Suc.prems(3) by (simp add: l_def)
    then obtain st1 where st1: "srt_merge cmp st0 = Inr st1"
        "srt_inv m0 st1 [] (drop ?n (drop ?n xs)) (out @ lmerge (srt_le cmp m0) (take ?n xs) (take ?n (drop ?n xs)))"
      using merge_ok [OF i0, of ?n cmp] unsigned_less [of w, where ?'a = nat] by (auto simp: st0_def l_def)
    let ?xs = "drop (?n + ?n) xs" and ?out = "out @ lmerge (srt_le cmp m0) (take ?n xs) (take ?n (drop ?n xs))"
    have "srt_inv m0 ((st1\<lparr>sr_p := sr_q st1\<rparr>)\<lparr>sr_q := sr_p (st1\<lparr>sr_p := sr_q st1\<rparr>)\<rparr>) [] ?xs ?out"
      using st1(2) by (simp add: srt_inv_def)
    moreover have "length ?xs \<le> fuel" "length ?xs < 2 ^ 32" using Suc.prems(2,3) False w by (cases xs; simp)+
    ultimately obtain st2 where st2:
        "srt_pass fuel cmp w (st1\<lparr>sr_p := sr_q st1\<rparr>) (nm + 1) = Inr (st2, nm + 1 + of_nat (merges ?n (length ?xs)))"
        "srt_inv m0 (st2\<lparr>sr_q := None\<rparr>) [] [] (?out @ lpass (srt_le cmp m0) ?n ?xs)"
      using Suc.IH [OF _ _ _ Suc.prems(4)] by blast
    have "merges ?n (length xs) = Suc (merges ?n (length ?xs))"
      using False w by (subst merges.simps) simp
    then show ?thesis using st2 seek st1(1) False w p
      by (auto simp: lpass.simps [of _ ?n xs] st0_def)
  qed
qed

text \<open>What the sort makes of a list: sorted, a permutation, equal elements in their order.\<close>

definition sorts :: "('b \<Rightarrow> 'b \<Rightarrow> bool) \<Rightarrow> 'b list \<Rightarrow> 'b list \<Rightarrow> bool" where
  "sorts le xs ys \<longleftrightarrow> sorted_wrt le ys \<and> mset ys = mset xs \<and>
     (\<forall>P. (\<forall>a b. P a \<longrightarrow> P b \<longrightarrow> le a b) \<longrightarrow> filter P ys = filter P xs)"

lemma close_list:
  assumes "srt_inv m0 st [] [] ys" "ys \<noteq> []" "m1 = srt_end st"
  shows "linked_out m1 ys None" "same_data m0 m1" "\<forall>x. x \<notin> set ys \<longrightarrow> m1 x = m0 x"
proof -
  obtain zs t where ys: "ys = zs @ [t]" using assms(2) by (metis append_butlast_last_id)
  have d: "t \<notin> set zs" using assms(1) by (simp add: srt_inv_def ys)
  have m1: "m1 = (sr_mem st)(t := (sr_mem st t)\<lparr>el_next := None\<rparr>)"
    using assms(1,3) by (simp add: srt_inv_def ys srt_end_def)
  obtain z where "linked_out (sr_mem st) (zs @ [t]) z" using assms(1) by (auto simp: srt_inv_def ys)
  then have "linked_out m1 (zs @ [t]) (el_next (m1 t))"
    by (rule linked_out_end) (use d in \<open>auto simp: m1\<close>)
  then show "linked_out m1 ys None" by (simp add: ys m1)
  show "same_data m0 m1" using assms(1) by (simp add: srt_inv_def m1)
  show "\<forall>x. x \<notin> set ys \<longrightarrow> m1 x = m0 x" using assms(1) by (auto simp: srt_inv_def m1 ys)
qed

lemma loop_ok:
  assumes "total_le (srt_le cmp m0)"
  shows "linked_out m xs None \<Longrightarrow> xs \<noteq> [] \<Longrightarrow> distinct xs \<Longrightarrow> same_data m0 m \<Longrightarrow> \<forall>x. x \<notin> set xs \<longrightarrow> m x = m0 x \<Longrightarrow>
    runs (srt_le cmp m0) (2 ^ j) xs \<Longrightarrow> j < 31 \<Longrightarrow> length xs < 2 ^ 31 \<Longrightarrow> length xs \<le> n \<Longrightarrow> length xs \<le> 2 ^ (j + fuel) \<Longrightarrow>
    0 < fuel \<Longrightarrow>
    \<exists>ys m1. srt_loop fuel n cmp (2 ^ j) (first xs None) m = Inr (first ys None, final ys None, m1) \<and>
      linked_out m1 ys None \<and> sorts (srt_le cmp m0) xs ys \<and> same_data m0 m1 \<and>
      (\<forall>x. x \<notin> set xs \<longrightarrow> m1 x = m0 x)"
proof (induction fuel arbitrary: j xs m)
  case 0
  then show ?case by simp
next
  case (Suc fuel)
  let ?le = "srt_le cmp m0" and ?w = "2 ^ j :: u32"
  have w: "unat ?w = 2 ^ j" using Suc.prems(7) by (intro unat_pow2) simp
  then have w0: "?w \<noteq> 0" by (metis power_not_zero unat_0 zero_neq_numeral)
  let ?st = "\<lparr>sr_p = first xs None, sr_psize = 0, sr_q = None, sr_qsize = 0, sr_list = None, sr_tail = None,
      sr_mem = m\<rparr>"
  have "srt_inv m0 (?st\<lparr>sr_q := sr_p ?st\<rparr>) [] xs []"
    using Suc.prems(1,3-5) seg_path [OF Suc.prems(1)] by (simp add: srt_inv_def)
  moreover have "length xs < 2 ^ 32" using Suc.prems(8) by simp
  ultimately obtain st1 where st1: "srt_pass n cmp ?w ?st 0 = Inr (st1, of_nat (merges (2 ^ j) (length xs)))"
      "srt_inv m0 (st1\<lparr>sr_q := None\<rparr>) [] [] (lpass ?le (2 ^ j) xs)"
    using pass_ok [OF _ Suc.prems(9) _ w0, of m0 ?st "[]" cmp 0] by (auto simp: w)
  define ys where "ys = lpass ?le (2 ^ j) xs"
  define m1 where "m1 = srt_end st1"
  have ms: "mset ys = mset xs" by (simp add: ys_def lpass_mset)
  then have len: "length ys = length xs" and set: "set ys = set xs" using mset_eq_length mset_eq_setD by blast+
  have ne: "ys \<noteq> []" using len Suc.prems(2) by auto
  note cl = close_list [OF st1(2) [folded ys_def] ne, of m1]
  have c: "linked_out m1 ys None" "same_data m0 m1" "\<forall>x. x \<notin> set ys \<longrightarrow> m1 x = m0 x"
    using cl by (simp_all add: m1_def)
  have ends: "sr_list st1 = first ys None" "sr_tail st1 = final ys None" "distinct ys"
    using st1(2) by (simp_all add: srt_inv_def ys_def)
  have two: "(0::nat) < 2 ^ j" by simp
  have runs: "runs ?le (2 ^ Suc j) ys"
    using lpass_runs [OF assms Suc.prems(6) two] by (simp add: ys_def)
  have stable: "filter P ys = filter P xs" if "\<forall>a b. P a \<longrightarrow> P b \<longrightarrow> ?le a b" for P
    using lpass_stable [OF assms that Suc.prems(6) two] by (simp add: ys_def)
  have small: "merges (2 ^ j) (length xs) < 2 ^ 32" using merges_le [of "2 ^ j" "length xs"] Suc.prems(8) by simp
  have one: "of_nat (merges (2 ^ j) (length xs)) \<le> (1 :: u32) \<longleftrightarrow> length xs \<le> 2 ^ Suc j"
    using merges_one [OF two, of "length xs"] small by (simp add: word_le_nat_alt unat_of_nat take_bit_nat_eq_self)
  show ?case
  proof (cases "length xs \<le> 2 ^ Suc j")
    case True
    have "sorted_wrt ?le ys" by (rule runs_sorted [OF runs]) (use True len in simp_all)
    then have "sorts ?le xs ys" using ms stable by (simp add: sorts_def)
    moreover have "srt_loop (Suc fuel) n cmp ?w (first xs None) m = Inr (first ys None, final ys None, m1)"
      using st1(1) one True ends by (simp add: m1_def)
    ultimately show ?thesis using c set by blast
  next
    case False
    have j: "Suc j < 31"
    proof (rule ccontr)
      assume "\<not> Suc j < 31"
      then have "(2::nat) ^ 31 \<le> 2 ^ Suc j" by (intro power_increasing) auto
      then show False using False Suc.prems(8) by linarith
    qed
    have f: "0 < fuel"
    proof (rule ccontr)
      assume "\<not> 0 < fuel"
      then show False using False Suc.prems(10) by simp
    qed
    have "length ys \<le> 2 ^ (Suc j + fuel)" using Suc.prems(10) len by simp
    from Suc.IH [OF c(1) ne ends(3) c(2,3) runs j _ _ this f] obtain zs m2 where
        z: "srt_loop fuel n cmp (2 ^ Suc j) (first ys None) m1 = Inr (first zs None, final zs None, m2)"
        "linked_out m2 zs None" "sorts ?le ys zs" "same_data m0 m2" "\<forall>x. x \<notin> set ys \<longrightarrow> m2 x = m0 x"
      using Suc.prems(8,9) len by auto
    have "sorts ?le xs zs" using z(3) ms stable by (simp add: sorts_def)
    moreover have "srt_loop (Suc fuel) n cmp ?w (first xs None) m = srt_loop fuel n cmp (2 ^ Suc j) (first ys None) m1"
      using st1(1) one False ends(1) by (simp add: m1_def mult.commute)
    ultimately show ?thesis using z(1,2,4,5) set by (intro exI [of _ zs] exI [of _ m2]) simp
  qed
qed

lemma find_same_data:
  assumes "same_data m m'"
  shows "HASH_FIND_IN_BKT fuel m' key p = HASH_FIND_IN_BKT fuel m key p"
  using assms
  by (induction fuel m key p rule: HASH_FIND_IN_BKT.induct) (auto simp: same_data_def)

definition comparator :: "('a \<Rightarrow> 'a \<Rightarrow> int) \<Rightarrow> bool" where
  "comparator cmp \<longleftrightarrow> total_le (\<lambda>x y. cmp x y \<le> 0)"

lemma comparator_le: "comparator cmp \<Longrightarrow> total_le (srt_le cmp m)"
  unfolding comparator_def total_le_def srt_le_def by blast

lemma two_power_gt: "n < 2 ^ n"
  by (rule less_exp)

section \<open>Properties\<close>

text \<open>
  C16. Sorting a hash: for any comparison that is a total preorder, HASH_SRT ends without an error with the same
  elements in an order that is sorted and stable, a well-formed table, the contents of every element unchanged, and
  the answer of every lookup unchanged.
\<close>

theorem HASH_SRT_sorts:
  assumes "uth_inv s xs" "comparator cmp" "length xs < 2 ^ 31"
  shows "\<exists>s1 ys. HASH_SRT cmp s = Inr s1 \<and> uth_inv s1 ys \<and> sorts (srt_le cmp (mem s)) xs ys \<and>
    same_data (mem s) (mem s1) \<and> (\<forall>key. HASH_FIND s1 key = HASH_FIND s key)"
proof (cases "xs = []")
  case True
  then have "HASH_SRT cmp s = Inr s" using assms(1) by (simp add: HASH_SRT_def uth_inv_def)
  then show ?thesis using assms(1) True by (intro exI [of _ s] exI [of _ xs]) (simp add: sorts_def)
next
  case False
  have inv: "distinct xs" "\<forall>x \<in> set xs. x < brk s" "head s = first xs None" "list_ok s xs" "buckets_ok s (set xs)"
    using assms(1) False by (simp_all add: uth_inv_def)
  have n: "length xs \<le> brk s" using distinct_below_length inv(1,2) by blast
  have "length xs \<le> 2 ^ (0 + (brk s + 1))" using n two_power_gt [of "brk s + 1"] by simp
  note steps = loop_ok [OF comparator_le [OF assms(2)], of "mem s" xs "mem s" 0 "brk s" "brk s + 1"]
  have "linked_out (mem s) xs None" using inv(4) by (simp add: list_ok_def)
  moreover have "runs (srt_le cmp (mem s)) (2 ^ 0) xs" using runs_one by simp
  ultimately obtain ys m1 where l: "srt_loop (brk s + 1) (brk s) cmp 1 (first xs None) (mem s) = Inr (first ys None, final ys None, m1)"
      "linked_out m1 ys None" "sorts (srt_le cmp (mem s)) xs ys" "same_data (mem s) m1"
    using steps [OF _ False inv(1) _ _ _ _ assms(3) n \<open>length xs \<le> 2 ^ (0 + (brk s + 1))\<close>]
    unfolding power_0 by (metis add_gr_0 less_numeral_extra(1) same_data_refl zero_less_numeral)
  have ms: "mset ys = mset xs" using l(3) by (simp add: sorts_def)
  then have set: "set ys = set xs" and len: "length ys = length xs" and ne: "ys \<noteq> []" and d: "distinct ys"
    using mset_eq_setD mset_eq_length inv(1) False by (blast, blast, force, metis mset_eq_imp_distinct_iff)
  define s1 where "s1 = s\<lparr>head := first ys None, mem := m1, tbl := (tbl s)\<lparr>tail := final ys None\<rparr>\<rparr>"
  obtain h where h: "head s = Some h" using inv(3) False by (cases xs) auto
  have run: "HASH_SRT cmp s = Inr s1" using l(1) h inv(3) by (simp add: HASH_SRT_def s1_def del: srt_loop.simps)
  have lok: "list_ok s1 ys" using inv(4) l(2,4) set len ne by (auto simp: list_ok_def s1_def same_data_def final_def)
  have "table_ok m1 (buckets (tbl s)) (log2_num_buckets (tbl s)) (set xs)"
    by (rule table_ok_frame [of "mem s"]) (use inv(5) l(4) in \<open>simp_all add: buckets_ok_def same_data_def\<close>)
  then have "buckets_ok s1 (set ys)" using inv(5) set by (simp add: buckets_ok_def s1_def)
  then have "uth_inv s1 ys" using lok d ne inv(2) set by (simp add: uth_inv_def s1_def)
  moreover have "HASH_FIND s1 key = HASH_FIND s key" for key
    using h ne l(4) by (cases ys) (simp_all add: HASH_FIND_def s1_def find_same_data Let_def split_beta)
  ultimately show ?thesis using run l(3,4) by (intro exI [of _ s1] exI [of _ ys]) (simp add: s1_def)
qed

theorem HASH_SRT_sorts_witness:
  "\<exists>(s :: int uth) xs s1 ys. uth_inv s xs \<and> map (\<lambda>x. payload (mem s x)) xs = [2, 1] \<and>
    HASH_SRT (\<lambda>x y. x - y) s = Inr s1 \<and> uth_inv s1 ys \<and> map (\<lambda>x. payload (mem s1 x)) ys = [1, 2]"
proof -
  obtain s1 p where s1: "uth_rep s1 [([1], p)]" "payload (mem s1 p) = (2 :: int)"
    using uth_insert_law [OF uth_empty_rep, of "[1]" 0 2] by auto
  obtain s q where s: "uth_rep s [([1], p), ([2], q)]" "payload (mem s q) = 1" "payload (mem s p) = (2 :: int)"
    using uth_insert_law [OF s1(1), of "[2]" 1] s1(2) by auto
  have inv: "uth_inv s [p, q]" and pq: "p \<noteq> q" using s(1) by (auto simp: uth_rep_def uth_inv_def)
  have "comparator (\<lambda>x y :: int. x - y)" by (auto simp: comparator_def total_le_def)
  from HASH_SRT_sorts [OF inv this] obtain s2 ys where r: "HASH_SRT (\<lambda>x y. x - y) s = Inr s2" "uth_inv s2 ys"
      "sorts (srt_le (\<lambda>x y. x - y) (mem s)) [p, q] ys" "same_data (mem s) (mem s2)" by auto
  have ms: "mset ys = {#p, q#}" and so: "sorted_wrt (srt_le (\<lambda>x y. x - y) (mem s)) ys"
    using r(3) by (simp_all add: sorts_def)
  have "length ys = 2" using ms by (metis mset_eq_length [of ys "[p, q]"] length_Cons list.size(3) mset.simps numeral_2_eq_2)
  then obtain a b where ab: "ys = [a, b]" by (auto simp: length_Suc_conv numeral_2_eq_2)
  have "ys = [q, p]" using ms so pq s(2,3) by (auto simp: ab srt_le_def add_eq_conv_ex)
  then show ?thesis using r inv s(2,3) same_data_payload [OF r(4)] by (intro exI [of _ s] exI [of _ "[p, q]"] exI [of _ s2] exI [of _ ys]) simp
qed

end
