(* ===== verification/Uthash_More.thy ===== *)
theory Uthash_More
  imports Storage Inner_Node Uthash_Map
begin

text \<open>
  The rest of uthash.h: the convenience forms for strings, ints and pointers, the Bloom filter of a build with
  HASH_BLOOM, the overhead, and HASH_SELECT, which enters the elements of one hash into another.
\<close>

section \<open>Convenience forms\<close>

text \<open>The bytes of an int, and of a pointer on a 64-bit machine.\<close>

definition int_key :: "int \<Rightarrow> byte list" where
  "int_key i = bytes32 (word_of_int i)"

definition HASH_FIND_STR :: "'a uth \<Rightarrow> string \<Rightarrow> ptr option res" where
  "HASH_FIND_STR s findstr = HASH_FIND s (str_bytes findstr)"

definition HASH_ADD_STR :: "'a uth \<Rightarrow> string \<Rightarrow> ptr \<Rightarrow> 'a uth res" where
  "HASH_ADD_STR s str p = HASH_ADD_KEYPTR s (str_bytes str) p"

definition HASH_REPLACE_STR :: "'a uth \<Rightarrow> string \<Rightarrow> ptr \<Rightarrow> ('a uth \<times> ptr option) res" where
  "HASH_REPLACE_STR s str p = HASH_REPLACE s (str_bytes str) p"

definition HASH_FIND_INT :: "'a uth \<Rightarrow> int \<Rightarrow> ptr option res" where
  "HASH_FIND_INT s findint = HASH_FIND s (int_key findint)"

definition HASH_ADD_INT :: "'a uth \<Rightarrow> int \<Rightarrow> ptr \<Rightarrow> 'a uth res" where
  "HASH_ADD_INT s i p = HASH_ADD_KEYPTR s (int_key i) p"

definition HASH_REPLACE_INT :: "'a uth \<Rightarrow> int \<Rightarrow> ptr \<Rightarrow> ('a uth \<times> ptr option) res" where
  "HASH_REPLACE_INT s i p = HASH_REPLACE s (int_key i) p"

definition HASH_FIND_PTR :: "'a uth \<Rightarrow> 64 word \<Rightarrow> ptr option res" where
  "HASH_FIND_PTR s findptr = HASH_FIND s (bytes64 findptr)"

definition HASH_ADD_PTR :: "'a uth \<Rightarrow> 64 word \<Rightarrow> ptr \<Rightarrow> 'a uth res" where
  "HASH_ADD_PTR s v p = HASH_ADD_KEYPTR s (bytes64 v) p"

definition HASH_REPLACE_PTR :: "'a uth \<Rightarrow> 64 word \<Rightarrow> ptr \<Rightarrow> ('a uth \<times> ptr option) res" where
  "HASH_REPLACE_PTR s v p = HASH_REPLACE s (bytes64 v) p"

section \<open>The Bloom filter\<close>

record bloom =
  bloom_nbits :: nat
  bloom_bv :: "byte list"

definition HASH_BLOOM_BYTELEN :: "nat \<Rightarrow> nat" where
  "HASH_BLOOM_BYTELEN n = 2 ^ n div 8 + (if 2 ^ n mod 8 \<noteq> (0 :: nat) then 1 else 0)"

definition HASH_BLOOM_MAKE :: "nat \<Rightarrow> bloom" where
  "HASH_BLOOM_MAKE n = \<lparr>bloom_nbits = n, bloom_bv = replicate (HASH_BLOOM_BYTELEN n) 0\<rparr>"

definition bloom_bit :: "u32 \<Rightarrow> u32" where
  "bloom_bit idx = push_bit (unat (idx mod 8)) 1"

definition HASH_BLOOM_BITSET :: "byte list \<Rightarrow> u32 \<Rightarrow> byte list res" where
  "HASH_BLOOM_BITSET bv idx =
     bind_r (arr_get bv (uint (idx div 8))) (\<lambda>b. arr_set bv (uint (idx div 8)) (ucast (ucast b OR bloom_bit idx)))"

definition HASH_BLOOM_BITTEST :: "byte list \<Rightarrow> u32 \<Rightarrow> u32 res" where
  "HASH_BLOOM_BITTEST bv idx = bind_r (arr_get bv (uint (idx div 8))) (\<lambda>b. Inr (ucast b AND bloom_bit idx))"

text \<open>The index of a hash value: its lowest bits.\<close>

definition bloom_index :: "bloom \<Rightarrow> u32 \<Rightarrow> u32" where
  "bloom_index bl h = h AND ucast (push_bit (bloom_nbits bl) (1 :: 64 word) - 1)"

definition HASH_BLOOM_ADD :: "bloom \<Rightarrow> u32 \<Rightarrow> bloom res" where
  "HASH_BLOOM_ADD bl h =
     bind_r (HASH_BLOOM_BITSET (bloom_bv bl) (bloom_index bl h)) (\<lambda>bv. Inr (bl\<lparr>bloom_bv := bv\<rparr>))"

definition HASH_BLOOM_TEST :: "bloom \<Rightarrow> u32 \<Rightarrow> u32 res" where
  "HASH_BLOOM_TEST bl h = HASH_BLOOM_BITTEST (bloom_bv bl) (bloom_index bl h)"

text \<open>HASH_FIND in such a build.\<close>

definition HASH_FIND_bloom :: "bloom \<Rightarrow> 'a uth \<Rightarrow> byte list \<Rightarrow> ptr option res" where
  "HASH_FIND_bloom bl s key =
     (case head s of
        None \<Rightarrow> Inr None
      | Some _ \<Rightarrow>
          let (h, b) = HASH_FCN key (num_buckets (tbl s)) in
          bind_r (HASH_BLOOM_TEST bl h) (\<lambda>t.
          if t \<noteq> 0 then
            bind_r (arr_get (buckets (tbl s)) (uint b)) (\<lambda>bkt.
            HASH_FIND_IN_BKT (brk s) (mem s) key (hh_head bkt))
          else Inr None))"

fun bloom_adds :: "bloom \<Rightarrow> u32 list \<Rightarrow> bloom res" where
  "bloom_adds bl [] = Inr bl"
| "bloom_adds bl (h # hs) = bind_r (HASH_BLOOM_ADD bl h) (\<lambda>bl1. bloom_adds bl1 hs)"

text \<open>
  HASH_OVERHEAD on a 64-bit machine: a handle has 56 bytes, a bucket 16 and the table 64, or 80 in a build with the
  filter (\<open>Some n\<close>).
\<close>

definition HASH_OVERHEAD :: "nat option \<Rightarrow> 'a uth \<Rightarrow> 64 word" where
  "HASH_OVERHEAD filter_bits s =
     (case head s of
        None \<Rightarrow> 0
      | Some _ \<Rightarrow> ucast (num_items (tbl s)) * 56 + ucast (num_buckets (tbl s)) * 16 +
          (case filter_bits of None \<Rightarrow> 64 | Some n \<Rightarrow> 80 + of_nat (HASH_BLOOM_BYTELEN n)))"

section \<open>Selection\<close>

text \<open>
  An element has two handles: the one in the source hash \<open>s\<close> and the one in the destination \<open>d\<close>, at the same address.
  The last selected element is the second component of the state.
\<close>

definition select_one :: "'a uth \<Rightarrow> 'b uth \<times> ptr option \<Rightarrow> ptr \<Rightarrow> ('b uth \<times> ptr option) res" where
  "select_one s dl x =
     (case dl of (d, last_elt) \<Rightarrow>
       let m = (mem d)(x := (mem d x)\<lparr>hkey := hkey (mem s x), hashv := hashv (mem s x), el_prev := last_elt,
             el_next := None\<rparr>);
           m1 = (case last_elt of None \<Rightarrow> m | Some l \<Rightarrow> m(l := (m l)\<lparr>el_next := Some x\<rparr>));
           d1 = (case head d of
                   None \<Rightarrow> d\<lparr>mem := m1, head := Some x, tbl := HASH_MAKE_TABLE x\<rparr>
                 | Some _ \<Rightarrow> d\<lparr>mem := m1\<rparr>)
       in bind_r (HASH_ADD_TO_BKT d1 (HASH_TO_BKT (hashv (mem s x)) (num_buckets (tbl d1))) x) (\<lambda>d2.
          Inr (d2\<lparr>tbl := (tbl d2)\<lparr>num_items := num_items (tbl d2) + 1\<rparr>\<rparr>, Some x)))"

fun select_chain :: "nat \<Rightarrow> 'a uth \<Rightarrow> (ptr \<Rightarrow> bool) \<Rightarrow> 'b uth \<times> ptr option \<Rightarrow> ptr option \<Rightarrow> ('b uth \<times> ptr option) res" where
  "select_chain fuel s cond dl None = Inr dl"
| "select_chain 0 s cond dl (Some x) = Inl OutOfFuel"
| "select_chain (Suc fuel) s cond dl (Some x) =
     bind_r (if cond x then select_one s dl x else Inr dl) (\<lambda>dl1. select_chain fuel s cond dl1 (hh_next (mem s x)))"

fun select_buckets :: "nat \<Rightarrow> 'a uth \<Rightarrow> (ptr \<Rightarrow> bool) \<Rightarrow> 'b uth \<times> ptr option \<Rightarrow> uth_bucket list \<Rightarrow>
    ('b uth \<times> ptr option) res" where
  "select_buckets fuel s cond dl [] = Inr dl"
| "select_buckets fuel s cond dl (b # bs) =
     bind_r (select_chain fuel s cond dl (hh_head b)) (\<lambda>dl1. select_buckets fuel s cond dl1 bs)"

definition HASH_SELECT :: "'b uth \<Rightarrow> 'a uth \<Rightarrow> (ptr \<Rightarrow> bool) \<Rightarrow> 'b uth res" where
  "HASH_SELECT d s cond =
     (case head s of
        None \<Rightarrow> Inr d
      | Some _ \<Rightarrow>
          bind_r (select_buckets (brk s) s cond (d, None) (take (unat (num_buckets (tbl s))) (buckets (tbl s))))
            (\<lambda>(d1, last_elt). Inr d1))"

section \<open>The filter has no false negatives\<close>

definition has_bit :: "byte list \<Rightarrow> u32 \<Rightarrow> bool" where
  "has_bit bv idx \<longleftrightarrow> bit (bv ! (unat idx div 8)) (unat idx mod 8)"

lemma unat_div_8: "unat (idx div 8 :: u32) = unat idx div 8" "unat (idx mod 8 :: u32) = unat idx mod 8"
  by (simp_all add: unat_div unat_mod)

lemma idx_cell:
  assumes "unat (idx :: u32) div 8 < length bv"
  shows "arr_get bv (uint (idx div 8)) = Inr (bv ! (unat idx div 8))"
    "arr_set bv (uint (idx div 8)) v = Inr (bv[unat idx div 8 := v])"
proof -
  have "uint (idx div 8) = int (unat (idx div 8))" by simp
  then have e: "uint (idx div 8) = int (unat idx div 8)" unfolding unat_div_8(1) .
  show "arr_get bv (uint (idx div 8)) = Inr (bv ! (unat idx div 8))"
    "arr_set bv (uint (idx div 8)) v = Inr (bv[unat idx div 8 := v])"
    by (simp_all only: e arr_get_nat [OF assms] arr_set_nat [OF assms])
qed

lemma bit_bloom_bit: "bit (bloom_bit idx) k \<longleftrightarrow> k = unat idx mod 8"
proof -
  have "unat idx mod 8 < 32" by (rule less_trans [of _ 8]) simp_all
  then show ?thesis by (auto simp: bloom_bit_def unat_div_8 push_bit_of_1 bit_exp_iff possible_bit_def)
qed

lemma BITTEST_ok:
  assumes "unat idx div 8 < length bv"
  shows "\<exists>t. HASH_BLOOM_BITTEST bv idx = Inr t \<and> (t \<noteq> 0 \<longleftrightarrow> has_bit bv idx)"
proof -
  let ?b = "bv ! (unat idx div 8)"
  have k: "unat idx mod 8 < 8" by simp
  have "(ucast ?b AND bloom_bit idx :: u32) \<noteq> 0 \<longleftrightarrow> (\<exists>m. bit (ucast ?b AND bloom_bit idx :: u32) m)"
    by (metis bit_0_eq bot_apply bot_bool_def bit_word_eqI)
  also have "\<dots> \<longleftrightarrow> has_bit bv idx" using k by (auto simp: bit_and_iff bit_bloom_bit bit_ucast_iff has_bit_def)
  finally show ?thesis using assms by (simp add: HASH_BLOOM_BITTEST_def idx_cell)
qed

lemma BITSET_ok:
  assumes "unat idx div 8 < length bv"
  shows "\<exists>bv1. HASH_BLOOM_BITSET bv idx = Inr bv1 \<and> length bv1 = length bv \<and>
    has_bit bv1 idx \<and> (\<forall>i. has_bit bv i \<longrightarrow> has_bit bv1 i)"
proof -
  let ?v = "ucast (ucast (bv ! (unat idx div 8)) OR bloom_bit idx :: u32) :: byte"
  have k: "unat i mod 8 < 8" for i :: u32 by simp
  have bits: "bit ?v m \<longleftrightarrow> m < 8 \<and> (bit (bv ! (unat idx div 8)) m \<or> m = unat idx mod 8)" for m
    by (auto simp: bit_ucast_iff bit_or_iff bit_bloom_bit dest: bit_imp_le_length)
  have "has_bit (bv[unat idx div 8 := ?v]) idx" using assms k by (simp add: has_bit_def bits)
  moreover have "has_bit (bv[unat idx div 8 := ?v]) i" if "has_bit bv i" for i
    using that assms k [of i] by (cases "unat i div 8 = unat idx div 8") (simp_all add: has_bit_def bits)
  ultimately show ?thesis using assms by (simp add: HASH_BLOOM_BITSET_def idx_cell)
qed

lemma bloom_index_less:
  assumes "bloom_nbits bl \<le> 32"
  shows "unat (bloom_index bl h) < 2 ^ bloom_nbits bl"
proof -
  have "ucast (push_bit (bloom_nbits bl) (1 :: 64 word) - 1) = (mask (bloom_nbits bl) :: u32)"
  proof -
    have "push_bit (bloom_nbits bl) (1 :: 64 word) - 1 = mask (bloom_nbits bl)"
      by (simp add: mask_eq_exp_minus_1 push_bit_of_1)
    then show ?thesis using assms by (intro bit_word_eqI) (auto simp: bit_ucast_iff bit_mask_iff possible_bit_def)
  qed
  then have "bloom_index bl h = take_bit (bloom_nbits bl) h" by (simp add: bloom_index_def take_bit_eq_mask)
  then show ?thesis by (simp add: unsigned_take_bit_eq)
qed

lemma bloom_index_cell:
  assumes "bloom_nbits bl \<le> 32" "length (bloom_bv bl) = HASH_BLOOM_BYTELEN (bloom_nbits bl)"
  shows "unat (bloom_index bl h) div 8 < length (bloom_bv bl)"
proof -
  have "i div 8 < m div 8 + (if m mod 8 \<noteq> 0 then 1 else 0)" if "i < m" for i m :: nat
    using that by (auto simp: div_less_iff_less_mult)
  then show ?thesis using bloom_index_less [OF assms(1), of h] assms(2) by (simp only: HASH_BLOOM_BYTELEN_def)
qed

lemma bloom_adds_ok:
  "bloom_nbits bl = n \<Longrightarrow> n \<le> 32 \<Longrightarrow> length (bloom_bv bl) = HASH_BLOOM_BYTELEN n \<Longrightarrow>
    \<exists>bl1. bloom_adds bl hs = Inr bl1 \<and> bloom_nbits bl1 = n \<and> length (bloom_bv bl1) = HASH_BLOOM_BYTELEN n \<and>
      (\<forall>h \<in> set hs. has_bit (bloom_bv bl1) (bloom_index bl1 h)) \<and>
      (\<forall>i. has_bit (bloom_bv bl) i \<longrightarrow> has_bit (bloom_bv bl1) i)"
proof (induction hs arbitrary: bl)
  case Nil
  then show ?case by simp
next
  case (Cons h hs)
  have "unat (bloom_index bl h) div 8 < length (bloom_bv bl)" using bloom_index_cell [of bl h] Cons.prems by simp
  then obtain bv where bv: "HASH_BLOOM_BITSET (bloom_bv bl) (bloom_index bl h) = Inr bv" "length bv = length (bloom_bv bl)"
      "has_bit bv (bloom_index bl h)" "\<forall>i. has_bit (bloom_bv bl) i \<longrightarrow> has_bit bv i" using BITSET_ok by blast
  obtain bl1 where bl1: "bloom_adds (bl\<lparr>bloom_bv := bv\<rparr>) hs = Inr bl1" "bloom_nbits bl1 = n"
      "length (bloom_bv bl1) = HASH_BLOOM_BYTELEN n" "\<forall>h \<in> set hs. has_bit (bloom_bv bl1) (bloom_index bl1 h)"
      "\<forall>i. has_bit bv i \<longrightarrow> has_bit (bloom_bv bl1) i"
    using Cons.IH [of "bl\<lparr>bloom_bv := bv\<rparr>"] Cons.prems bv(2) by auto
  have "bloom_index bl1 h = bloom_index bl h" using bl1(2) Cons.prems(1) by (simp add: bloom_index_def)
  then show ?case using bl1 bv by (auto simp: HASH_BLOOM_ADD_def)
qed

section \<open>What a selection builds\<close>

fun select_list :: "'a uth \<Rightarrow> 'b uth \<times> ptr option \<Rightarrow> ptr list \<Rightarrow> ('b uth \<times> ptr option) res" where
  "select_list s dl [] = Inr dl"
| "select_list s dl (x # xs) = bind_r (select_one s dl x) (\<lambda>dl1. select_list s dl1 xs)"

lemma select_list_append: "select_list s dl (xs @ ys) = bind_r (select_list s dl xs) (\<lambda>dl1. select_list s dl1 ys)"
  by (induction xs arbitrary: dl) (simp_all add: bind_r_assoc)

lemma select_chain_list:
  "seg (\<lambda>x. hh_prev (mem s x)) (\<lambda>x. hh_next (mem s x)) p ys None \<Longrightarrow> length ys \<le> fuel \<Longrightarrow>
    select_chain fuel s cond dl (first ys None) = select_list s dl (filter cond ys)"
proof (induction ys arbitrary: p fuel dl)
  case Nil
  then show ?case by simp
next
  case (Cons x ys)
  then obtain f where f: "fuel = Suc f" by (cases fuel) auto
  have "select_chain f s cond dl1 (first ys None) = select_list s dl1 (filter cond ys)" for dl1 :: "'b uth \<times> ptr option"
    using Cons.IH [of "Some x" f dl1] Cons.prems f by simp
  then show ?case using Cons.prems(1) f by simp
qed

lemma select_buckets_list:
  "list_all2 (bkt_ok (mem s)) bs css \<Longrightarrow> \<forall>ys \<in> set css. length ys \<le> fuel \<Longrightarrow>
    select_buckets fuel s cond dl bs = select_list s dl (filter cond (concat css))"
proof (induction arbitrary: dl rule: list_all2_induct)
  case Nil
  then show ?case by simp
next
  case (Cons b bs ys css)
  have "hh_head b = first ys None" using Cons(1) by (simp add: bkt_ok_def)
  moreover have "select_chain fuel s cond dl (first ys None) = select_list s dl (filter cond ys)"
    by (rule select_chain_list) (use Cons in \<open>auto simp: bkt_ok_def\<close>)
  ultimately show ?case using Cons by (simp add: select_list_append)
qed

text \<open>The selected elements form a hash, were it not for its tail.\<close>

definition with_tail :: "'b uth \<Rightarrow> ptr list \<Rightarrow> 'b uth" where
  "with_tail d ys = d\<lparr>tbl := (tbl d)\<lparr>tail := final ys None\<rparr>\<rparr>"

definition selected_ok :: "'a uth \<Rightarrow> 'b uth \<Rightarrow> ptr list \<Rightarrow> bool" where
  "selected_ok s d ys \<longleftrightarrow> uth_inv (with_tail d ys) ys \<and> brk d = brk s \<and>
     (ys \<noteq> [] \<longrightarrow> log2_num_buckets (tbl d) \<le> 4 + length ys) \<and>
     (ys \<noteq> [] \<longrightarrow> tail (tbl d) = Some (hd ys)) \<and> (\<forall>x \<in> set ys. hkey (mem d x) = hkey (mem s x))"

lemma buckets_ok_mem:
  assumes "buckets_ok d X" "tbl d' = tbl d"
    and "\<forall>x \<in> X. hh_prev (mem d' x) = hh_prev (mem d x) \<and> hh_next (mem d' x) = hh_next (mem d x) \<and> hashv (mem d' x) = hashv (mem d x)"
  shows "buckets_ok d' X"
proof -
  have "table_ok (mem d') (buckets (tbl d)) (log2_num_buckets (tbl d)) X"
    by (rule table_ok_frame [of "mem d"]) (use assms in \<open>auto simp: buckets_ok_def\<close>)
  then show ?thesis using assms(1,2) by (simp add: buckets_ok_def)
qed

lemma buckets_ok_tail: "buckets_ok (with_tail d ys) X \<longleftrightarrow> buckets_ok d X"
  by (simp add: buckets_ok_def with_tail_def)

text \<open>An addition to a bucket succeeds, unless it has to expand a table of 2^31 buckets.\<close>

lemma add_to_bkt_any:
  assumes "buckets_ok s X" "p \<notin> X" "j = HASH_TO_BKT (hashv (mem s p)) (num_buckets (tbl s))"
    and "\<forall>x \<in> insert p X. x < brk s" "X = {} \<and> (\<forall>b \<in> set (buckets (tbl s)). expand_mult b = 0) \<or> num_items (tbl s) \<noteq> 0"
  shows "(\<exists>s1. HASH_ADD_TO_BKT s j p = Inr s1 \<and> same_list s s1 \<and> buckets_ok s1 (insert p X)) \<or>
    HASH_ADD_TO_BKT s j p = Inl Overflow \<and> 31 \<le> log2_num_buckets (tbl s)"
proof -
  define i where "i = bkt_of (mem s) (log2_num_buckets (tbl s)) p"
  note ps = pushed_ok [OF assms(1,2) i_def]
  have e: "HASH_EXPAND_BUCKETS (pushed s i p) = Inl Overflow" if "31 \<le> log2_num_buckets (tbl s)"
    using that by (simp add: HASH_EXPAND_BUCKETS_def pushed_def Let_def)
  show ?thesis
  proof (cases "num_items (tbl s) = 0")
    case True
    then have "X = {}" "\<forall>b \<in> set (buckets (tbl s)). expand_mult b = 0" using assms(5) by auto
    then show ?thesis using add_small_pushed(1) [OF assms(1,3)] ps i_def by simp
  next
    case False
    then show ?thesis
      using HASH_ADD_TO_BKT_ok [OF assms(1-4)] add_to_bkt_pushed [OF assms(1,3) i_def] ps e
      by (cases "log2_num_buckets (tbl s) < 31") auto
  qed
qed

lemma add_first_log2:
  assumes "buckets_ok s {}" "j = HASH_TO_BKT (hashv (mem s p)) (num_buckets (tbl s))"
    and "\<forall>b \<in> set (buckets (tbl s)). expand_mult b = 0" "HASH_ADD_TO_BKT s j p = Inr s1"
  shows "log2_num_buckets (tbl s1) = log2_num_buckets (tbl s)"
  using add_small_pushed(1,2) [OF assms(1-3)] assms(4) by simp

text \<open>The destination before the selected element joins its bucket.\<close>

definition selecting_mem :: "'a uth \<Rightarrow> (ptr \<Rightarrow> 'b uth_elem) \<Rightarrow> ptr option \<Rightarrow> ptr \<Rightarrow> (ptr \<Rightarrow> 'b uth_elem)" where
  "selecting_mem s m l x =
     (let m0 = m(x := (m x)\<lparr>hkey := hkey (mem s x), hashv := hashv (mem s x), el_prev := l, el_next := None\<rparr>)
      in case l of None \<Rightarrow> m0 | Some q \<Rightarrow> m0(q := (m0 q)\<lparr>el_next := Some x\<rparr>))"

definition selecting :: "'a uth \<Rightarrow> 'b uth \<Rightarrow> ptr option \<Rightarrow> ptr \<Rightarrow> 'b uth" where
  "selecting s d l x =
     (case head d of None \<Rightarrow> d\<lparr>mem := selecting_mem s (mem d) l x, head := Some x, tbl := HASH_MAKE_TABLE x\<rparr>
      | Some _ \<Rightarrow> d\<lparr>mem := selecting_mem s (mem d) l x\<rparr>)"

lemma select_one_selecting:
  "select_one s (d, l) x =
     bind_r (HASH_ADD_TO_BKT (selecting s d l x) (HASH_TO_BKT (hashv (mem s x)) (num_buckets (tbl (selecting s d l x)))) x)
       (\<lambda>d2. Inr (d2\<lparr>tbl := (tbl d2)\<lparr>num_items := num_items (tbl d2) + 1\<rparr>\<rparr>, Some x))"
  unfolding select_one_def selecting_def selecting_mem_def Let_def prod.case ..

lemma selecting_mem_other:
  assumes "y \<noteq> x"
  shows "hashv (selecting_mem s m l x y) = hashv (m y)" "hkey (selecting_mem s m l x y) = hkey (m y)"
    "hh_prev (selecting_mem s m l x y) = hh_prev (m y)" "hh_next (selecting_mem s m l x y) = hh_next (m y)"
  using assms by (auto simp: selecting_mem_def Let_def split: option.split)

lemma selecting_mem_new:
  "hashv (selecting_mem s m l x x) = hashv (mem s x)" "hkey (selecting_mem s m l x x) = hkey (mem s x)"
  by (auto simp: selecting_mem_def Let_def split: option.split)

lemma selecting_mem [simp]: "mem (selecting s d l x) = selecting_mem s (mem d) l x" "brk (selecting s d l x) = brk d"
  by (simp_all add: selecting_def split: option.split)

lemma selecting_buckets:
  assumes "selected_ok s d ys" "x \<notin> set ys"
  defines "d1 \<equiv> selecting s d (final ys None) x"
  shows "buckets_ok d1 (set ys)" "num_items (tbl d1) = of_nat (length ys)" "head d1 = Some (hd (ys @ [x]))"
    "tail (tbl d1) = Some (hd (ys @ [x]))"
    "log2_num_buckets (tbl d1) = (if ys = [] then 5 else log2_num_buckets (tbl d))"
    "ys = [] \<Longrightarrow> \<forall>b \<in> set (buckets (tbl d1)). expand_mult b = 0"
proof -
  have inv: "uth_inv (with_tail d ys) ys" using assms(1) by (auto simp: selected_ok_def)
  have hd: "head d = first ys None" using inv by (simp add: uth_inv_def with_tail_def)
  have "buckets_ok d1 (set ys) \<and> num_items (tbl d1) = of_nat (length ys) \<and> head d1 = Some (hd (ys @ [x])) \<and>
      tail (tbl d1) = Some (hd (ys @ [x])) \<and>
      log2_num_buckets (tbl d1) = (if ys = [] then 5 else log2_num_buckets (tbl d)) \<and>
      (ys = [] \<longrightarrow> (\<forall>b \<in> set (buckets (tbl d1)). expand_mult b = 0))"
  proof (cases ys)
    case Nil
    have "table_ok (mem d1) (replicate (2 ^ 5) empty_bucket) 5 {}" by (rule table_empty)
    then show ?thesis using hd Nil
      by (simp add: d1_def selecting_def buckets_ok_def HASH_MAKE_TABLE_def empty_bucket_def)
  next
    case (Cons y zs)
    then have d1: "d1 = d\<lparr>mem := selecting_mem s (mem d) (final ys None) x\<rparr>" using hd by (simp add: d1_def selecting_def)
    have ne: "z \<noteq> x" if "z \<in> set ys" for z using that assms(2) by auto
    have "buckets_ok d (set ys)" using inv Cons by (simp add: uth_inv_def buckets_ok_tail)
    then have "buckets_ok d1 (set ys)"
      by (rule buckets_ok_mem) (use ne in \<open>auto simp: d1 selecting_mem_other\<close>)
    moreover have "num_items (tbl d) = of_nat (length ys)" using inv Cons by (simp add: uth_inv_def list_ok_def with_tail_def)
    moreover have "tail (tbl d) = Some y" using assms(1) Cons by (simp add: selected_ok_def)
    ultimately show ?thesis using hd Cons by (auto simp: d1)
  qed
  then show "buckets_ok d1 (set ys)" "num_items (tbl d1) = of_nat (length ys)" "head d1 = Some (hd (ys @ [x]))"
    "tail (tbl d1) = Some (hd (ys @ [x]))"
    "log2_num_buckets (tbl d1) = (if ys = [] then 5 else log2_num_buckets (tbl d))"
    "ys = [] \<Longrightarrow> \<forall>b \<in> set (buckets (tbl d1)). expand_mult b = 0" by blast+
qed

lemma selecting_seg:
  assumes "selected_ok s d ys" "x \<notin> set ys"
  defines "m1 \<equiv> selecting_mem s (mem d) (final ys None) x"
  shows "seg (\<lambda>y. el_prev (m1 y)) (\<lambda>y. el_next (m1 y)) None (ys @ [x]) None"
proof (cases "ys = []")
  case True
  then show ?thesis by (simp add: m1_def selecting_mem_def)
next
  case False
  have "seg (\<lambda>y. el_prev (mem d y)) (\<lambda>y. el_next (mem d y)) None ys None" "distinct ys"
    using assms(1) False by (simp_all add: selected_ok_def uth_inv_def list_ok_def with_tail_def)
  from seg_snoc [OF this(1) assms(2) this(2) False]
  have "seg ((\<lambda>y. el_prev (mem d y))(x := Some (last ys))) ((\<lambda>y. el_next (mem d y))(x := None, last ys := Some x)) None (ys @ [x]) None" .
  moreover have "(\<lambda>y. el_prev (m1 y)) = (\<lambda>y. el_prev (mem d y))(x := Some (last ys))"
    "(\<lambda>y. el_next (m1 y)) = (\<lambda>y. el_next (mem d y))(x := None, last ys := Some x)"
    using False by (auto simp: m1_def selecting_mem_def Let_def final_def)
  ultimately show ?thesis by simp
qed

text \<open>After a successful addition to the bucket the selected elements are one more.\<close>

lemma selected_step:
  assumes "selected_ok s d ys" "x \<notin> set ys" "hashv (mem s x) = jen_hashv (hkey (mem s x))" "x < brk s"
    and "same_list (selecting s d (final ys None) x) d2" "buckets_ok d2 (set (ys @ [x]))"
    and "log2_num_buckets (tbl d2) \<le> 4 + length (ys @ [x])"
  shows "selected_ok s (d2\<lparr>tbl := (tbl d2)\<lparr>num_items := num_items (tbl d2) + 1\<rparr>\<rparr>) (ys @ [x])"
proof -
  define d3 where "d3 = d2\<lparr>tbl := (tbl d2)\<lparr>num_items := num_items (tbl d2) + 1\<rparr>\<rparr>"
  define m1 where "m1 = selecting_mem s (mem d) (final ys None) x"
  have inv: "uth_inv (with_tail d ys) ys" and br: "brk d = brk s" using assms(1) by (auto simp: selected_ok_def)
  have links: "el_prev (mem d3 y) = el_prev (m1 y)" "el_next (mem d3 y) = el_next (m1 y)"
      "hkey (mem d3 y) = hkey (m1 y)" "hashv (mem d3 y) = hashv (m1 y)" for y
    using assms(5) by (simp_all add: d3_def m1_def same_list_def)
  have hk: "hkey (m1 y) = hkey (mem s y) \<and> hashv (m1 y) = jen_hashv (hkey (m1 y))" if "y \<in> set (ys @ [x])" for y
  proof (cases "y = x")
    case False
    then have "y \<in> set ys" "ys \<noteq> []" using that by auto
    then show ?thesis using inv assms(1) False
      by (simp add: m1_def selecting_mem_other uth_inv_def list_ok_def with_tail_def selected_ok_def)
  qed (use assms(3) in \<open>simp add: m1_def selecting_mem_new\<close>)
  note b1 = selecting_buckets [OF assms(1,2)]
  have "list_ok (with_tail d3 (ys @ [x])) (ys @ [x])"
    using selecting_seg [OF assms(1,2)] hk assms(5) b1(2)
    by (simp add: list_ok_def with_tail_def links m1_def) (simp add: d3_def same_list_def)
  moreover have "buckets_ok (with_tail d3 (ys @ [x])) (set (ys @ [x]))"
    using assms(6) by (simp add: buckets_ok_tail d3_def) (simp add: buckets_ok_def)
  moreover have "head d3 = Some (hd (ys @ [x]))" "tail (tbl d3) = Some (hd (ys @ [x]))" "brk d3 = brk s"
    using assms(5) b1 br by (simp_all add: d3_def same_list_def)
  moreover have "distinct ys" "\<forall>y \<in> set ys. y < brk s" using inv br by (simp_all add: uth_inv_def with_tail_def)
  moreover have "log2_num_buckets (tbl d3) \<le> 4 + length (ys @ [x])" using assms(7) by (simp add: d3_def)
  ultimately have "selected_ok s d3 (ys @ [x])" using assms(2,4) hk links
    unfolding selected_ok_def uth_inv_def by (simp add: with_tail_def first_append) (cases ys; simp)
  then show ?thesis by (simp add: d3_def)
qed

lemma select_one_ok:
  assumes "selected_ok s d ys" "x \<notin> set ys" "length ys < 2 ^ 32 - 1" "hashv (mem s x) = jen_hashv (hkey (mem s x))" "x < brk s"
  shows "(\<exists>d1. select_one s (d, final ys None) x = Inr (d1, Some x) \<and> selected_ok s d1 (ys @ [x])) \<or>
    select_one s (d, final ys None) x = Inl Overflow \<and> 27 \<le> length ys"
proof -
  define d1 where "d1 = selecting s d (final ys None) x"
  note b1 = selecting_buckets [OF assms(1,2), folded d1_def]
  define j where "j = HASH_TO_BKT (hashv (mem s x)) (num_buckets (tbl d1))"
  have j: "j = HASH_TO_BKT (hashv (mem d1 x)) (num_buckets (tbl d1))" by (simp add: j_def d1_def selecting_mem_new)
  have lg: "ys \<noteq> [] \<longrightarrow> log2_num_buckets (tbl d) \<le> 4 + length ys" using assms(1) by (simp add: selected_ok_def)
  have n: "set ys = {} \<and> (\<forall>b \<in> set (buckets (tbl d1)). expand_mult b = 0) \<or> num_items (tbl d1) \<noteq> 0"
  proof (cases "ys = []")
    case False
    have "unat (of_nat (length ys) :: u32) = length ys" using assms(3) by (simp add: unat_of_nat)
    then show ?thesis using b1(2) False by force
  qed (use b1(6) in simp)
  have "\<forall>y \<in> set ys. y < brk d" "brk d = brk s" using assms(1) by (auto simp: selected_ok_def uth_inv_def with_tail_def)
  then have below: "\<forall>y \<in> insert x (set ys). y < brk d1" using assms(5) by (simp add: d1_def)
  note any = add_to_bkt_any [OF b1(1) assms(2) j below n]
  note run = select_one_selecting [of s d "final ys None" x, folded d1_def, folded j_def]
  show ?thesis
  proof (cases "HASH_ADD_TO_BKT d1 j x")
    case (Inl e)
    then have "e = Overflow" "31 \<le> log2_num_buckets (tbl d1)" using any by auto
    then show ?thesis using Inl b1(5) lg by (auto simp: run split: if_splits)
  next
    case (Inr d2)
    then have p: "buckets_ok d2 (set (ys @ [x]))" "same_list d1 d2" using any by auto
    have "log2_num_buckets (tbl d2) \<le> 4 + length (ys @ [x])"
    proof (cases "ys = []")
      case True
      then show ?thesis using add_first_log2 [OF _ j _ Inr] b1 by simp
    next
      case False
      then show ?thesis using add_to_bkt_log2 [OF Inr] b1(5) lg by simp
    qed
    from selected_step [OF assms(1,2,4,5) p(2) [unfolded d1_def] p(1) this] show ?thesis by (simp add: run Inr)
  qed
qed

lemma select_list_ok:
  "selected_ok s d ys \<Longrightarrow> distinct (ys @ zs) \<Longrightarrow> length (ys @ zs) < 2 ^ 32 \<Longrightarrow>
    \<forall>z \<in> set zs. hashv (mem s z) = jen_hashv (hkey (mem s z)) \<and> z < brk s \<Longrightarrow>
    (\<exists>d1. select_list s (d, final ys None) zs = Inr (d1, final (ys @ zs) None) \<and> selected_ok s d1 (ys @ zs)) \<or>
    select_list s (d, final ys None) zs = Inl Overflow \<and> 28 \<le> length (ys @ zs)"
proof (induction zs arbitrary: d ys)
  case Nil
  then show ?case by simp
next
  case (Cons z zs)
  from select_one_ok [OF Cons.prems(1), of z] Cons.prems(2-4)
  consider d1 where "select_one s (d, final ys None) z = Inr (d1, Some z)" "selected_ok s d1 (ys @ [z])"
    | "select_one s (d, final ys None) z = Inl Overflow" "27 \<le> length ys" by auto
  then show ?case
  proof cases
    case 1
    from Cons.IH [OF 1(2)] Cons.prems(2-4) 1(1) show ?thesis by simp
  qed simp
qed

lemma select_builds:
  assumes "uth_inv s xs" "head d = None" "brk d = brk s" "length (filter cond xs) < 2 ^ 32"
  shows "(\<exists>ys d1. set ys = {x \<in> set xs. cond x} \<and> HASH_SELECT d s cond = Inr d1 \<and> selected_ok s d1 ys) \<or>
    HASH_SELECT d s cond = Inl Overflow \<and> 28 \<le> length (filter cond xs)"
proof (cases "xs = []")
  case True
  have "selected_ok s d []" using assms(2,3) by (simp add: selected_ok_def uth_inv_def with_tail_def)
  moreover have "HASH_SELECT d s cond = Inr d" using True assms(1) by (simp add: HASH_SELECT_def uth_inv_def)
  moreover have "set [] = {x \<in> set xs. cond x}" using True by simp
  ultimately show ?thesis by blast
next
  case False
  have b: "buckets_ok s (set xs)" "list_ok s xs" "\<forall>x \<in> set xs. x < brk s" "distinct xs" "head s = first xs None"
    using assms(1) False by (simp_all add: uth_inv_def)
  obtain css where css: "list_all2 (bkt_ok (mem s)) (buckets (tbl s)) css" "distinct (concat css)" "set (concat css) = set xs"
      "\<forall>ys \<in> set css. distinct ys \<and> set ys \<subseteq> set xs"
    using b(1) unfolding buckets_ok_def by (metis table_chains)
  have "length ys \<le> brk s" if "ys \<in> set css" for ys
    using css(4) that b(3) by (intro distinct_below_length) auto
  note sel = select_buckets_list [OF css(1), where fuel = "brk s" and cond = cond and dl = "(d, None)"]
  define zs where "zs = filter cond (concat css)"
  have zs: "distinct zs" "set zs = {x \<in> set xs. cond x}" using css(2,3) by (auto simp: zs_def)
  have "set zs = set (filter cond xs)" using zs(2) by auto
  then have "length zs = length (filter cond xs)" using zs(1) b(4) by (metis distinct_card distinct_filter)
  then have len: "length ([] @ zs) < 2 ^ 32" using assms(4) by simp
  have e: "selected_ok s d []" using assms(2,3) by (simp add: selected_ok_def uth_inv_def with_tail_def)
  have d0: "distinct ([] @ zs)" using zs(1) by simp
  have h: "\<forall>z \<in> set zs. hashv (mem s z) = jen_hashv (hkey (mem s z)) \<and> z < brk s"
    using zs(2) b(2,3) by (simp add: list_ok_def)
  have "length (buckets (tbl s)) = 2 ^ log2_num_buckets (tbl s)" using b(1) by (simp add: buckets_ok_def table_ok_def)
  moreover have "unat (num_buckets (tbl s)) = 2 ^ log2_num_buckets (tbl s)"
    using b(1) by (simp add: buckets_ok_def unat_pow2)
  ultimately have "take (unat (num_buckets (tbl s))) (buckets (tbl s)) = buckets (tbl s)" by simp
  moreover have "head s \<noteq> None" using b(5) False by simp
  ultimately have "HASH_SELECT d s cond = bind_r (select_list s (d, None) zs) (\<lambda>(d1, _). Inr d1)"
    using sel \<open>\<And>ys. ys \<in> set css \<Longrightarrow> length ys \<le> brk s\<close>
    by (auto simp: HASH_SELECT_def zs_def split_beta)
  then show ?thesis using select_list_ok [OF e d0 len h] zs(2) \<open>length zs = length (filter cond xs)\<close> by auto
qed

lemma find_with_tail: "HASH_FIND (with_tail d ys) key = HASH_FIND d key"
  by (cases "head d") (simp_all add: HASH_FIND_def with_tail_def)

lemma find_selected:
  assumes "uth_inv (with_tail d1 ys) ys" "\<forall>x \<in> set ys. hkey (mem d1 x) = hkey (mem s x)" "set ys = {x \<in> set xs. cond x}"
  shows "\<exists>r. HASH_FIND d1 key = Inr r \<and> (case r of None \<Rightarrow> \<forall>x \<in> set xs. cond x \<longrightarrow> hkey (mem s x) \<noteq> key
       | Some x \<Rightarrow> x \<in> set xs \<and> cond x \<and> hkey (mem s x) = key)"
proof -
  obtain r where r: "HASH_FIND (with_tail d1 ys) key = Inr r" "case r of None \<Rightarrow> \<forall>x \<in> set ys. hkey (mem (with_tail d1 ys) x) \<noteq> key
      | Some x \<Rightarrow> x \<in> set ys \<and> hkey (mem (with_tail d1 ys) x) = key" using HASH_FIND_ok [OF assms(1)] by blast
  have "mem (with_tail d1 ys) = mem d1" by (simp add: with_tail_def)
  then show ?thesis using r assms(2,3) unfolding find_with_tail
    by (intro exI [of _ r]) (cases r; auto)
qed

section \<open>Adding behind a wrong tail\<close>

lemma add_behind_first:
  assumes "uth_inv (with_tail d ys) ys" "ys \<noteq> []" "tail (tbl d) = Some (hd ys)" "p \<notin> set ys" "p < brk d"
    and "length ys < 2 ^ 32 - 1" "log2_num_buckets (tbl d) < 31"
  shows "\<exists>d2. HASH_ADD_KEYPTR d key p = Inr d2 \<and> HASH_COUNT d2 = of_nat (length ys) + 1 \<and> head d2 = Some (hd ys) \<and>
    el_next (mem d2 (hd ys)) = Some p \<and> el_next (mem d2 p) = None"
proof -
  define h where "h = hd ys"
  have h: "h \<in> set ys" "h \<noteq> p" "tail (tbl d) = Some h" "head d = Some h"
    using assms(1-4) by (cases ys; auto simp: h_def uth_inv_def with_tail_def)+
  define m where "m = (mem d)(h := (mem d h)\<lparr>el_next := Some p\<rparr>,
      p := (mem d p)\<lparr>el_next := None, hkey := key, el_prev := Some h, hashv := jen_hashv key\<rparr>)"
  define s1 where "s1 = d\<lparr>tbl := (tbl d)\<lparr>tail := Some p, num_items := num_items (tbl d) + 1\<rparr>, mem := m\<rparr>"
  have run: "HASH_ADD_KEYPTR d key p = HASH_ADD_TO_BKT s1 (HASH_TO_BKT (hashv (mem s1 p)) (num_buckets (tbl s1))) p"
    using h by (simp add: HASH_ADD_KEYPTR_def Let_def HASH_JEN_def s1_def m_def fun_upd_twist)
  have "buckets_ok d (set ys)" and n: "num_items (tbl d) = of_nat (length ys)"
    using assms(1,2) by (simp_all add: uth_inv_def buckets_ok_tail) (simp add: list_ok_def with_tail_def)
  from buckets_ok_mem [OF this(1), of "d\<lparr>mem := m\<rparr>"] assms(4) h
  have b: "buckets_ok s1 (set ys)" by (auto simp: s1_def m_def buckets_ok_def)
  have "unat (of_nat (Suc (length ys)) :: u32) = Suc (length ys)" using assms(6) by (simp only: unat_of_nat) simp
  moreover have "num_items (tbl s1) = of_nat (Suc (length ys))" using n by (simp add: s1_def)
  ultimately have nz: "num_items (tbl s1) \<noteq> 0" by force
  have br: "\<forall>x \<in> insert p (set ys). x < brk s1" using assms(1,5) by (auto simp: uth_inv_def with_tail_def s1_def)
  have lg: "log2_num_buckets (tbl s1) < 31" using assms(7) by (simp add: s1_def)
  obtain d2 where "HASH_ADD_KEYPTR d key p = Inr d2" "same_list s1 d2"
    using HASH_ADD_TO_BKT_ok [OF b assms(4) refl br nz lg] run by auto
  then show ?thesis using h n by (auto simp: same_list_def s1_def m_def HASH_COUNT_def h_def)
qed

section \<open>Properties\<close>

text \<open>
  C32. A Bloom filter never hides an element: in a build with HASH_BLOOM of at most 32 bits, after the hash values
  of all elements (and any others) have been added to the filter, every lookup returns what it returns without it, and
  no access leaves the bit vector.
\<close>

theorem bloom_find_equivalent:
  assumes "uth_inv s xs" "n \<le> 32" "\<forall>x \<in> set xs. jen_hashv (hkey (mem s x)) \<in> set hs"
  shows "\<exists>bl. bloom_adds (HASH_BLOOM_MAKE n) hs = Inr bl \<and> (\<forall>key. HASH_FIND_bloom bl s key = HASH_FIND s key)"
proof -
  obtain bl where bl: "bloom_adds (HASH_BLOOM_MAKE n) hs = Inr bl" "bloom_nbits bl = n"
      "length (bloom_bv bl) = HASH_BLOOM_BYTELEN n" "\<forall>h \<in> set hs. has_bit (bloom_bv bl) (bloom_index bl h)"
    using bloom_adds_ok [of "HASH_BLOOM_MAKE n" n hs] assms(2) by (auto simp: HASH_BLOOM_MAKE_def)
  have "HASH_FIND_bloom bl s key = HASH_FIND s key" for key
  proof -
    let ?h = "jen_hashv key"
    have "unat (bloom_index bl ?h) div 8 < length (bloom_bv bl)" using bloom_index_cell [of bl ?h] bl(2,3) assms(2) by simp
    then obtain t where t: "HASH_BLOOM_TEST bl ?h = Inr t" "t \<noteq> 0 \<longleftrightarrow> has_bit (bloom_bv bl) (bloom_index bl ?h)"
      using BITTEST_ok by (auto simp: HASH_BLOOM_TEST_def)
    obtain r where r: "HASH_FIND s key = Inr r" "case r of None \<Rightarrow> \<forall>x \<in> set xs. hkey (mem s x) \<noteq> key
        | Some x \<Rightarrow> x \<in> set xs \<and> hkey (mem s x) = key" using HASH_FIND_ok [OF assms(1)] by blast
    show ?thesis
    proof (cases "t = 0")
      case True
      have "r = None"
      proof (rule ccontr)
        assume "r \<noteq> None"
        then obtain x where "x \<in> set xs" "hkey (mem s x) = key" using r(2) by auto
        then have "has_bit (bloom_bv bl) (bloom_index bl ?h)" using assms(3) bl(4) by auto
        then show False using t(2) True by simp
      qed
      then show ?thesis using r(1) t(1) True by (cases "head s") (simp_all add: HASH_FIND_bloom_def split_beta)
    next
      case False
      then show ?thesis using t(1) by (cases "head s") (simp_all add: HASH_FIND_bloom_def HASH_FIND_def split_beta)
    qed
  qed
  then show ?thesis using bl(1) by blast
qed

theorem bloom_find_equivalent_witness:
  "\<exists>(s :: int uth) bl p. HASH_FIND s [1] = Inr (Some p) \<and> bloom_adds (HASH_BLOOM_MAKE 5) [jen_hashv [1]] = Inr bl \<and>
    HASH_FIND_bloom bl s [1] = Inr (Some p)"
proof -
  obtain s :: "int uth" and p where s: "uth_rep s [([1], p)]" using uth_insert_law [OF uth_empty_rep, of "[1]" 0 "2 :: int"] by auto
  then have inv: "uth_inv s [p]" and k: "hkey (mem s p) = [1]" by (auto simp: uth_rep_def)
  have "\<forall>x \<in> set [p]. jen_hashv (hkey (mem s x)) \<in> set [jen_hashv [1]]" using k by simp
  from bloom_find_equivalent [OF inv _ this, of 5] obtain bl where bl:
    "bloom_adds (HASH_BLOOM_MAKE 5) [jen_hashv [1]] = Inr bl" "HASH_FIND_bloom bl s [1] = HASH_FIND s [1]" by auto
  have "HASH_FIND s [1] = Inr (Some p)"
  proof -
    obtain r where "HASH_FIND s [1] = Inr r" "case r of None \<Rightarrow> \<forall>x \<in> set [p]. hkey (mem s x) \<noteq> [1]
        | Some x \<Rightarrow> x \<in> set [p] \<and> hkey (mem s x) = [1]" using HASH_FIND_ok [OF inv] by blast
    then show ?thesis using k by (cases r) auto
  qed
  then show ?thesis using bl by auto
qed

text \<open>
  C33. HASH_SELECT of any number of elements below 2^32 - 1 into an empty hash (dst is NULL) either stops at the
  expansion of a table of 2^31 buckets (a shift by 32, undefined), which takes 28 selected elements at least, or builds a
  hash of exactly the selected elements, each once, that every lookup can use and whose list visits them all, but with
  the wrong tail: it stays at the first selected element. The next HASH_ADD of another element succeeds (unless the table
  has 2^31 buckets) and links the new element directly behind the first one: the count is right, but an iteration
  visits these two only and misses all the other selected elements.
\<close>

theorem select_leaves_tail:
  assumes "uth_inv s xs" "head d = None" "brk d = brk s" "length (filter cond xs) < 2 ^ 32 - 1" "p \<notin> set xs" "p < brk s"
  shows "HASH_SELECT d s cond = Inl Overflow \<and> 28 \<le> length (filter cond xs) \<or>
    (\<exists>d1 ys. HASH_SELECT d s cond = Inr d1 \<and> distinct ys \<and> set ys = {x \<in> set xs. cond x} \<and>
      head d1 = first ys None \<and>
      (\<forall>key. \<exists>r. HASH_FIND d1 key = Inr r \<and>
        (case r of None \<Rightarrow> \<forall>x \<in> set xs. cond x \<longrightarrow> hkey (mem s x) \<noteq> key
         | Some x \<Rightarrow> x \<in> set xs \<and> cond x \<and> hkey (mem s x) = key)) \<and>
      (ys \<noteq> [] \<longrightarrow>
        seg (\<lambda>x. el_prev (mem d1 x)) (\<lambda>x. el_next (mem d1 x)) None ys None \<and>
        tail (tbl d1) = Some (hd ys) \<and>
        log2_num_buckets (tbl d1) \<le> 4 + length ys \<and>
        (log2_num_buckets (tbl d1) < 31 \<longrightarrow>
          (\<forall>key. \<exists>d2. HASH_ADD_KEYPTR d1 key p = Inr d2 \<and> HASH_COUNT d2 = of_nat (length ys) + 1 \<and>
            head d2 = Some (hd ys) \<and> el_next (mem d2 (hd ys)) = Some p \<and> el_next (mem d2 p) = None))))"
proof (cases "HASH_SELECT d s cond = Inl Overflow \<and> 28 \<le> length (filter cond xs)")
  case False
  then obtain ys d1 where ys: "set ys = {x \<in> set xs. cond x}" "HASH_SELECT d s cond = Inr d1" "selected_ok s d1 ys"
    using select_builds [OF assms(1-3), of cond] assms(4) by auto
  have inv: "uth_inv (with_tail d1 ys) ys" and keys: "\<forall>x \<in> set ys. hkey (mem d1 x) = hkey (mem s x)"
    and t: "ys \<noteq> [] \<longrightarrow> tail (tbl d1) = Some (hd ys)" and br: "brk d1 = brk s"
    and lg: "ys \<noteq> [] \<longrightarrow> log2_num_buckets (tbl d1) \<le> 4 + length ys" using ys(3) by (auto simp: selected_ok_def)
  have list: "distinct ys" "head d1 = first ys None"
      "ys \<noteq> [] \<longrightarrow> seg (\<lambda>x. el_prev (mem d1 x)) (\<lambda>x. el_next (mem d1 x)) None ys None"
    using inv by (auto simp: uth_inv_def list_ok_def with_tail_def)
  have "length ys = length (filter cond xs)"
    using ys(1) list(1) assms(1) by (metis distinct_card distinct_filter set_filter uth_inv_def)
  then have add: "\<exists>d2. HASH_ADD_KEYPTR d1 key p = Inr d2 \<and> HASH_COUNT d2 = of_nat (length ys) + 1 \<and>
      head d2 = Some (hd ys) \<and> el_next (mem d2 (hd ys)) = Some p \<and> el_next (mem d2 p) = None"
    if "ys \<noteq> []" "log2_num_buckets (tbl d1) < 31" for key
    by (intro add_behind_first [OF inv that(1)]) (use t that assms(4-6) ys(1) br in auto)
  have "\<exists>r. HASH_FIND d1 key = Inr r \<and> (case r of None \<Rightarrow> \<forall>x \<in> set xs. cond x \<longrightarrow> hkey (mem s x) \<noteq> key
       | Some x \<Rightarrow> x \<in> set xs \<and> cond x \<and> hkey (mem s x) = key)" for key
    using find_selected [OF inv keys ys(1)] .
  then show ?thesis using ys(1,2) list t lg add by blast
qed blast

theorem select_leaves_tail_witness:
  "\<exists>(s :: int uth) d (d1 :: int uth) x y p d2. HASH_SELECT d s (\<lambda>_. True) = Inr d1 \<and> distinct [x, y, p] \<and>
    HASH_FIND d1 [1] \<noteq> Inr None \<and> HASH_FIND d1 [2] \<noteq> Inr None \<and> el_next (mem d1 x) = Some y \<and>
    HASH_ADD_KEYPTR d1 [3] p = Inr d2 \<and> HASH_COUNT d2 = 3 \<and>
    head d2 = Some x \<and> el_next (mem d2 x) = Some p \<and> el_next (mem d2 p) = None"
proof -
  obtain s1 :: "int uth" and q where s1: "uth_rep s1 [([1], q)]"
    using uth_insert_law [OF uth_empty_rep, of "[1]" 0 "2 :: int"] by auto
  obtain s2 :: "int uth" and r where s2: "uth_rep s2 [([1], q), ([2], r)]"
    using uth_insert_law [OF s1, of "[2]" 1] by auto
  define p where "p = brk s2"
  define s where "s = s2\<lparr>mem := (mem s2)(p := (mem s2 p)\<lparr>payload := 7\<rparr>), brk := brk s2 + 1\<rparr>"
  have inv2: "uth_inv s2 [q, r]" using s2 by (simp add: uth_rep_def)
  have inv: "uth_inv s [q, r]" using payload_inv [OF inv2, of "brk s2 + 1" p 7] by (simp add: s_def)
  have pf: "p \<notin> set [q, r]" "p < brk s" using inv2 by (auto simp: uth_inv_def p_def s_def)
  have keys: "hkey (mem s q) = [1]" "hkey (mem s r) = [2]" and qr: "q \<noteq> r" using s2 by (auto simp: uth_rep_def uth_inv_def s_def)
  define d :: "int uth" where "d = (uth_empty 0)\<lparr>brk := brk s\<rparr>"
  have d: "head d = None" "brk d = brk s" by (simp_all add: d_def uth_empty_def)
  have few: "length (filter (\<lambda>_. True) [q, r]) < 2 ^ 32 - 1" "\<not> 28 \<le> length (filter (\<lambda>_. True) [q, r])" by simp_all
  obtain d1 ys where t: "HASH_SELECT d s (\<lambda>_. True) = Inr d1" "distinct ys" "set ys = {x \<in> set [q, r]. True}"
      "\<forall>key. \<exists>f. HASH_FIND d1 key = Inr f \<and> (case f of None \<Rightarrow> \<forall>x \<in> set [q, r]. True \<longrightarrow> hkey (mem s x) \<noteq> key
        | Some x \<Rightarrow> x \<in> set [q, r] \<and> True \<and> hkey (mem s x) = key)"
      "ys \<noteq> [] \<longrightarrow> seg (\<lambda>x. el_prev (mem d1 x)) (\<lambda>x. el_next (mem d1 x)) None ys None \<and>
        log2_num_buckets (tbl d1) \<le> 4 + length ys \<and> (log2_num_buckets (tbl d1) < 31 \<longrightarrow>
          (\<exists>d2. HASH_ADD_KEYPTR d1 [3] p = Inr d2 \<and> HASH_COUNT d2 = of_nat (length ys) + 1 \<and>
            head d2 = Some (hd ys) \<and> el_next (mem d2 (hd ys)) = Some p \<and> el_next (mem d2 p) = None))"
    using select_leaves_tail [OF inv d few(1) pf] few(2) by blast
  have "\<exists>f. HASH_FIND d1 key = Inr f \<and> f \<noteq> None" if "key \<in> {[1], [2]}" for key
    using t(4) [THEN spec, of key] keys that by (auto split: option.splits)
  then have find: "HASH_FIND d1 [1] \<noteq> Inr None" "HASH_FIND d1 [2] \<noteq> Inr None" by fastforce+
  have "length ys = 2" using distinct_card [OF t(2)] t(3) qr by (auto simp: Collect_disj_eq)
  then obtain x y where xy: "ys = [x, y]" by (auto simp: numeral_2_eq_2 length_Suc_conv)
  have "set ys \<subseteq> set [q, r]" using t(3) by auto
  then have "distinct [x, y, p]" using xy t(2) pf(1) by auto
  moreover obtain d2 where "HASH_ADD_KEYPTR d1 [3] p = Inr d2" "HASH_COUNT d2 = 3" "head d2 = Some x"
      "el_next (mem d2 x) = Some p" "el_next (mem d2 p) = None" using t(5) xy by auto
  moreover have "el_next (mem d1 x) = Some y" using t(5) xy by simp
  ultimately show ?thesis using t(1) find by blast
qed

end
