(* ===== verification/Uthash_Murmur.thy ===== *)
theory Uthash_Murmur
  imports Uthash_Hash
begin

text \<open>
  How MurmurHash in uthash.h reads the 4-byte blocks of a key on machines that cannot read a word at an
  unaligned address: two aligned words are read and their parts put together. The memory is a function from the
  numbers of the aligned words; both byte orders of the header are modelled.
\<close>

unbundle bit_operations_syntax

type_synonym word_mem = "int \<Rightarrow> u32"

definition MUR_PLUS0_ALIGNED :: "int \<Rightarrow> bool" where "MUR_PLUS0_ALIGNED p \<longleftrightarrow> p AND 3 = 0"

definition MUR_PLUS1_ALIGNED :: "int \<Rightarrow> bool" where "MUR_PLUS1_ALIGNED p \<longleftrightarrow> p AND 3 = 1"

definition MUR_PLUS2_ALIGNED :: "int \<Rightarrow> bool" where "MUR_PLUS2_ALIGNED p \<longleftrightarrow> p AND 3 = 2"

definition MUR_PLUS3_ALIGNED :: "int \<Rightarrow> bool" where "MUR_PLUS3_ALIGNED p \<longleftrightarrow> p AND 3 = 3"

text \<open>\<open>WP\<close>: the number of the aligned word that holds the address.\<close>

definition WP :: "int \<Rightarrow> int" where "WP p = (p AND NOT 3) div 4"

definition MUR_THREE_ONE :: "bool \<Rightarrow> word_mem \<Rightarrow> int \<Rightarrow> u32" where
  "MUR_THREE_ONE big W p =
     (if big then shl (W (WP p) AND 0x00ffffff) 8 OR shr (W (WP p + 1) AND 0xff000000) 24
      else shr (W (WP p) AND 0xffffff00) 8 OR shl (W (WP p + 1) AND 0x000000ff) 24)"

definition MUR_TWO_TWO :: "bool \<Rightarrow> word_mem \<Rightarrow> int \<Rightarrow> u32" where
  "MUR_TWO_TWO big W p =
     (if big then shl (W (WP p) AND 0x0000ffff) 16 OR shr (W (WP p + 1) AND 0xffff0000) 16
      else shr (W (WP p) AND 0xffff0000) 16 OR shl (W (WP p + 1) AND 0x0000ffff) 16)"

definition MUR_ONE_THREE :: "bool \<Rightarrow> word_mem \<Rightarrow> int \<Rightarrow> u32" where
  "MUR_ONE_THREE big W p =
     (if big then shl (W (WP p) AND 0x000000ff) 24 OR shr (W (WP p + 1) AND 0xffffff00) 8
      else shr (W (WP p) AND 0xff000000) 24 OR shl (W (WP p + 1) AND 0x00ffffff) 8)"

definition MUR_GETBLOCK :: "bool \<Rightarrow> word_mem \<Rightarrow> int \<Rightarrow> int \<Rightarrow> u32" where
  "MUR_GETBLOCK big W p i =
     (if MUR_PLUS0_ALIGNED p then W (WP p + i)
      else if MUR_PLUS1_ALIGNED p then MUR_THREE_ONE big W p
      else if MUR_PLUS2_ALIGNED p then MUR_TWO_TWO big W p
      else MUR_ONE_THREE big W p)"

text \<open>The loop over the blocks: \<open>p\<close> is the end of the last whole block and \<open>n\<close> the number of blocks.\<close>

fun mur_block_loop :: "bool \<Rightarrow> word_mem \<Rightarrow> int \<Rightarrow> nat \<Rightarrow> u32 \<Rightarrow> u32" where
  "mur_block_loop big W p 0 h = h"
| "mur_block_loop big W p (Suc n) h =
     mur_block_loop big W p n
       (MUR_ROTL32 (h XOR mur_k (MUR_GETBLOCK big W p (- int (Suc n)))) 13 * 5 + 0xe6546b64)"

section \<open>What is read\<close>

text \<open>A byte, and the four bytes at an address as the machine would read them as one word.\<close>

definition byte_at :: "bool \<Rightarrow> word_mem \<Rightarrow> int \<Rightarrow> u32" where
  "byte_at big W a = take_bit 8 (shr (W (a div 4)) (8 * nat (if big then 3 - a mod 4 else a mod 4)))"

definition word_at :: "bool \<Rightarrow> word_mem \<Rightarrow> int \<Rightarrow> u32" where
  "word_at big W a =
     (if big then shl (byte_at big W a) 24 OR shl (byte_at big W (a + 1)) 16 OR shl (byte_at big W (a + 2)) 8 OR
        byte_at big W (a + 3)
      else byte_at big W a OR shl (byte_at big W (a + 1)) 8 OR shl (byte_at big W (a + 2)) 16 OR
        shl (byte_at big W (a + 3)) 24)"

lemma masks: "(0x000000ff :: u32) = mask 8" "(0x0000ffff :: u32) = mask 16" "(0x00ffffff :: u32) = mask 24"
  "(0xffffff00 :: u32) = NOT (mask 8)" "(0xffff0000 :: u32) = NOT (mask 16)" "(0xff000000 :: u32) = NOT (mask 24)"
  by (simp_all add: mask_eq_exp_minus_1)

lemma WP_div: "WP p = p div 4"
proof -
  have "p AND NOT (mask 2) = push_bit 2 (drop_bit 2 p)" 
    by (rule bit_eqI) (auto simp: bit_simps not_less, (metis add_2_eq_Suc le_add_diff_inverse)+)
  moreover have "(3 :: int) = mask 2" by (simp add: mask_eq_exp_minus_1)
  ultimately show ?thesis by (simp add: WP_def push_bit_eq_mult drop_bit_eq_div)
qed

lemma and3: "p AND 3 = p mod (4 :: int)"
  using take_bit_eq_mask [of 2 p] by (simp add: take_bit_eq_mod mask_eq_exp_minus_1)

lemma word_bits: "n < 32 \<Longrightarrow> (n :: nat) < 8 \<or> 8 \<le> n \<and> n < 16 \<or> 16 \<le> n \<and> n < 24 \<or> 24 \<le> n \<and> n < 32"
  by auto

lemma quarters:
  "(4 * q) div 4 = (q :: int)" "(4 * q + 1) div 4 = q" "(4 * q + 2) div 4 = q" "(4 * q + 3) div 4 = q"
  "(4 * q + 4) div 4 = q + 1" "(4 * q + 5) div 4 = q + 1" "(4 * q + 6) div 4 = q + 1"
  "(4 * q) mod 4 = 0" "(4 * q + 1) mod 4 = 1" "(4 * q + 2) mod 4 = 2" "(4 * q + 3) mod 4 = 3"
  "(4 * q + 4) mod 4 = 0" "(4 * q + 5) mod 4 = 1" "(4 * q + 6) mod 4 = 2"
  by presburger+

text \<open>The words put together are the bytes at the address, for every alignment and both byte orders.\<close>

lemmas murmur_defs = MUR_GETBLOCK_def MUR_PLUS0_ALIGNED_def MUR_PLUS1_ALIGNED_def MUR_PLUS2_ALIGNED_def
  MUR_THREE_ONE_def MUR_TWO_TWO_def MUR_ONE_THREE_def WP_div and3 word_at_def byte_at_def

lemma getblock_bytes: "MUR_GETBLOCK big W p 0 = word_at big W p"
proof (rule bit_word_eqI)
  fix n assume "n < LENGTH(32)"
  then have n: "n < 8 \<or> 8 \<le> n \<and> n < 16 \<or> 16 \<le> n \<and> n < 24 \<or> 24 \<le> n \<and> n < 32" by auto
  define q where "q = p div 4"
  have "p = 4 * q \<or> p = 4 * q + 1 \<or> p = 4 * q + 2 \<or> p = 4 * q + 3" unfolding q_def by presburger
  then show "bit (MUR_GETBLOCK big W p 0) n = bit (word_at big W p) n"
  proof (elim disjE)
    assume p: "p = 4 * q"
    show ?thesis using n by (elim disjE conjE; cases big)
      (auto simp: murmur_defs p quarters masks bit_simps not_less less_diff_conv2 le_diff_conv2
        add.commute [of 1 q])
  next
    assume p: "p = 4 * q + 1"
    show ?thesis using n by (elim disjE conjE; cases big)
      (auto simp: murmur_defs p quarters masks bit_simps not_less less_diff_conv2 le_diff_conv2
        add.commute [of 1 q])
  next
    assume p: "p = 4 * q + 2"
    show ?thesis using n by (elim disjE conjE; cases big)
      (auto simp: murmur_defs p quarters masks bit_simps not_less less_diff_conv2 le_diff_conv2
        add.commute [of 1 q])
  next
    assume p: "p = 4 * q + 3"
    show ?thesis using n by (elim disjE conjE; cases big)
      (auto simp: murmur_defs p quarters masks bit_simps not_less less_diff_conv2 le_diff_conv2
        add.commute [of 1 q])
  qed
qed

text \<open>An aligned key is read block by block.\<close>

lemma getblock_aligned: "p mod 4 = 0 \<Longrightarrow> MUR_GETBLOCK big W p i = word_at big W (p + 4 * i)"
  using getblock_bytes [of big W "p + 4 * i"]
  by (simp add: MUR_GETBLOCK_def MUR_PLUS0_ALIGNED_def and3 WP_div add.commute)

lemma getblock_unaligned: "p mod 4 \<noteq> 0 \<Longrightarrow> MUR_GETBLOCK big W p i = word_at big W p"
  using getblock_bytes [of big W p] by (simp add: MUR_GETBLOCK_def MUR_PLUS0_ALIGNED_def and3)

text \<open>
  C34. On such a machine the macro drops its index when the key is not aligned: every block is the four bytes after the
  last whole block, outside a key whose length is a multiple of 4, and the key's own blocks do not enter the hash.
\<close>

theorem murmur_ignores_unaligned_key:
  assumes "p mod 4 \<noteq> 0" "\<forall>a \<in> {p .. p + 3}. byte_at big W a = byte_at big W' a"
  shows "mur_block_loop big W p n h = mur_block_loop big W' p n h"
proof -
  have "byte_at big W p = byte_at big W' p" "byte_at big W (p + 1) = byte_at big W' (p + 1)"
    "byte_at big W (p + 2) = byte_at big W' (p + 2)" "byte_at big W (p + 3) = byte_at big W' (p + 3)"
    using assms(2) by auto
  then have "word_at big W p = word_at big W' p" unfolding word_at_def by (simp only:)
  then show ?thesis by (induction n arbitrary: h) (simp_all add: getblock_unaligned [OF assms(1)])
qed

text \<open>Two keys of four bytes, at address 1, with the same bytes after them.\<close>

theorem murmur_ignores_unaligned_key_witness:
  "byte_at False (\<lambda>_. 0) 1 \<noteq> byte_at False (\<lambda>w. if w = 0 then 0xff00 else 0) 1 \<and>
   mur_block_loop False (\<lambda>_. 0) 5 1 0 = mur_block_loop False (\<lambda>w. if w = 0 then 0xff00 else 0) 5 1 0"
proof -
  have "\<forall>a \<in> {5 .. 5 + 3 :: int}. byte_at False (\<lambda>_. 0) a = byte_at False (\<lambda>w. if w = 0 then 0xff00 else 0) a"
  proof
    fix a :: int assume "a \<in> {5 .. 5 + 3}"
    then have "a div 4 \<noteq> 0" by auto
    then show "byte_at False (\<lambda>_. 0) a = byte_at False (\<lambda>w. if w = 0 then 0xff00 else 0) a" by (simp add: byte_at_def)
  qed
  moreover have "byte_at False (\<lambda>_. 0) 1 \<noteq> byte_at False (\<lambda>w. if w = 0 then 0xff00 else 0) 1"
    by (simp add: byte_at_def take_bit_eq_mask mask_eq_exp_minus_1)
  ultimately show ?thesis using murmur_ignores_unaligned_key [of 5 False, where n = 1 and h = 0] by (simp del: mur_block_loop.simps)
qed

end
