(* ===== verification/Dill_Tables.thy ===== *)
theory Dill_Tables
  imports Doubles
begin

text \<open>
  The tables of DILL, the code generator that compiles the handler of the multi stone (include/dill.h,
  generated from a description of the operations): types, streams, the table of function pointers of a back
  end, and the slot of every typed operation in it. The back ends are not part of the repository: a function
  pointer is a value of a type parameter.
\<close>

section \<open>Types\<close>

datatype dill_type = DILL_C | DILL_UC | DILL_S | DILL_US | DILL_I | DILL_U | DILL_L | DILL_UL | DILL_P |
  DILL_F | DILL_D | DILL_V | DILL_B | DILL_EC | DILL_ERR

text \<open>The values of the enumeration.\<close>

fun type_no :: "dill_type \<Rightarrow> int" where
  "type_no DILL_C = 0" | "type_no DILL_UC = 1" | "type_no DILL_S = 2" | "type_no DILL_US = 3"
| "type_no DILL_I = 4" | "type_no DILL_U = 5" | "type_no DILL_L = 6" | "type_no DILL_UL = 7"
| "type_no DILL_P = 8" | "type_no DILL_F = 9" | "type_no DILL_D = 10" | "type_no DILL_V = 11"
| "type_no DILL_B = 12" | "type_no DILL_EC = 13" | "type_no DILL_ERR = 14"

text \<open>The types that the names of the macros have suffixes for: c, uc, s, us, i, u, l, ul, p, f, d.\<close>

definition dill_types :: "dill_type list" where
  "dill_types = [DILL_C, DILL_UC, DILL_S, DILL_US, DILL_I, DILL_U, DILL_L, DILL_UL, DILL_P, DILL_F, DILL_D]"

definition is_float :: "dill_type \<Rightarrow> bool" where
  "is_float t \<longleftrightarrow> t = DILL_F \<or> t = DILL_D"

datatype special_operations = DILL_NOP | DILL_SEGMENTED_FOLLOWS

fun special_no :: "special_operations \<Rightarrow> int" where
  "special_no DILL_NOP = 0" | "special_no DILL_SEGMENTED_FOLLOWS = 1"

section \<open>Back ends and streams\<close>

record jmp_data =
  data1 :: int
  data2 :: int

text \<open>
  The members that the macros use. \<open>bsload\<close> and \<open>special\<close> are compared with 0 by
  \<open>dill_has_ldbs\<close> and \<open>dill_special\<close>, so they may be absent.
\<close>

record 'f jmp_table =
  type_align :: "int list"
  jmp_a3 :: "'f list"
  a3_data :: "jmp_data list"
  jmp_a3i :: "'f list"
  a3i_data :: "jmp_data list"
  jmp_f3i :: "'f list"
  f3i_data :: "jmp_data list"
  jmp_a2 :: "'f list"
  jmp_a2i :: "'f list"
  a2_data :: "jmp_data list"
  jmp_b :: "'f list"
  jmp_bi :: "'f list"
  b_data :: "jmp_data list"
  jmp_c :: "'f list"
  jmp_ci :: "'f list"
  c_data :: "jmp_data list"
  convert :: 'f
  load :: 'f
  bsload :: "'f option"
  loadi :: 'f
  bsloadi :: 'f
  store :: 'f
  storei :: 'f
  ret :: 'f
  reti :: 'f
  retf :: 'f
  mov :: 'f
  set_op :: 'f
  setf :: 'f
  setp :: 'f
  jv :: 'f
  jp :: 'f
  jpi :: 'f
  jal :: 'f
  special :: "'f option"
  calli :: 'f
  callr :: 'f
  push :: 'f
  pushi :: 'f
  pushfi :: 'f
  pushpi :: 'f
  local_op :: 'f
  save_restore :: 'f
  type_size :: "int list"
  lea :: 'f
  target_byte_order :: int
  target_float_format :: int

record ('f, 'p) dill_stream =
  dill_j :: "'f jmp_table"
  dill_p :: 'p
  dill_local_pointer :: int
  dill_param_reg_pointer :: int
  dill_debug :: int

section \<open>The slots\<close>

datatype arith = Add | Sub | Mul | Div | Mod | Xor | And | Or | Lsh | Rsh

datatype unary = Not | Com | Neg | Bswap

datatype cond = EQ | GE | GT | LE | LT | NE

text \<open>\<open>dill_jmp_addi\<close> is 0, and so on.\<close>

definition dill_jmp_a3 :: "((arith \<times> dill_type) \<times> int) list" where
  "dill_jmp_a3 = [
    ((Add, DILL_I), 0), ((Add, DILL_U), 1), ((Add, DILL_UL), 2), ((Add, DILL_L), 3),
    ((Sub, DILL_I), 4), ((Sub, DILL_U), 5), ((Sub, DILL_UL), 6), ((Sub, DILL_L), 7),
    ((Mul, DILL_I), 8), ((Mul, DILL_U), 9), ((Mul, DILL_UL), 10), ((Mul, DILL_L), 11),
    ((Div, DILL_I), 12), ((Div, DILL_U), 13), ((Div, DILL_UL), 14), ((Div, DILL_L), 15),
    ((Mod, DILL_I), 16), ((Mod, DILL_U), 17), ((Mod, DILL_UL), 18), ((Mod, DILL_L), 19),
    ((Xor, DILL_I), 20), ((Xor, DILL_U), 21), ((Xor, DILL_UL), 22), ((Xor, DILL_L), 23),
    ((And, DILL_I), 24), ((And, DILL_U), 25), ((And, DILL_UL), 26), ((And, DILL_L), 27),
    ((Or, DILL_I), 28), ((Or, DILL_U), 29), ((Or, DILL_UL), 30), ((Or, DILL_L), 31),
    ((Lsh, DILL_I), 32), ((Lsh, DILL_U), 33), ((Lsh, DILL_UL), 34), ((Lsh, DILL_L), 35),
    ((Rsh, DILL_I), 36), ((Rsh, DILL_U), 37), ((Rsh, DILL_UL), 38), ((Rsh, DILL_L), 39),
    ((Add, DILL_P), 40), ((Sub, DILL_P), 41), ((Add, DILL_F), 42), ((Add, DILL_D), 43),
    ((Sub, DILL_F), 44), ((Sub, DILL_D), 45), ((Mul, DILL_F), 46), ((Mul, DILL_D), 47),
    ((Div, DILL_F), 48), ((Div, DILL_D), 49)]"

definition dill_jmp_a2 :: "((unary \<times> dill_type) \<times> int) list" where
  "dill_jmp_a2 = [
    ((Not, DILL_I), 0), ((Not, DILL_U), 1), ((Not, DILL_UL), 2), ((Not, DILL_L), 3),
    ((Com, DILL_I), 4), ((Com, DILL_U), 5), ((Com, DILL_UL), 6), ((Com, DILL_L), 7),
    ((Neg, DILL_I), 8), ((Neg, DILL_U), 9), ((Neg, DILL_UL), 10), ((Neg, DILL_L), 11),
    ((Bswap, DILL_S), 12), ((Bswap, DILL_US), 13), ((Bswap, DILL_I), 14), ((Bswap, DILL_U), 15),
    ((Bswap, DILL_UL), 16), ((Bswap, DILL_L), 17), ((Bswap, DILL_F), 18), ((Bswap, DILL_D), 19),
    ((Neg, DILL_F), 20), ((Neg, DILL_D), 21)]"

fun dill_cond_code :: "cond \<Rightarrow> int" where
  "dill_cond_code EQ = 0" | "dill_cond_code GE = 1" | "dill_cond_code GT = 2"
| "dill_cond_code LE = 3" | "dill_cond_code LT = 4" | "dill_cond_code NE = 5"

definition dill_jmp_b :: "((cond \<times> dill_type) \<times> int) list" where
  "dill_jmp_b = [
    ((EQ, DILL_C), 0), ((EQ, DILL_UC), 1), ((EQ, DILL_S), 2), ((EQ, DILL_US), 3), ((EQ, DILL_I), 4),
    ((EQ, DILL_U), 5), ((EQ, DILL_L), 6), ((EQ, DILL_UL), 7), ((EQ, DILL_P), 8), ((EQ, DILL_F), 9),
    ((EQ, DILL_D), 10), ((GE, DILL_C), 11), ((GE, DILL_UC), 12), ((GE, DILL_S), 13),
    ((GE, DILL_US), 14), ((GE, DILL_I), 15), ((GE, DILL_U), 16), ((GE, DILL_L), 17),
    ((GE, DILL_UL), 18), ((GE, DILL_P), 19), ((GE, DILL_F), 20), ((GE, DILL_D), 21),
    ((GT, DILL_C), 22), ((GT, DILL_UC), 23), ((GT, DILL_S), 24), ((GT, DILL_US), 25),
    ((GT, DILL_I), 26), ((GT, DILL_U), 27), ((GT, DILL_L), 28), ((GT, DILL_UL), 29),
    ((GT, DILL_P), 30), ((GT, DILL_F), 31), ((GT, DILL_D), 32), ((LE, DILL_C), 33),
    ((LE, DILL_UC), 34), ((LE, DILL_S), 35), ((LE, DILL_US), 36), ((LE, DILL_I), 37),
    ((LE, DILL_U), 38), ((LE, DILL_L), 39), ((LE, DILL_UL), 40), ((LE, DILL_P), 41),
    ((LE, DILL_F), 42), ((LE, DILL_D), 43), ((LT, DILL_C), 44), ((LT, DILL_UC), 45),
    ((LT, DILL_S), 46), ((LT, DILL_US), 47), ((LT, DILL_I), 48), ((LT, DILL_U), 49),
    ((LT, DILL_L), 50), ((LT, DILL_UL), 51), ((LT, DILL_P), 52), ((LT, DILL_F), 53),
    ((LT, DILL_D), 54), ((NE, DILL_C), 55), ((NE, DILL_UC), 56), ((NE, DILL_S), 57),
    ((NE, DILL_US), 58), ((NE, DILL_I), 59), ((NE, DILL_U), 60), ((NE, DILL_L), 61),
    ((NE, DILL_UL), 62), ((NE, DILL_P), 63), ((NE, DILL_F), 64), ((NE, DILL_D), 65)]"

definition dill_jmp_c :: "((cond \<times> dill_type) \<times> int) list" where
  "dill_jmp_c = [
    ((EQ, DILL_C), 0), ((EQ, DILL_UC), 1), ((EQ, DILL_S), 2), ((EQ, DILL_US), 3), ((EQ, DILL_I), 4),
    ((EQ, DILL_U), 5), ((EQ, DILL_L), 6), ((EQ, DILL_UL), 7), ((EQ, DILL_P), 8), ((EQ, DILL_F), 9),
    ((EQ, DILL_D), 10), ((GE, DILL_C), 11), ((GE, DILL_UC), 12), ((GE, DILL_S), 13),
    ((GE, DILL_US), 14), ((GE, DILL_I), 15), ((GE, DILL_U), 16), ((GE, DILL_L), 17),
    ((GE, DILL_UL), 18), ((GE, DILL_P), 19), ((GE, DILL_F), 20), ((GE, DILL_D), 21),
    ((GT, DILL_C), 22), ((GT, DILL_UC), 23), ((GT, DILL_S), 24), ((GT, DILL_US), 25),
    ((GT, DILL_I), 26), ((GT, DILL_U), 27), ((GT, DILL_L), 28), ((GT, DILL_UL), 29),
    ((GT, DILL_P), 30), ((GT, DILL_F), 31), ((GT, DILL_D), 32), ((LE, DILL_C), 33),
    ((LE, DILL_UC), 34), ((LE, DILL_S), 35), ((LE, DILL_US), 36), ((LE, DILL_I), 37),
    ((LE, DILL_U), 38), ((LE, DILL_L), 39), ((LE, DILL_UL), 40), ((LE, DILL_P), 41),
    ((LE, DILL_F), 42), ((LE, DILL_D), 43), ((LT, DILL_C), 44), ((LT, DILL_UC), 45),
    ((LT, DILL_S), 46), ((LT, DILL_US), 47), ((LT, DILL_I), 48), ((LT, DILL_U), 49),
    ((LT, DILL_L), 50), ((LT, DILL_UL), 51), ((LT, DILL_P), 52), ((LT, DILL_F), 53),
    ((LT, DILL_D), 54), ((NE, DILL_C), 55), ((NE, DILL_UC), 56), ((NE, DILL_S), 57),
    ((NE, DILL_US), 58), ((NE, DILL_I), 59), ((NE, DILL_U), 60), ((NE, DILL_L), 61),
    ((NE, DILL_UL), 62), ((NE, DILL_P), 63), ((NE, DILL_F), 64), ((NE, DILL_D), 65)]"

abbreviation dill_jmp_a3_size :: int where "dill_jmp_a3_size \<equiv> 50"

abbreviation dill_jmp_a2_size :: int where "dill_jmp_a2_size \<equiv> 22"

abbreviation dill_jmp_branch_size :: int where "dill_jmp_branch_size \<equiv> 66"

abbreviation dill_jmp_compare_size :: int where "dill_jmp_compare_size \<equiv> 66"

text \<open>The conversions that have a macro of their own, \<open>dill_cvc2uc\<close> first.\<close>

definition dill_cv_pairs :: "(dill_type \<times> dill_type) list" where
  "dill_cv_pairs = [
    (DILL_C, DILL_UC), (DILL_C, DILL_S), (DILL_C, DILL_US), (DILL_C, DILL_I), (DILL_C, DILL_U),
    (DILL_C, DILL_UL), (DILL_C, DILL_L), (DILL_D, DILL_C), (DILL_D, DILL_UC), (DILL_D, DILL_S),
    (DILL_D, DILL_US), (DILL_D, DILL_I), (DILL_D, DILL_U), (DILL_D, DILL_UL), (DILL_D, DILL_L),
    (DILL_F, DILL_C), (DILL_F, DILL_UC), (DILL_F, DILL_S), (DILL_F, DILL_US), (DILL_F, DILL_I),
    (DILL_F, DILL_U), (DILL_F, DILL_UL), (DILL_F, DILL_L), (DILL_I, DILL_C), (DILL_I, DILL_UC),
    (DILL_I, DILL_S), (DILL_I, DILL_US), (DILL_I, DILL_U), (DILL_I, DILL_UL), (DILL_I, DILL_L),
    (DILL_L, DILL_C), (DILL_L, DILL_UC), (DILL_L, DILL_S), (DILL_L, DILL_US), (DILL_L, DILL_I),
    (DILL_L, DILL_U), (DILL_L, DILL_UL), (DILL_S, DILL_C), (DILL_S, DILL_UC), (DILL_S, DILL_US),
    (DILL_S, DILL_I), (DILL_S, DILL_U), (DILL_S, DILL_UL), (DILL_S, DILL_L), (DILL_U, DILL_C),
    (DILL_U, DILL_UC), (DILL_U, DILL_S), (DILL_U, DILL_US), (DILL_U, DILL_I), (DILL_U, DILL_UL),
    (DILL_U, DILL_L), (DILL_UL, DILL_C), (DILL_UL, DILL_UC), (DILL_UL, DILL_S), (DILL_UL, DILL_US),
    (DILL_UL, DILL_I), (DILL_UL, DILL_U), (DILL_UL, DILL_L), (DILL_US, DILL_C), (DILL_US, DILL_UC),
    (DILL_US, DILL_S), (DILL_US, DILL_I), (DILL_US, DILL_U), (DILL_US, DILL_UL), (DILL_US, DILL_L),
    (DILL_UC, DILL_C), (DILL_UC, DILL_S), (DILL_UC, DILL_US), (DILL_UC, DILL_I), (DILL_UC, DILL_U),
    (DILL_UC, DILL_UL), (DILL_UC, DILL_L), (DILL_C, DILL_F), (DILL_C, DILL_D), (DILL_UC, DILL_F),
    (DILL_UC, DILL_D), (DILL_S, DILL_F), (DILL_S, DILL_D), (DILL_US, DILL_F), (DILL_US, DILL_D),
    (DILL_D, DILL_F), (DILL_F, DILL_D), (DILL_I, DILL_F), (DILL_I, DILL_D), (DILL_L, DILL_F),
    (DILL_L, DILL_D), (DILL_U, DILL_F), (DILL_U, DILL_D), (DILL_UL, DILL_F), (DILL_UL, DILL_D),
    (DILL_P, DILL_UL), (DILL_UL, DILL_P)]"

section \<open>What the tables contain\<close>

text \<open>Every slot of a table is taken by exactly one operation.\<close>

lemma dill_jmp_slots:
  "map snd dill_jmp_a3 = [0..dill_jmp_a3_size - 1]" "map snd dill_jmp_a2 = [0..dill_jmp_a2_size - 1]"
  "map snd dill_jmp_b = [0..dill_jmp_branch_size - 1]" "map snd dill_jmp_c = [0..dill_jmp_compare_size - 1]"
  by code_simp+

lemma dill_jmp_keys:
  "distinct (map fst dill_jmp_a3)" "distinct (map fst dill_jmp_a2)"
  "distinct (map fst dill_jmp_b)" "distinct (map fst dill_jmp_c)"
  by code_simp+

text \<open>Branches and comparisons lie in the order of the conditions, and within a condition in the order of the types.\<close>

lemma dill_jmp_b_slot:
  "map_of dill_jmp_b (c, t) =
    (if type_no t < 11 then Some (11 * dill_cond_code c + type_no t) else None)"
  by (cases c; cases t; simp add: dill_jmp_b_def)

lemma dill_jmp_c_slot: "map_of dill_jmp_c (c, t) = map_of dill_jmp_b (c, t)"
  unfolding dill_jmp_b_slot by (cases c; cases t; simp add: dill_jmp_c_def)

end
