(* ===== verification/Dill.thy ===== *)
theory Dill
  imports Dill_Tables
begin

text \<open>
  The instruction macros of DILL (include/dill.h). A macro expands to the call of a function pointer of
  the back end with the stream, two data words and the operands; the model returns the function
  and the arguments after the stream. A macro that the header does not define, a member that
  \<open>struct jmp_table_s\<close> does not have, and a slot outside a table are errors. All macros of one shape
  are one definition over the operation and the type in the name, e.g. \<open>dill_addul\<close> is
  \<open>dill_a3\<close> at \<open>Add\<close> and \<open>DILL_UL\<close>: in the header each of them repeats the same text with its own name in it,
  the register form and the immediate form of one operation on neighbouring lines. The macros of the arithmetic name
  the members of the table as strings here, which are looked up in the modelled structure.
\<close>

section \<open>Calls of the back end\<close>

datatype arg = Num int | FNum double | Str string

datatype dill_error = No_macro | No_member string | Bad_slot

type_synonym 'f emit = "dill_error + 'f \<times> arg list"

definition nth_slot :: "'a list \<Rightarrow> int \<Rightarrow> dill_error + 'a" where
  "nth_slot xs i = (if 0 \<le> i \<and> i < int (length xs) then Inr (xs ! nat i) else Inl Bad_slot)"

text \<open>\<open>(table[k])(s, data[k].data1, data[k].data2, args)\<close>\<close>

definition dispatch :: "'f list \<Rightarrow> jmp_data list \<Rightarrow> int \<Rightarrow> arg list \<Rightarrow> 'f emit" where
  "dispatch fs ds k args =
     (case nth_slot fs k of
        Inl e \<Rightarrow> Inl e
      | Inr f \<Rightarrow> (case nth_slot ds k of
          Inl e \<Rightarrow> Inl e
        | Inr d \<Rightarrow> Inr (f, Num (data1 d) # Num (data2 d) # args)))"

definition at_slot :: "('k \<times> int) list \<Rightarrow> 'k \<Rightarrow> (int \<Rightarrow> 'f emit) \<Rightarrow> 'f emit" where
  "at_slot slots k m = (case map_of slots k of None \<Rightarrow> Inl No_macro | Some i \<Rightarrow> m i)"

section \<open>Arithmetic\<close>

text \<open>The tables of functions and of data words among the members of \<open>struct jmp_table_s\<close>, by name.\<close>

definition function_members :: "'f jmp_table \<Rightarrow> (string \<times> 'f list) list" where
  "function_members j =
     [(''jmp_a3'', jmp_a3 j), (''jmp_a3i'', jmp_a3i j), (''jmp_f3i'', jmp_f3i j), (''jmp_a2'', jmp_a2 j),
      (''jmp_a2i'', jmp_a2i j), (''jmp_b'', jmp_b j), (''jmp_bi'', jmp_bi j), (''jmp_c'', jmp_c j), (''jmp_ci'', jmp_ci j)]"

definition data_members :: "'f jmp_table \<Rightarrow> (string \<times> jmp_data list) list" where
  "data_members j =
     [(''a3_data'', a3_data j), (''a3i_data'', a3i_data j), (''f3i_data'', f3i_data j), (''a2_data'', a2_data j),
      (''b_data'', b_data j), (''c_data'', c_data j)]"

definition member_of :: "(string \<times> 'a) list \<Rightarrow> string \<Rightarrow> dill_error + 'a" where
  "member_of ms name = (case map_of ms name of None \<Rightarrow> Inl (No_member name) | Some x \<Rightarrow> Inr x)"

definition dispatch_named :: "'f jmp_table \<Rightarrow> string \<Rightarrow> string \<Rightarrow> int \<Rightarrow> arg list \<Rightarrow> 'f emit" where
  "dispatch_named j fs ds k args =
     (case member_of (function_members j) fs of
        Inl e \<Rightarrow> Inl e
      | Inr f \<Rightarrow> (case member_of (data_members j) ds of Inl e \<Rightarrow> Inl e | Inr d \<Rightarrow> dispatch f d k args))"

definition dill_a3 :: "'f jmp_table \<Rightarrow> arith \<Rightarrow> dill_type \<Rightarrow> int \<Rightarrow> int \<Rightarrow> int \<Rightarrow> 'f emit" where
  "dill_a3 j op t dest src1 src2 =
     at_slot dill_jmp_a3 (op, t) (\<lambda>k. dispatch_named j ''jmp_a3'' ''a3_data'' k [Num dest, Num src1, Num src2])"

definition dill_a3i :: "'f jmp_table \<Rightarrow> arith \<Rightarrow> dill_type \<Rightarrow> int \<Rightarrow> int \<Rightarrow> int \<Rightarrow> 'f emit" where
  "dill_a3i j op t dest src1 imm =
     (if is_float t then Inl No_macro
      else at_slot dill_jmp_a3 (op, t) (\<lambda>k. dispatch_named j ''jmp_a3i'' ''a3i_data'' k [Num dest, Num src1, Num imm]))"

text \<open>
  The immediate forms of the floating operations as the header spells them: functions from \<open>jmp_f3i\<close>, data from
  \<open>a3f_data\<close>.
\<close>

definition dill_f3i :: "'f jmp_table \<Rightarrow> arith \<Rightarrow> dill_type \<Rightarrow> int \<Rightarrow> int \<Rightarrow> double \<Rightarrow> 'f emit" where
  "dill_f3i j op t dest src1 imm =
     (if \<not> is_float t then Inl No_macro
      else at_slot dill_jmp_a3 (op, t) (\<lambda>k. dispatch_named j ''jmp_f3i'' ''a3f_data'' k [Num dest, Num src1, FNum imm]))"

definition dill_a2 :: "'f jmp_table \<Rightarrow> unary \<Rightarrow> dill_type \<Rightarrow> int \<Rightarrow> int \<Rightarrow> 'f emit" where
  "dill_a2 j op t dest src =
     at_slot dill_jmp_a2 (op, t) (\<lambda>k. dispatch_named j ''jmp_a2'' ''a2_data'' k [Num dest, Num src])"

definition dill_a2i :: "'f jmp_table \<Rightarrow> unary \<Rightarrow> dill_type \<Rightarrow> int \<Rightarrow> int \<Rightarrow> 'f emit" where
  "dill_a2i j op t dest imm =
     (if is_float t then Inl No_macro
      else at_slot dill_jmp_a2 (op, t) (\<lambda>k. dispatch_named j ''jmp_a2i'' ''a2_data'' k [Num dest, Num imm]))"

text \<open>Their immediate forms call \<open>jmp_f2i\<close> with \<open>a2f_data\<close>.\<close>

definition dill_f2i :: "'f jmp_table \<Rightarrow> unary \<Rightarrow> dill_type \<Rightarrow> int \<Rightarrow> double \<Rightarrow> 'f emit" where
  "dill_f2i j op t dest imm =
     (if \<not> is_float t then Inl No_macro
      else at_slot dill_jmp_a2 (op, t) (\<lambda>k. dispatch_named j ''jmp_f2i'' ''a2f_data'' k [Num dest, FNum imm]))"

text \<open>The polymorphic forms look the slot up in an array of the library, an argument here.\<close>

definition dill_P3 :: "'f jmp_table \<Rightarrow> (arith \<Rightarrow> int list) \<Rightarrow> arith \<Rightarrow> dill_type \<Rightarrow> int \<Rightarrow> int \<Rightarrow> int \<Rightarrow> 'f emit" where
  "dill_P3 j poly_map op t dest src1 src2 =
     (case nth_slot (poly_map op) (type_no t) of
        Inl e \<Rightarrow> Inl e
      | Inr k \<Rightarrow> dispatch (jmp_a3 j) (a3_data j) k [Num dest, Num src1, Num src2])"

section \<open>Branches and comparisons\<close>

definition dill_b :: "'f jmp_table \<Rightarrow> cond \<Rightarrow> dill_type \<Rightarrow> int \<Rightarrow> int \<Rightarrow> int \<Rightarrow> 'f emit" where
  "dill_b j c t src1 src2 label =
     at_slot dill_jmp_b (c, t) (\<lambda>k. dispatch (jmp_b j) (b_data j) k [Num src1, Num src2, Num label])"

definition dill_bi :: "'f jmp_table \<Rightarrow> cond \<Rightarrow> dill_type \<Rightarrow> int \<Rightarrow> int \<Rightarrow> int \<Rightarrow> 'f emit" where
  "dill_bi j c t src imm label =
     (if is_float t then Inl No_macro
      else at_slot dill_jmp_b (c, t) (\<lambda>k. dispatch (jmp_bi j) (b_data j) k [Num src, Num imm, Num label]))"

definition dill_c :: "'f jmp_table \<Rightarrow> cond \<Rightarrow> dill_type \<Rightarrow> int \<Rightarrow> int \<Rightarrow> int \<Rightarrow> 'f emit" where
  "dill_c j c t dest src1 src2 =
     at_slot dill_jmp_c (c, t) (\<lambda>k. dispatch (jmp_c j) (c_data j) k [Num dest, Num src1, Num src2])"

definition dill_ci :: "'f jmp_table \<Rightarrow> cond \<Rightarrow> dill_type \<Rightarrow> int \<Rightarrow> int \<Rightarrow> int \<Rightarrow> 'f emit" where
  "dill_ci j c t dest src imm =
     (if is_float t then Inl No_macro
      else at_slot dill_jmp_c (c, t) (\<lambda>k. dispatch (jmp_ci j) (c_data j) k [Num dest, Num src, Num imm]))"

text \<open>\<open>dill_Pbne\<close>, \<open>dill_Pbgt\<close> and \<open>dill_Pbeq\<close>: the slot of the type c plus the number of the type.\<close>

definition dill_Pb :: "'f jmp_table \<Rightarrow> cond \<Rightarrow> dill_type \<Rightarrow> int \<Rightarrow> int \<Rightarrow> int \<Rightarrow> 'f emit" where
  "dill_Pb j c t src1 src2 label =
     (if c = NE \<or> c = GT \<or> c = EQ
      then at_slot dill_jmp_b (c, DILL_C)
        (\<lambda>k. dispatch (jmp_b j) (b_data j) (k + type_no t) [Num src1, Num src2, Num label])
      else Inl No_macro)"

section \<open>Conversions, loads and stores\<close>

text \<open>\<open>dill_pconvert\<close> and the macros with two types in the name.\<close>

definition dill_pconvert :: "'f jmp_table \<Rightarrow> dill_type \<Rightarrow> dill_type \<Rightarrow> int \<Rightarrow> int \<Rightarrow> 'f emit" where
  "dill_pconvert j from_type to_type dest src =
     Inr (convert j, [Num (type_no from_type), Num (type_no to_type), Num dest, Num src])"

definition dill_cv :: "'f jmp_table \<Rightarrow> dill_type \<Rightarrow> dill_type \<Rightarrow> int \<Rightarrow> int \<Rightarrow> 'f emit" where
  "dill_cv j from_type to_type dest src =
     (if (from_type, to_type) \<in> set dill_cv_pairs
      then Inr (convert j, [Num (type_no from_type), Num (type_no to_type), Num dest, Num src])
      else Inl No_macro)"

text \<open>Memory operations: the type, a zero and the operands.\<close>

definition mem_op :: "'f \<Rightarrow> dill_type \<Rightarrow> int \<Rightarrow> int \<Rightarrow> int \<Rightarrow> 'f emit" where
  "mem_op f t dest a b = Inr (f, [Num (type_no t), Num 0, Num dest, Num a, Num b])"

definition typed :: "dill_type \<Rightarrow> 'f emit \<Rightarrow> 'f emit" where
  "typed t m = (if t \<in> set dill_types then m else Inl No_macro)"

definition dill_ld :: "'f jmp_table \<Rightarrow> dill_type \<Rightarrow> int \<Rightarrow> int \<Rightarrow> int \<Rightarrow> 'f emit" where
  "dill_ld j t dest src1 src2 = typed t (mem_op (load j) t dest src1 src2)"

definition dill_ldi :: "'f jmp_table \<Rightarrow> dill_type \<Rightarrow> int \<Rightarrow> int \<Rightarrow> int \<Rightarrow> 'f emit" where
  "dill_ldi j t dest src imm = typed t (mem_op (loadi j) t dest src imm)"

definition dill_st :: "'f jmp_table \<Rightarrow> dill_type \<Rightarrow> int \<Rightarrow> int \<Rightarrow> int \<Rightarrow> 'f emit" where
  "dill_st j t dest src1 src2 = typed t (mem_op (store j) t dest src1 src2)"

definition dill_sti :: "'f jmp_table \<Rightarrow> dill_type \<Rightarrow> int \<Rightarrow> int \<Rightarrow> int \<Rightarrow> 'f emit" where
  "dill_sti j t dest src imm = typed t (mem_op (storei j) t dest src imm)"

definition dill_has_ldbs :: "'f jmp_table \<Rightarrow> bool" where
  "dill_has_ldbs j = (bsload j \<noteq> None)"

definition dill_ldbs :: "'f jmp_table \<Rightarrow> dill_type \<Rightarrow> int \<Rightarrow> int \<Rightarrow> int \<Rightarrow> 'f emit" where
  "dill_ldbs j t dest src1 src2 =
     typed t (case bsload j of None \<Rightarrow> Inl Bad_slot | Some f \<Rightarrow> mem_op f t dest src1 src2)"

definition dill_ldbsi :: "'f jmp_table \<Rightarrow> dill_type \<Rightarrow> int \<Rightarrow> int \<Rightarrow> int \<Rightarrow> 'f emit" where
  "dill_ldbsi j t dest src imm = typed t (mem_op (bsloadi j) t dest src imm)"

definition dill_lea :: "'f jmp_table \<Rightarrow> int \<Rightarrow> int \<Rightarrow> int \<Rightarrow> 'f emit" where
  "dill_lea j dest src imm = Inr (lea j, [Num 0, Num 0, Num dest, Num src, Num imm])"

text \<open>\<open>dill_Pload\<close>, \<open>dill_Ploadi\<close>, \<open>dill_Pstore\<close>, \<open>dill_Pstorei\<close>.\<close>

definition dill_Pmem :: "'f jmp_table \<Rightarrow> bool \<Rightarrow> bool \<Rightarrow> dill_type \<Rightarrow> int \<Rightarrow> int \<Rightarrow> int \<Rightarrow> 'f emit" where
  "dill_Pmem j is_store imm t dest a b =
     mem_op (if is_store then (if imm then storei j else store j) else (if imm then loadi j else load j))
       t dest a b"

section \<open>Returns, moves and constants\<close>

text \<open>The types narrower than int are returned as int, but their immediate forms keep the type.\<close>

definition dill_ret :: "'f jmp_table \<Rightarrow> dill_type \<Rightarrow> int \<Rightarrow> 'f emit" where
  "dill_ret j t src =
     typed t (Inr (ret j, [Num (type_no (if type_no t < 4 then DILL_I else t)), Num 0, Num src]))"

definition dill_reti :: "'f jmp_table \<Rightarrow> dill_type \<Rightarrow> int \<Rightarrow> 'f emit" where
  "dill_reti j t imm =
     (if is_float t then Inl No_macro else typed t (Inr (reti j, [Num (type_no t), Num 0, Num imm])))"

definition dill_retf :: "'f jmp_table \<Rightarrow> dill_type \<Rightarrow> double \<Rightarrow> 'f emit" where
  "dill_retf j t imm =
     (if is_float t then Inr (retf j, [Num (type_no t), Num 0, FNum imm]) else Inl No_macro)"

definition dill_pret :: "'f jmp_table \<Rightarrow> dill_type \<Rightarrow> int \<Rightarrow> 'f emit" where
  "dill_pret j t src = Inr (ret j, [Num (type_no t), Num 0, Num src])"

definition dill_pmov :: "'f jmp_table \<Rightarrow> dill_type \<Rightarrow> int \<Rightarrow> int \<Rightarrow> 'f emit" where
  "dill_pmov j t dest src = Inr (mov j, [Num (type_no t), Num 0, Num dest, Num src])"

definition dill_mov :: "'f jmp_table \<Rightarrow> dill_type \<Rightarrow> int \<Rightarrow> int \<Rightarrow> 'f emit" where
  "dill_mov j t dest src = typed t (dill_pmov j t dest src)"

text \<open>A constant of pointer type goes through \<open>setp\<close>, a floating one through \<open>setf\<close>.\<close>

definition dill_set :: "'f jmp_table \<Rightarrow> dill_type \<Rightarrow> int \<Rightarrow> int \<Rightarrow> 'f emit" where
  "dill_set j t dest imm =
     (if is_float t then Inl No_macro
      else typed t (Inr (if t = DILL_P then setp j else set_op j, [Num (type_no t), Num 0, Num dest, Num imm])))"

definition dill_setf :: "'f jmp_table \<Rightarrow> dill_type \<Rightarrow> int \<Rightarrow> double \<Rightarrow> 'f emit" where
  "dill_setf j t dest imm =
     (if is_float t then Inr (setf j, [Num (type_no t), Num 0, Num dest, FNum imm]) else Inl No_macro)"

definition dill_piset :: "'f jmp_table \<Rightarrow> dill_type \<Rightarrow> int \<Rightarrow> int \<Rightarrow> 'f emit" where
  "dill_piset j t dest imm = Inr (set_op j, [Num (type_no t), Num 0, Num dest, Num imm])"

section \<open>Calls\<close>

text \<open>Arguments are pushed after \<open>dill_push_init\<close>, or after the form for variable argument lists.\<close>

definition dill_push_arg :: "'f jmp_table \<Rightarrow> dill_type \<Rightarrow> int \<Rightarrow> 'f emit" where
  "dill_push_arg j t reg = Inr (push j, [Num (type_no t), Num reg])"

definition dill_push_init :: "'f jmp_table \<Rightarrow> 'f emit" where
  "dill_push_init j = dill_push_arg j DILL_V (-1)"

definition dill_push_varidiac_init :: "'f jmp_table \<Rightarrow> int \<Rightarrow> 'f emit" where
  "dill_push_varidiac_init j non_var_arg_count = dill_push_arg j DILL_V (-2 - non_var_arg_count)"

text \<open>The types from int on have typed forms.\<close>

definition word_typed :: "dill_type \<Rightarrow> 'f emit \<Rightarrow> 'f emit" where
  "word_typed t m = (if 4 \<le> type_no t then typed t m else Inl No_macro)"

definition dill_push_argt :: "'f jmp_table \<Rightarrow> dill_type \<Rightarrow> int \<Rightarrow> 'f emit" where
  "dill_push_argt j t reg = word_typed t (dill_push_arg j t reg)"

definition dill_push_argti :: "'f jmp_table \<Rightarrow> dill_type \<Rightarrow> int \<Rightarrow> 'f emit" where
  "dill_push_argti j t imm =
     (if is_float t then Inl No_macro
      else word_typed t (Inr (if t = DILL_P then pushpi j else pushi j, [Num (type_no t), Num imm])))"

definition dill_push_argtf :: "'f jmp_table \<Rightarrow> dill_type \<Rightarrow> double \<Rightarrow> 'f emit" where
  "dill_push_argtf j t imm =
     (if is_float t then Inr (pushfi j, [Num (type_no t), FNum imm]) else Inl No_macro)"

definition dill_pcall :: "'f jmp_table \<Rightarrow> dill_type \<Rightarrow> int \<Rightarrow> string \<Rightarrow> 'f emit" where
  "dill_pcall j t pr nm = Inr (calli j, [Num (type_no t), Num pr, Str nm])"

definition dill_pcallr :: "'f jmp_table \<Rightarrow> dill_type \<Rightarrow> int \<Rightarrow> 'f emit" where
  "dill_pcallr j t src = Inr (callr j, [Num (type_no t), Num src])"

text \<open>The typed calls; a call without result has type V.\<close>

definition dill_call :: "'f jmp_table \<Rightarrow> dill_type \<Rightarrow> int \<Rightarrow> string \<Rightarrow> 'f emit" where
  "dill_call j t pr nm = (if t = DILL_V then dill_pcall j t pr nm else word_typed t (dill_pcall j t pr nm))"

definition dill_callr :: "'f jmp_table \<Rightarrow> dill_type \<Rightarrow> int \<Rightarrow> 'f emit" where
  "dill_callr j t src = (if t = DILL_V then dill_pcallr j t src else word_typed t (dill_pcallr j t src))"

definition dill_save :: "'f jmp_table \<Rightarrow> dill_type \<Rightarrow> int \<Rightarrow> 'f emit" where
  "dill_save j t reg = word_typed t (Inr (save_restore j, [Num 0, Num (type_no t), Num reg]))"

definition dill_restore :: "'f jmp_table \<Rightarrow> dill_type \<Rightarrow> int \<Rightarrow> 'f emit" where
  "dill_restore j t reg = word_typed t (Inr (save_restore j, [Num 1, Num (type_no t), Num reg]))"

section \<open>Jumps, special operations and locals\<close>

definition unsigned_long :: "int \<Rightarrow> int" where
  "unsigned_long n = n mod 2 ^ 64"

definition dill_jv :: "'f jmp_table \<Rightarrow> int \<Rightarrow> 'f emit" where
  "dill_jv j label = Inr (jv j, [Num (unsigned_long label)])"

definition dill_jp :: "'f jmp_table \<Rightarrow> int \<Rightarrow> 'f emit" where
  "dill_jp j dest_reg = Inr (jp j, [Num (unsigned_long dest_reg)])"

definition dill_jpi :: "'f jmp_table \<Rightarrow> int \<Rightarrow> 'f emit" where
  "dill_jpi j dest_imm = Inr (jpi j, [Num dest_imm])"

definition dill_jalp :: "'f jmp_table \<Rightarrow> int \<Rightarrow> int \<Rightarrow> 'f emit" where
  "dill_jalp j return_addr_reg target = Inr (jal j, [Num return_addr_reg, Num target])"

text \<open>None: nothing is called.\<close>

definition dill_special :: "'f jmp_table \<Rightarrow> special_operations \<Rightarrow> int \<Rightarrow> ('f \<times> arg list) option" where
  "dill_special j t param =
     (case special j of None \<Rightarrow> None | Some f \<Rightarrow> Some (f, [Num (special_no t), Num param]))"

definition dill_type_align :: "('f, 'p) dill_stream \<Rightarrow> dill_type \<Rightarrow> dill_error + int" where
  "dill_type_align s t = nth_slot (type_align (dill_j s)) (type_no t)"

definition dill_type_size :: "('f, 'p) dill_stream \<Rightarrow> dill_type \<Rightarrow> dill_error + int" where
  "dill_type_size s t = nth_slot (type_size (dill_j s)) (type_no t)"

definition dill_local :: "('f, 'p) dill_stream \<Rightarrow> dill_type \<Rightarrow> 'f emit" where
  "dill_local s t = Inr (local_op (dill_j s), [Num 0, Num (type_no t)])"

definition dill_localb :: "('f, 'p) dill_stream \<Rightarrow> int \<Rightarrow> 'f emit" where
  "dill_localb s bytes = Inr (local_op (dill_j s), [Num 1, Num bytes])"

section \<open>Back ends that fill every slot\<close>

text \<open>
  A table that is filled slot by slot, with the routine of the operation that the slot belongs to.
\<close>

definition filled :: "('k \<times> int) list \<Rightarrow> ('k \<Rightarrow> 'a) \<Rightarrow> 'a list" where
  "filled slots g = map (g \<circ> fst) slots"

lemma nth_filled:
  assumes "map snd slots = [0..int n - 1]" "map_of slots k = Some i"
  shows "nth_slot (filled slots g) i = Inr (g k)"
proof -
  have len: "length slots = n" using arg_cong [OF assms(1), of length] by simp
  have "(k, i) \<in> set slots" using assms(2) by (rule map_of_SomeD)
  then obtain m where m: "m < length slots" "slots ! m = (k, i)" by (auto simp: in_set_conv_nth)
  have "map snd slots ! m = int m" unfolding assms(1) using m(1) len by (simp add: nth_upto)
  then have "i = int m" using m by simp
  then show ?thesis using m by (simp add: nth_slot_def filled_def)
qed

lemma filled_dispatch:
  assumes "map snd slots = [0..int n - 1]" "map_of slots k = Some i"
  shows "dispatch (filled slots g) (filled slots d) i args =
    Inr (g k, Num (data1 (d k)) # Num (data2 (d k)) # args)"
  by (simp add: dispatch_def nth_filled [OF assms])

section \<open>Properties\<close>

text \<open>
  Every typed operation reaches its own routine: over a back end that fills the branch and comparison
  tables slot by slot, \<open>dill_b\<close> and \<open>dill_c\<close> call the routine of their condition and type, for every type
  that the macros have, and the tables have exactly the declared sizes.
\<close>

theorem dill_condition_routine:
  assumes "type_no t < 11"
  shows "dill_b (j\<lparr>jmp_b := filled dill_jmp_b g, b_data := filled dill_jmp_b d\<rparr>) c t src1 src2 label =
      Inr (g (c, t), [Num (data1 (d (c, t))), Num (data2 (d (c, t))), Num src1, Num src2, Num label]) \<and>
    dill_c (j\<lparr>jmp_c := filled dill_jmp_c g, c_data := filled dill_jmp_c d\<rparr>) c t dest src1 src2 =
      Inr (g (c, t), [Num (data1 (d (c, t))), Num (data2 (d (c, t))), Num dest, Num src1, Num src2]) \<and>
    length (filled dill_jmp_b g) = nat dill_jmp_branch_size \<and>
    length (filled dill_jmp_c g) = nat dill_jmp_compare_size"
proof -
  obtain k where k: "map_of dill_jmp_b (c, t) = Some k" using assms by (simp add: dill_jmp_b_slot)
  have b: "map snd dill_jmp_b = [0..int 66 - 1]" and c: "map snd dill_jmp_c = [0..int 66 - 1]"
    using dill_jmp_slots(3,4) by simp_all
  have "length dill_jmp_b = 66" "length dill_jmp_c = 66"
    using arg_cong [OF b, of length] arg_cong [OF c, of length] by simp_all
  then have "length (filled dill_jmp_b g) = 66" "length (filled dill_jmp_c g) = 66"
    by (simp_all add: filled_def)
  then show ?thesis using k
    by (simp add: dill_b_def dill_c_def at_slot_def dill_jmp_c_slot filled_dispatch [OF b]
        filled_dispatch [OF c])
qed

definition sample_backend :: "'f \<Rightarrow> 'f jmp_table" where
  "sample_backend f = \<lparr>type_align = [], jmp_a3 = [], a3_data = [], jmp_a3i = [], a3i_data = [], jmp_f3i = [],
     f3i_data = [], jmp_a2 = [], jmp_a2i = [], a2_data = [], jmp_b = replicate 66 f, jmp_bi = [],
     b_data = replicate 66 \<lparr>data1 = 0, data2 = 0\<rparr>, jmp_c = [], jmp_ci = [], c_data = [], convert = f,
     load = f, bsload = None, loadi = f, bsloadi = f, store = f, storei = f, ret = f, reti = f, retf = f,
     mov = f, set_op = f, setf = f, setp = f, jv = f, jp = f, jpi = f, jal = f, special = None, calli = f,
     callr = f, push = f, pushi = f, pushfi = f, pushpi = f, local_op = f, save_restore = f, type_size = [],
     lea = f, target_byte_order = 0, target_float_format = 0\<rparr>"

theorem dill_condition_routine_witness:
  "dill_b (sample_backend (EQ, DILL_C)\<lparr>jmp_b := filled dill_jmp_b (\<lambda>k. k),
        b_data := filled dill_jmp_b (\<lambda>k. \<lparr>data1 = 1, data2 = 2\<rparr>)\<rparr>) LT DILL_UL 3 4 5 =
     Inr ((LT, DILL_UL), [Num 1, Num 2, Num 3, Num 4, Num 5])"
  using dill_condition_routine [where t = DILL_UL and j = "sample_backend (EQ, DILL_C)" and g = "\<lambda>k. k"
      and d = "\<lambda>k. \<lparr>data1 = 1, data2 = 2\<rparr>" and c = LT and ?src1.0 = 3 and ?src2.0 = 4 and label = 5]
  by simp

text \<open>
  A branch on a type that is known only when code is generated: for the types with a macro of their own,
  \<open>dill_Pbeq\<close>, \<open>dill_Pbgt\<close> and \<open>dill_Pbne\<close> are the typed branches. For the four other types
  nothing stops them: \<open>dill_Pbeq\<close> and \<open>dill_Pbgt\<close> then branch on the next condition, greater-or-equal and
  less-or-equal, of the narrow types, and \<open>dill_Pbne\<close> reads beyond a table of the declared size.
\<close>

fun wrapped_type :: "dill_type \<Rightarrow> dill_type" where
  "wrapped_type DILL_V = DILL_C" | "wrapped_type DILL_B = DILL_UC" | "wrapped_type DILL_EC = DILL_S"
| "wrapped_type DILL_ERR = DILL_US" | "wrapped_type t = t"

theorem dill_poly_branch:
  "(type_no t < 11 \<longrightarrow> dill_Pb j EQ t a b l = dill_b j EQ t a b l \<and>
      dill_Pb j GT t a b l = dill_b j GT t a b l \<and> dill_Pb j NE t a b l = dill_b j NE t a b l) \<and>
   (\<not> type_no t < 11 \<longrightarrow> dill_Pb j EQ t a b l = dill_b j GE (wrapped_type t) a b l \<and>
      dill_Pb j GT t a b l = dill_b j LE (wrapped_type t) a b l \<and>
      (length (jmp_b j) = nat dill_jmp_branch_size \<longrightarrow> dill_Pb j NE t a b l = Inl Bad_slot))"
  by (cases t; simp add: dill_Pb_def dill_b_def at_slot_def dill_jmp_b_slot dispatch_def nth_slot_def)

theorem dill_poly_branch_witness:
  "dill_Pb (sample_backend (7 :: nat)) EQ DILL_I 1 2 3 = dill_b (sample_backend 7) EQ DILL_I 1 2 3 \<and>
   dill_Pb (sample_backend (7 :: nat)) EQ DILL_V 1 2 3 = dill_b (sample_backend 7) GE DILL_C 1 2 3 \<and>
   dill_Pb (sample_backend (7 :: nat)) NE DILL_V 1 2 3 = Inl Bad_slot"
  using dill_poly_branch [of DILL_I "sample_backend (7 :: nat)" 1 2 3]
    dill_poly_branch [of DILL_V "sample_backend (7 :: nat)" 1 2 3]
  by (simp add: sample_backend_def)

text \<open>The slots of the arithmetic in closed form: four integer types for each of ten operations, then the pointers and the
  floating types.\<close>

fun arith_no :: "arith \<Rightarrow> int" where
  "arith_no Add = 0" | "arith_no Sub = 1" | "arith_no Mul = 2" | "arith_no Div = 3" | "arith_no Mod = 4"
| "arith_no Xor = 5" | "arith_no And = 6" | "arith_no Or = 7" | "arith_no Lsh = 8" | "arith_no Rsh = 9"

fun arith_slot :: "arith \<Rightarrow> dill_type \<Rightarrow> int option" where
  "arith_slot op DILL_I = Some (4 * arith_no op)"
| "arith_slot op DILL_U = Some (4 * arith_no op + 1)"
| "arith_slot op DILL_UL = Some (4 * arith_no op + 2)"
| "arith_slot op DILL_L = Some (4 * arith_no op + 3)"
| "arith_slot op DILL_P = (if arith_no op < 2 then Some (40 + arith_no op) else None)"
| "arith_slot op DILL_F = (if arith_no op < 4 then Some (42 + 2 * arith_no op) else None)"
| "arith_slot op DILL_D = (if arith_no op < 4 then Some (43 + 2 * arith_no op) else None)"
| "arith_slot op _ = None"

lemma arith_slot_ok: "map_of dill_jmp_a3 (op, t) = arith_slot op t"
  by (cases t; cases op; simp add: dill_jmp_a3_def)

lemma arith_slot_bound: "arith_slot op t = Some k \<Longrightarrow> 0 \<le> k \<and> k < dill_jmp_a3_size"
  by (cases t; cases op; simp)

lemma dispatch_named_ok:
  "dispatch_named j ''jmp_a3'' ''a3_data'' = dispatch (jmp_a3 j) (a3_data j)"
  "dispatch_named j ''jmp_a3i'' ''a3i_data'' = dispatch (jmp_a3i j) (a3i_data j)"
  "dispatch_named j ''jmp_a2'' ''a2_data'' = dispatch (jmp_a2 j) (a2_data j)"
  "dispatch_named j ''jmp_a2i'' ''a2_data'' = dispatch (jmp_a2i j) (a2_data j)"
  "dispatch_named j ''jmp_f3i'' ''a3f_data'' k args = Inl (No_member ''a3f_data'')"
  "dispatch_named j ''jmp_f2i'' ''a2f_data'' k args = Inl (No_member ''jmp_f2i'')"
  by (auto simp: fun_eq_iff dispatch_named_def member_of_def function_members_def data_members_def)



text \<open>
  Conversions between the types that programs compute with are closed: between two different types of
  c, uc, s, us, i, u, l, ul, f, d there is a macro, which converts from the first to the second; a pointer
  converts to and from unsigned long only, and no macro converts a type to itself.
\<close>

theorem dill_conversions:
  "dill_cv j from_type to_type dest src = Inl No_macro \<longleftrightarrow>
    \<not> (from_type \<noteq> to_type \<and> type_no from_type < 11 \<and> type_no to_type < 11 \<and>
       (from_type = DILL_P \<longrightarrow> to_type = DILL_UL) \<and> (to_type = DILL_P \<longrightarrow> from_type = DILL_UL))"
  by (cases from_type; cases to_type; simp add: dill_cv_def dill_cv_pairs_def)

theorem dill_conversions_witness:
  "dill_cv (sample_backend (7 :: nat)) DILL_I DILL_P 1 2 = Inl No_macro"
  using dill_conversions [of "sample_backend (7 :: nat)" DILL_I DILL_P 1 2] by simp

end
