(* ===== verification/C_Layout.thy ===== *)
theory C_Layout
  imports "HOL-Library.Word"
begin

text \<open>
  C structs in memory, as the x86-64 ABI of the prebuilt libraries lays them out: sizes, alignment, padding,
  packed structs, arrays and unions, with little-endian integers. A value of a type is the list of its scalars;
  a union is its bytes, read through one of its members. The theories \<open>Enet\<close> and \<open>Dill_Insn\<close> describe the
  structs of the headers with it.
\<close>

section \<open>Types\<close>

datatype cty =
    CInt nat
  | CArray nat cty
  | CStruct "(string \<times> cty) list"
  | CPacked "(string \<times> cty) list"
  | CUnion "(string \<times> cty) list"

abbreviation "char_t \<equiv> CInt 1"
abbreviation "short_t \<equiv> CInt 2"
abbreviation "int_t \<equiv> CInt 4"
abbreviation "long_t \<equiv> CInt 8"
abbreviation "double_t \<equiv> CInt 8"
abbreviation "size_t \<equiv> CInt 8"
abbreviation "ptr_t \<equiv> CInt 8"

definition round_up :: "nat \<Rightarrow> nat \<Rightarrow> nat" where
  "round_up x a = (if a = 0 then x else (x + a - 1) div a * a)"

fun alignof :: "cty \<Rightarrow> nat" where
  "alignof (CInt n) = n"
| "alignof (CArray n t) = alignof t"
| "alignof (CStruct ms) = foldr max (map (\<lambda>(_, t). alignof t) ms) 1"
| "alignof (CPacked ms) = 1"
| "alignof (CUnion ms) = foldr max (map (\<lambda>(_, t). alignof t) ms) 1"

text \<open>The end of members with these sizes and alignments, the first at the next aligned place from \<open>off\<close>.\<close>

fun members_end :: "nat \<Rightarrow> (nat \<times> nat) list \<Rightarrow> nat" where
  "members_end off [] = off"
| "members_end off ((s, a) # ms) = members_end (round_up off a + s) ms"

fun sizeof :: "cty \<Rightarrow> nat" where
  "sizeof (CInt n) = n"
| "sizeof (CArray n t) = n * sizeof t"
| "sizeof (CStruct ms) =
     round_up (members_end 0 (map (\<lambda>(_, t). (sizeof t, alignof t)) ms)) (alignof (CStruct ms))"
| "sizeof (CPacked ms) = members_end 0 (map (\<lambda>(_, t). (sizeof t, 1)) ms)"
| "sizeof (CUnion ms) =
     round_up (foldr max (map (\<lambda>(_, t). sizeof t) ms) 0) (alignof (CUnion ms))"

text \<open>The offset of a member of an unpacked struct.\<close>

fun offset_from :: "nat \<Rightarrow> (string \<times> cty) list \<Rightarrow> string \<Rightarrow> nat option" where
  "offset_from off [] name = None"
| "offset_from off ((n, t) # ms) name =
     (let start = round_up off (alignof t) in
      if n = name then Some start else offset_from (start + sizeof t) ms name)"

fun member_offset :: "cty \<Rightarrow> string \<Rightarrow> nat option" where
  "member_offset (CStruct ms) name = offset_from 0 ms name"
| "member_offset _ name = None"

text \<open>The scalars of a type: offset and number of bytes.\<close>

definition shift :: "nat \<Rightarrow> (nat \<times> nat) list \<Rightarrow> (nat \<times> nat) list" where
  "shift d = map (\<lambda>(off, n). (off + d, n))"

fun assemble :: "nat \<Rightarrow> (nat \<times> nat \<times> (nat \<times> nat) list) list \<Rightarrow> (nat \<times> nat) list" where
  "assemble off [] = []"
| "assemble off ((s, a, ls) # ms) = shift (round_up off a) ls @ assemble (round_up off a + s) ms"

fun scalars :: "cty \<Rightarrow> (nat \<times> nat) list" where
  "scalars (CInt n) = [(0, n)]"
| "scalars (CArray n t) = concat (map (\<lambda>i. shift (i * sizeof t) (scalars t)) [0 ..< n])"
| "scalars (CStruct ms) = assemble 0 (map (\<lambda>(_, t). (sizeof t, alignof t, scalars t)) ms)"
| "scalars (CPacked ms) = assemble 0 (map (\<lambda>(_, t). (sizeof t, 1, scalars t)) ms)"
| "scalars (CUnion ms) = map (\<lambda>i. (i, 1)) [0 ..< sizeof (CUnion ms)]"

section \<open>The scalars of a type lie apart\<close>

fun apart :: "nat \<Rightarrow> (nat \<times> nat) list \<Rightarrow> nat \<Rightarrow> bool" where
  "apart lo [] hi \<longleftrightarrow> lo \<le> hi"
| "apart lo ((off, n) # ls) hi \<longleftrightarrow> lo \<le> off \<and> apart (off + n) ls hi"

lemma apart_le: "apart lo ls hi \<Longrightarrow> lo \<le> hi"
  by (induction lo ls hi rule: apart.induct) auto

lemma apart_append: "apart lo xs mid \<Longrightarrow> apart mid ys hi \<Longrightarrow> apart lo (xs @ ys) hi"
proof (induction lo xs mid rule: apart.induct)
  case (1 lo mid)
  then show ?case by (cases ys) auto
qed auto

lemma apart_shift: "apart lo ls hi \<Longrightarrow> apart (lo + d) (shift d ls) (hi + d)"
proof (induction lo ls hi rule: apart.induct)
  case (2 lo off n ls hi)
  then have "apart (off + n + d) (shift d ls) (hi + d)" by simp
  then show ?case using "2.prems" by (simp add: shift_def add.commute add.left_commute)
qed (simp add: shift_def)

lemma apart_weaken: "apart lo ls hi \<Longrightarrow> lo' \<le> lo \<Longrightarrow> hi \<le> hi' \<Longrightarrow> apart lo' ls hi'"
  by (induction lo ls hi arbitrary: lo' rule: apart.induct) auto

lemma round_up_ge: "x \<le> round_up x a"
proof (cases "a = 0")
  case False
  then have "x + a - 1 < (x + a - 1) div a * a + a" using div_mod_decomp [of "x + a - 1" a]
    by (metis add_less_cancel_left bot_nat_0.not_eq_extremum mod_less_divisor)
  then show ?thesis using False by (simp add: round_up_def)
qed (simp add: round_up_def)

lemma round_up_zero [simp]: "round_up 0 a = 0"
  by (simp add: round_up_def)

lemma round_up_one [simp]: "round_up x 1 = x" "round_up x (Suc 0) = x"
  by (simp_all add: round_up_def)

lemma assemble_apart:
  assumes "\<forall>(s, a, ls) \<in> set ms. apart 0 ls s"
  shows "apart off (assemble off ms) (members_end off (map (\<lambda>(s, a, ls). (s, a)) ms))"
  using assms
proof (induction off ms rule: assemble.induct)
  case (2 off s a ls ms)
  let ?o = "round_up off a"
  have "apart (0 + ?o) (shift ?o ls) (s + ?o)" by (rule apart_shift) (use "2.prems" in auto)
  then have "apart off (shift ?o ls) (?o + s)" using round_up_ge [of off a] by (auto intro: apart_weaken simp: add.commute)
  then show ?case using "2.IH" "2.prems" by (auto intro: apart_append)
qed simp

lemma array_apart: "apart 0 ls s \<Longrightarrow> apart 0 (concat (map (\<lambda>i. shift (i * s) ls) [0 ..< n])) (n * s)"
proof (induction n)
  case (Suc n)
  have "apart (0 + n * s) (shift (n * s) ls) (s + n * s)" by (rule apart_shift [OF Suc.prems])
  then show ?case using Suc by (auto intro: apart_append)
qed simp

lemma bytes_apart: "apart 0 (map (\<lambda>i. (i, 1)) [0 ..< n]) n"
proof (induction n)
  case (Suc n)
  then show ?case by (auto intro: apart_append)
qed simp

lemma scalars_apart: "apart 0 (scalars t) (sizeof t)"
proof (induction t rule: scalars.induct)
  case (2 n t)
  then show ?case by (cases "n = 0") (simp_all add: array_apart)
next
  case (3 ms)
  have "\<forall>x \<in> set ms. apart 0 (scalars (snd x)) (sizeof (snd x))" using 3 by fastforce
  then
  have "apart 0 (scalars (CStruct ms)) (members_end 0 (map (\<lambda>(_, t). (sizeof t, alignof t)) ms))"
    using assemble_apart [of "map (\<lambda>(_, t). (sizeof t, alignof t, scalars t)) ms" 0]
    by (auto simp: comp_def case_prod_unfold)
  then show ?case by (rule apart_weaken) (simp_all add: round_up_ge)
next
  case (4 ms)
  have "\<forall>x \<in> set ms. apart 0 (scalars (snd x)) (sizeof (snd x))" using 4 by fastforce
  then show ?case
    using assemble_apart [of "map (\<lambda>(_, t). (sizeof t, 1, scalars t)) ms" 0]
    by (auto simp: comp_def case_prod_unfold)
next
  case (5 ms)
  show ?case by (simp only: scalars.simps bytes_apart)
qed simp

section \<open>Memory\<close>

type_synonym cmem = "nat \<Rightarrow> 8 word"

text \<open>An integer of \<open>n\<close> bytes, the least significant first.\<close>

definition put_int :: "nat \<Rightarrow> nat \<Rightarrow> nat \<Rightarrow> cmem \<Rightarrow> cmem" where
  "put_int off n x m = (\<lambda>a. if off \<le> a \<and> a < off + n then of_nat (x div 256 ^ (a - off)) else m a)"

definition get_int :: "nat \<Rightarrow> nat \<Rightarrow> cmem \<Rightarrow> nat" where
  "get_int off n m = (\<Sum>i < n. unat (m (off + i)) * 256 ^ i)"

definition put_scalars :: "nat \<Rightarrow> (nat \<times> nat) list \<Rightarrow> nat list \<Rightarrow> cmem \<Rightarrow> cmem" where
  "put_scalars base ls v m = fold (\<lambda>((off, n), x). put_int (base + off) n x) (zip ls v) m"

definition get_scalars :: "nat \<Rightarrow> (nat \<times> nat) list \<Rightarrow> cmem \<Rightarrow> nat list" where
  "get_scalars base ls m = map (\<lambda>(off, n). get_int (base + off) n m) ls"

definition store :: "cty \<Rightarrow> nat \<Rightarrow> nat list \<Rightarrow> cmem \<Rightarrow> cmem" where
  "store t base = put_scalars base (scalars t)"

definition load :: "cty \<Rightarrow> nat \<Rightarrow> cmem \<Rightarrow> nat list" where
  "load t base = get_scalars base (scalars t)"

definition fits :: "(nat \<times> nat) list \<Rightarrow> nat list \<Rightarrow> bool" where
  "fits ls v \<longleftrightarrow> list_all2 (\<lambda>(off, n) x. x < 256 ^ n) ls v"

lemma digits: "x < 256 ^ n \<Longrightarrow> (\<Sum>i < n. x div 256 ^ i mod 256 * 256 ^ i) = (x :: nat)"
proof (induction n arbitrary: x)
  case (Suc n)
  have "(\<Sum>i < Suc n. x div 256 ^ i mod 256 * 256 ^ i) =
      x mod 256 + (\<Sum>i < n. x div 256 ^ Suc i mod 256 * 256 ^ Suc i)"
    by (simp add: sum.lessThan_Suc_shift del: sum.lessThan_Suc)
  also have "(\<Sum>i < n. x div 256 ^ Suc i mod 256 * 256 ^ Suc i) =
      256 * (\<Sum>i < n. (x div 256) div 256 ^ i mod 256 * 256 ^ i)"
    by (simp add: sum_distrib_left div_mult2_eq mult_ac)
  also have "\<dots> = 256 * (x div 256)" using Suc.IH [of "x div 256"] Suc.prems by (simp add: less_mult_imp_div_less mult.commute)
  finally show ?case by simp
qed simp

lemma get_put_int: "x < 256 ^ n \<Longrightarrow> get_int off n (put_int off n x m) = x"
  using digits [of x n] by (simp add: get_int_def put_int_def unat_of_nat)

lemma get_put_other: "off + n \<le> off' \<or> off' + n' \<le> off \<Longrightarrow> get_int off' n' (put_int off n x m) = get_int off' n' m"
  unfolding get_int_def put_int_def by (intro sum.cong) auto

lemma put_scalars_frame:
  "apart lo ls hi \<Longrightarrow> a < base + lo \<or> base + hi \<le> a \<Longrightarrow> put_scalars base ls v m a = m a"
proof (induction lo ls hi arbitrary: v m rule: apart.induct)
  case (2 lo off n ls hi)
  note hi = apart_le [of "off + n" ls hi]
  show ?case
  proof (cases v)
    case (Cons x xs)
    have "put_scalars base ls xs (put_int (base + off) n x m) a = put_int (base + off) n x m a"
      using 2 by auto
    then show ?thesis using "2.prems" hi Cons by (auto simp: put_scalars_def put_int_def)
  qed (simp add: put_scalars_def)
qed (simp add: put_scalars_def)

lemma get_int_frame:
  "apart lo ls hi \<Longrightarrow> off + n \<le> base + lo \<or> base + hi \<le> off \<Longrightarrow>
     get_int off n (put_scalars base ls v m) = get_int off n m"
  unfolding get_int_def by (intro sum.cong) (auto simp: put_scalars_frame)

lemma get_put_scalars:
  "apart lo ls hi \<Longrightarrow> fits ls v \<Longrightarrow> get_scalars base ls (put_scalars base ls v m) = v"
proof (induction lo ls hi arbitrary: v m rule: apart.induct)
  case (2 lo off n ls hi)
  then obtain x xs where v: "v = x # xs" "x < 256 ^ n" "fits ls xs" by (cases v) (auto simp: fits_def)
  let ?m = "put_int (base + off) n x m"
  have p: "put_scalars base ((off, n) # ls) v m = put_scalars base ls xs ?m"
    by (simp add: put_scalars_def v(1))
  have "get_int (base + off) n (put_scalars base ls xs ?m) = x"
    using "2.prems"(1) v(2) by (subst get_int_frame [where lo = "off + n" and hi = hi]) (auto simp: get_put_int)
  then show ?case unfolding p using "2.IH" [OF _ v(3)] "2.prems"(1) by (simp add: get_scalars_def v(1))
qed (auto simp: get_scalars_def fits_def)

lemma load_store: "fits (scalars t) v \<Longrightarrow> load t base (store t base v m) = v"
  by (simp add: load_def store_def get_put_scalars [OF scalars_apart])

lemma store_frame: "a < base \<or> base + sizeof t \<le> a \<Longrightarrow> store t base v m a = m a"
  by (simp add: store_def put_scalars_frame [OF scalars_apart])

text \<open>Reading only the first scalars of what was written.\<close>

lemma get_put_first:
  assumes "apart lo (xs @ ys) hi" "fits (xs @ ys) v"
  shows "get_scalars base xs (put_scalars base (xs @ ys) v m) = take (length xs) v"
proof -
  have "get_scalars base (xs @ ys) (put_scalars base (xs @ ys) v m) = v" by (rule get_put_scalars [OF assms])
  moreover have "get_scalars base (xs @ ys) m' = get_scalars base xs m' @ get_scalars base ys m'" for m'
    by (simp add: get_scalars_def)
  moreover have "length (get_scalars base xs m') = length xs" for m' by (simp add: get_scalars_def)
  ultimately show ?thesis by (metis append_eq_conv_conj)
qed

lemma load_first:
  assumes "scalars t = scalars h @ ys" "fits (scalars t) v"
  shows "load h base (store t base v m) = take (length (scalars h)) v"
  using get_put_first [of 0 "scalars h" ys "sizeof t" v base m] scalars_apart [of t] assms
  by (simp add: load_def store_def)

end
