(* ===== verification/Dill_Insn.thy ===== *)
theory Dill_Insn
  imports C_Layout
begin

text \<open>
  The virtual instructions of DILL (include/dill.h): the classes of instructions, the operands of every class as
  the members of one union, and the instruction that a foreign code generator is handed.
\<close>

section \<open>Parameters and external names\<close>

definition dill_parameter_type :: cty where
  "dill_parameter_type = CStruct [(''is_register'', int_t), (''reg'', int_t), (''offset'', int_t)]"

definition dill_extern_entry :: cty where
  "dill_extern_entry = CStruct [(''extern_name'', ptr_t), (''extern_value'', ptr_t)]"

section \<open>Instructions\<close>

datatype insn_class =
    iclass_arith3 | iclass_arith3i | iclass_arith2 | iclass_ret | iclass_convert | iclass_loadstore
  | iclass_loadstorei | iclass_set | iclass_setf | iclass_mov | iclass_reti | iclass_branch | iclass_branchi
  | iclass_jump_to_label | iclass_special | iclass_jump_to_reg | iclass_jump_to_imm | iclass_push
  | iclass_pushi | iclass_pushf | iclass_call | iclass_lea | iclass_compare | iclass_mark_label | iclass_nop

definition arith3 :: cty where
  "arith3 = CStruct [(''dest'', short_t), (''src1'', short_t), (''src2'', short_t)]"

definition arith3i :: cty where
  "arith3i = CStruct [(''dest'', short_t), (''src'', short_t),
     (''u'', CUnion [(''imm'', long_t), (''imm_a'', ptr_t)])]"

definition arith2 :: cty where
  "arith2 = CStruct [(''dest'', short_t), (''src'', short_t)]"

definition arith1 :: cty where
  "arith1 = CStruct [(''src'', short_t)]"

definition setf :: cty where
  "setf = CStruct [(''dest'', short_t), (''imm'', double_t)]"

definition branch :: cty where
  "branch = CStruct [(''src1'', short_t), (''src2'', short_t), (''label'', short_t)]"

definition branchi :: cty where
  "branchi = CStruct [(''src'', short_t), (''label'', short_t), (''imm_a'', ptr_t), (''imm_l'', long_t)]"

definition calli :: cty where
  "calli = CStruct [(''src'', short_t), (''imm_a'', ptr_t), (''imm_l'', long_t), (''xfer_name'', ptr_t)]"

definition label_operand :: cty where
  "label_operand = CStruct [(''label'', short_t), (''label_name'', ptr_t)]"

definition special :: cty where
  "special = CStruct [(''type'', int_t), (''param'', long_t)]"

definition operands_members :: "(string \<times> cty) list" where
  "operands_members =
     [(''a3'', arith3), (''a3i'', arith3i), (''a2'', arith2), (''a1'', arith1), (''sf'', setf), (''br'', branch),
      (''bri'', branchi), (''calli'', calli), (''label'', label_operand), (''spec'', special)]"

definition operands :: cty where
  "operands = CUnion operands_members"

definition virtual_insn :: cty where
  "virtual_insn = CStruct [(''class_code'', char_t), (''insn_code'', char_t), (''opnds'', operands)]"

lemma dill_sizes: "sizeof operands = 32" "sizeof virtual_insn = 40" "member_offset virtual_insn ''opnds'' = Some 8"
  by code_simp+

lemma operand_size: "(name, t) \<in> set operands_members \<Longrightarrow> sizeof t \<le> 32"
proof -
  have "list_all (\<lambda>(name, t). sizeof t \<le> 32) operands_members" by code_simp
  then show "(name, t) \<in> set operands_members \<Longrightarrow> sizeof t \<le> 32" by (auto simp: list_all_iff)
qed

text \<open>Writing an instruction through the member that its class chooses.\<close>

definition write_insn :: "nat \<Rightarrow> nat \<Rightarrow> cty \<Rightarrow> nat list \<Rightarrow> nat \<Rightarrow> cmem \<Rightarrow> cmem" where
  "write_insn cls insn t v base m =
     store t (base + the (member_offset virtual_insn ''opnds'')) v (put_int (base + 1) 1 insn (put_int base 1 cls m))"

text \<open>
  An instruction is read back as it was written, through the same member of the union; the operands of every class
  fit the instruction, so that the next one in the array is untouched.
\<close>

lemma virtual_insn_round_trip:
  assumes "(name, t) \<in> set operands_members" "fits (scalars t) v" "cls < 256" "insn < 256"
  shows "get_int base 1 (write_insn cls insn t v base m) = cls"
    "get_int (base + 1) 1 (write_insn cls insn t v base m) = insn"
    "load t (base + 8) (write_insn cls insn t v base m) = v"
    "base + sizeof virtual_insn \<le> a \<Longrightarrow> write_insn cls insn t v base m a = m a"
proof -
  let ?m = "put_int (base + 1) 1 insn (put_int base 1 cls m)"
  have w: "write_insn cls insn t v base m = store t (base + 8) v ?m" by (simp add: write_insn_def dill_sizes)
  have below: "get_int x 1 (store t (base + 8) v m') = get_int x 1 m'" if "x < base + 8" for x m'
    using that by (simp add: get_int_def store_frame)
  show "get_int base 1 (write_insn cls insn t v base m) = cls"
    using below [of base ?m] get_put_other [of base 1 "base + 1" 1] assms(3)
    by (simp add: w get_put_int get_put_other)
  show "get_int (base + 1) 1 (write_insn cls insn t v base m) = insn"
    using below [of "base + 1" ?m] assms(4) by (simp add: w get_put_int)
  show "load t (base + 8) (write_insn cls insn t v base m) = v" unfolding w by (rule load_store [OF assms(2)])
  show "write_insn cls insn t v base m a = m a" if "base + sizeof virtual_insn \<le> a"
    using that operand_size [OF assms(1)] by (simp add: w dill_sizes store_frame put_int_def)
qed

end
