(* ===== verification/Enet.thy ===== *)
theory Enet
  imports C_Layout
begin

text \<open>
  The ENet headers under include/enet, the reliable datagram layer that EVPath can use between the stones:
  the wire format of protocol.h (packed structs, the union of all commands, its constants), the wrap-around
  comparison of times (time.h), byte order (unix.h), version numbers and the structs of hosts, peers and
  packets (enet.h, list.h, callbacks.h). The functions of ENet are not in the repository.
\<close>

unbundle bit_operations_syntax

section \<open>Types\<close>

type_synonym enet_uint8 = "8 word"
type_synonym enet_uint16 = "16 word"
type_synonym enet_uint32 = "32 word"

abbreviation "uint8_t \<equiv> CInt 1"
abbreviation "uint16_t \<equiv> CInt 2"
abbreviation "uint32_t \<equiv> CInt 4"

section \<open>Times\<close>

definition ENET_TIME_OVERFLOW :: enet_uint32 where
  "ENET_TIME_OVERFLOW = 86400000"

definition ENET_TIME_LESS :: "enet_uint32 \<Rightarrow> enet_uint32 \<Rightarrow> bool" where
  "ENET_TIME_LESS a b \<longleftrightarrow> a - b \<ge> ENET_TIME_OVERFLOW"

definition ENET_TIME_GREATER :: "enet_uint32 \<Rightarrow> enet_uint32 \<Rightarrow> bool" where
  "ENET_TIME_GREATER a b \<longleftrightarrow> b - a \<ge> ENET_TIME_OVERFLOW"

definition ENET_TIME_LESS_EQUAL :: "enet_uint32 \<Rightarrow> enet_uint32 \<Rightarrow> bool" where
  "ENET_TIME_LESS_EQUAL a b \<longleftrightarrow> \<not> ENET_TIME_GREATER a b"

definition ENET_TIME_GREATER_EQUAL :: "enet_uint32 \<Rightarrow> enet_uint32 \<Rightarrow> bool" where
  "ENET_TIME_GREATER_EQUAL a b \<longleftrightarrow> \<not> ENET_TIME_LESS a b"

definition ENET_TIME_DIFFERENCE :: "enet_uint32 \<Rightarrow> enet_uint32 \<Rightarrow> enet_uint32" where
  "ENET_TIME_DIFFERENCE a b = (if a - b \<ge> ENET_TIME_OVERFLOW then b - a else a - b)"

definition ENET_MAX :: "'a::linorder \<Rightarrow> 'a \<Rightarrow> 'a" where
  "ENET_MAX x y = (if x > y then x else y)"

definition ENET_MIN :: "'a::linorder \<Rightarrow> 'a \<Rightarrow> 'a" where
  "ENET_MIN x y = (if x < y then x else y)"

section \<open>Byte order\<close>

text \<open>\<open>htons\<close> and the others swap the bytes: the prebuilt libraries are for a little-endian machine.\<close>

definition ENET_HOST_TO_NET_16 :: "enet_uint16 \<Rightarrow> enet_uint16" where
  "ENET_HOST_TO_NET_16 v = push_bit 8 v OR drop_bit 8 v"

definition ENET_HOST_TO_NET_32 :: "enet_uint32 \<Rightarrow> enet_uint32" where
  "ENET_HOST_TO_NET_32 v = push_bit 24 v OR push_bit 16 (take_bit 8 (drop_bit 8 v)) OR
     push_bit 8 (take_bit 8 (drop_bit 16 v)) OR drop_bit 24 v"

definition ENET_NET_TO_HOST_16 :: "enet_uint16 \<Rightarrow> enet_uint16" where
  "ENET_NET_TO_HOST_16 v = ENET_HOST_TO_NET_16 v"

definition ENET_NET_TO_HOST_32 :: "enet_uint32 \<Rightarrow> enet_uint32" where
  "ENET_NET_TO_HOST_32 v = ENET_HOST_TO_NET_32 v"

section \<open>Protocol constants\<close>

definition enet_protocol_limits :: "(string \<times> nat) list" where
  "enet_protocol_limits =
     [(''MINIMUM_MTU'', 576), (''MAXIMUM_MTU'', 4096), (''MAXIMUM_PACKET_COMMANDS'', 32),
      (''MINIMUM_WINDOW_SIZE'', 4096), (''MAXIMUM_WINDOW_SIZE'', 65536),
      (''MINIMUM_CHANNEL_COUNT'', 1), (''MAXIMUM_CHANNEL_COUNT'', 255),
      (''MAXIMUM_PEER_ID'', 0xFFFFFF), (''MAXIMUM_FRAGMENT_COUNT'', 1024 * 1024)]"

definition limit :: "string \<Rightarrow> nat" where
  "limit name = the (map_of enet_protocol_limits name)"

datatype ENetProtocolCommand =
    COMMAND_NONE | COMMAND_ACKNOWLEDGE | COMMAND_CONNECT | COMMAND_VERIFY_CONNECT | COMMAND_DISCONNECT
  | COMMAND_PING | COMMAND_SEND_RELIABLE | COMMAND_SEND_UNRELIABLE | COMMAND_SEND_FRAGMENT
  | COMMAND_SEND_UNSEQUENCED | COMMAND_BANDWIDTH_LIMIT | COMMAND_THROTTLE_CONFIGURE
  | COMMAND_SEND_UNRELIABLE_FRAGMENT

fun command_no :: "ENetProtocolCommand \<Rightarrow> nat" where
  "command_no COMMAND_NONE = 0"
| "command_no COMMAND_ACKNOWLEDGE = 1"
| "command_no COMMAND_CONNECT = 2"
| "command_no COMMAND_VERIFY_CONNECT = 3"
| "command_no COMMAND_DISCONNECT = 4"
| "command_no COMMAND_PING = 5"
| "command_no COMMAND_SEND_RELIABLE = 6"
| "command_no COMMAND_SEND_UNRELIABLE = 7"
| "command_no COMMAND_SEND_FRAGMENT = 8"
| "command_no COMMAND_SEND_UNSEQUENCED = 9"
| "command_no COMMAND_BANDWIDTH_LIMIT = 10"
| "command_no COMMAND_THROTTLE_CONFIGURE = 11"
| "command_no COMMAND_SEND_UNRELIABLE_FRAGMENT = 12"

definition COMMAND_COUNT :: nat where "COMMAND_COUNT = 13"

definition COMMAND_MASK :: enet_uint8 where "COMMAND_MASK = 0x0F"

definition COMMAND_FLAG_ACKNOWLEDGE :: enet_uint8 where "COMMAND_FLAG_ACKNOWLEDGE = push_bit 7 1"

definition COMMAND_FLAG_UNSEQUENCED :: enet_uint8 where "COMMAND_FLAG_UNSEQUENCED = push_bit 6 1"

definition HEADER_FLAG_COMPRESSED :: enet_uint32 where "HEADER_FLAG_COMPRESSED = push_bit 26 1"

definition HEADER_FLAG_SENT_TIME :: enet_uint32 where "HEADER_FLAG_SENT_TIME = push_bit 27 1"

definition HEADER_FLAG_MASK :: enet_uint32 where
  "HEADER_FLAG_MASK = HEADER_FLAG_COMPRESSED OR HEADER_FLAG_SENT_TIME"

definition HEADER_SESSION_MASK :: enet_uint32 where "HEADER_SESSION_MASK = push_bit 24 3"

definition HEADER_SESSION_SHIFT :: nat where "HEADER_SESSION_SHIFT = 24"

section \<open>The packed structs\<close>

definition ENetProtocolHeader :: cty where
  "ENetProtocolHeader = CPacked [(''peerID'', uint32_t), (''sentTime'', uint16_t)]"

definition ENetProtocolCommandHeader :: cty where
  "ENetProtocolCommandHeader =
     CPacked [(''command'', uint8_t), (''channelID'', uint8_t), (''reliableSequenceNumber'', uint16_t)]"

definition ENetProtocolAcknowledge :: cty where
  "ENetProtocolAcknowledge =
     CPacked [(''header'', ENetProtocolCommandHeader), (''receivedReliableSequenceNumber'', uint16_t),
       (''receivedSentTime'', uint16_t)]"

definition ENetProtocolConnect :: cty where
  "ENetProtocolConnect =
     CPacked [(''header'', ENetProtocolCommandHeader), (''outgoingPeerID'', uint32_t),
       (''incomingSessionID'', uint8_t), (''outgoingSessionID'', uint8_t), (''mtu'', uint32_t),
       (''windowSize'', uint32_t), (''channelCount'', uint32_t), (''incomingBandwidth'', uint32_t),
       (''outgoingBandwidth'', uint32_t), (''packetThrottleInterval'', uint32_t),
       (''packetThrottleAcceleration'', uint32_t), (''packetThrottleDeceleration'', uint32_t),
       (''connectID'', uint32_t), (''data'', uint32_t)]"

definition ENetProtocolVerifyConnect :: cty where
  "ENetProtocolVerifyConnect =
     CPacked [(''header'', ENetProtocolCommandHeader), (''outgoingPeerID'', uint32_t),
       (''incomingSessionID'', uint8_t), (''outgoingSessionID'', uint8_t), (''mtu'', uint32_t),
       (''windowSize'', uint32_t), (''channelCount'', uint32_t), (''incomingBandwidth'', uint32_t),
       (''outgoingBandwidth'', uint32_t), (''packetThrottleInterval'', uint32_t),
       (''packetThrottleAcceleration'', uint32_t), (''packetThrottleDeceleration'', uint32_t),
       (''connectID'', uint32_t)]"

definition ENetProtocolBandwidthLimit :: cty where
  "ENetProtocolBandwidthLimit =
     CPacked [(''header'', ENetProtocolCommandHeader), (''incomingBandwidth'', uint32_t),
       (''outgoingBandwidth'', uint32_t)]"

definition ENetProtocolThrottleConfigure :: cty where
  "ENetProtocolThrottleConfigure =
     CPacked [(''header'', ENetProtocolCommandHeader), (''packetThrottleInterval'', uint32_t),
       (''packetThrottleAcceleration'', uint32_t), (''packetThrottleDeceleration'', uint32_t)]"

definition ENetProtocolDisconnect :: cty where
  "ENetProtocolDisconnect = CPacked [(''header'', ENetProtocolCommandHeader), (''data'', uint32_t)]"

definition ENetProtocolPing :: cty where
  "ENetProtocolPing = CPacked [(''header'', ENetProtocolCommandHeader)]"

definition ENetProtocolSendReliable :: cty where
  "ENetProtocolSendReliable = CPacked [(''header'', ENetProtocolCommandHeader), (''dataLength'', uint16_t)]"

definition ENetProtocolSendUnreliable :: cty where
  "ENetProtocolSendUnreliable =
     CPacked [(''header'', ENetProtocolCommandHeader), (''unreliableSequenceNumber'', uint16_t),
       (''dataLength'', uint16_t)]"

definition ENetProtocolSendUnsequenced :: cty where
  "ENetProtocolSendUnsequenced =
     CPacked [(''header'', ENetProtocolCommandHeader), (''unsequencedGroup'', uint16_t),
       (''dataLength'', uint16_t)]"

definition ENetProtocolSendFragment :: cty where
  "ENetProtocolSendFragment =
     CPacked [(''header'', ENetProtocolCommandHeader), (''startSequenceNumber'', uint16_t),
       (''dataLength'', uint16_t), (''fragmentCount'', uint32_t), (''fragmentNumber'', uint32_t),
       (''totalLength'', uint32_t), (''fragmentOffset'', uint32_t)]"

definition ENetProtocol_members :: "(string \<times> cty) list" where
  "ENetProtocol_members =
     [(''header'', ENetProtocolCommandHeader), (''acknowledge'', ENetProtocolAcknowledge),
      (''connect'', ENetProtocolConnect), (''verifyConnect'', ENetProtocolVerifyConnect),
      (''disconnect'', ENetProtocolDisconnect), (''ping'', ENetProtocolPing),
      (''sendReliable'', ENetProtocolSendReliable), (''sendUnreliable'', ENetProtocolSendUnreliable),
      (''sendUnsequenced'', ENetProtocolSendUnsequenced), (''sendFragment'', ENetProtocolSendFragment),
      (''bandwidthLimit'', ENetProtocolBandwidthLimit), (''throttleConfigure'', ENetProtocolThrottleConfigure)]"

definition ENetProtocol :: cty where
  "ENetProtocol = CUnion ENetProtocol_members"

lemmas enet_packed = ENetProtocolCommandHeader_def ENetProtocolAcknowledge_def ENetProtocolConnect_def
  ENetProtocolVerifyConnect_def ENetProtocolDisconnect_def ENetProtocolPing_def ENetProtocolSendReliable_def
  ENetProtocolSendUnreliable_def ENetProtocolSendUnsequenced_def ENetProtocolSendFragment_def
  ENetProtocolBandwidthLimit_def ENetProtocolThrottleConfigure_def

lemma enet_sizes:
  "sizeof ENetProtocolHeader = 6" "sizeof ENetProtocolCommandHeader = 4" "sizeof ENetProtocolConnect = 50"
  "sizeof ENetProtocol = 50"
  by code_simp+

text \<open>Every command fits the union, and begins with the command header.\<close>

lemma enet_member:
  assumes "(name, t) \<in> set ENetProtocol_members"
  shows "sizeof t \<le> sizeof ENetProtocol \<and> (\<exists>ys. scalars t = scalars ENetProtocolCommandHeader @ ys)"
  using assms unfolding enet_sizes ENetProtocol_members_def
  by (auto simp: enet_packed shift_def round_up_def)

text \<open>The fields of the commands by name, with offset and width, as they go over the wire behind the four bytes of the header.\<close>

fun wire_fields :: "nat \<Rightarrow> (string \<times> cty) list \<Rightarrow> (string \<times> nat \<times> nat) list" where
  "wire_fields off [] = []"
| "wire_fields off ((name, t) # ms) = (name, off, sizeof t) # wire_fields (off + sizeof t) ms"

fun wire_format :: "cty \<Rightarrow> (string \<times> nat \<times> nat) list" where
  "wire_format (CPacked ms) = wire_fields 0 ms"
| "wire_format t = []"

lemma enet_wire_header:
  "wire_format ENetProtocolCommandHeader =
    [(''command'', 0, 1), (''channelID'', 1, 1), (''reliableSequenceNumber'', 2, 2)]"
  by code_simp

lemma enet_wire_connect:
  "tl (wire_format ENetProtocolConnect) =
    [(''outgoingPeerID'', 4, 4), (''incomingSessionID'', 8, 1), (''outgoingSessionID'', 9, 1), (''mtu'', 10, 4),
     (''windowSize'', 14, 4), (''channelCount'', 18, 4), (''incomingBandwidth'', 22, 4), (''outgoingBandwidth'', 26, 4),
     (''packetThrottleInterval'', 30, 4), (''packetThrottleAcceleration'', 34, 4),
     (''packetThrottleDeceleration'', 38, 4), (''connectID'', 42, 4), (''data'', 46, 4)]"
  "wire_format ENetProtocolVerifyConnect = butlast (wire_format ENetProtocolConnect)"
  by code_simp+

lemma enet_wire_data:
  "tl (wire_format ENetProtocolSendReliable) = [(''dataLength'', 4, 2)]"
  "tl (wire_format ENetProtocolSendUnreliable) = [(''unreliableSequenceNumber'', 4, 2), (''dataLength'', 6, 2)]"
  "tl (wire_format ENetProtocolSendUnsequenced) = [(''unsequencedGroup'', 4, 2), (''dataLength'', 6, 2)]"
  "tl (wire_format ENetProtocolSendFragment) =
    [(''startSequenceNumber'', 4, 2), (''dataLength'', 6, 2), (''fragmentCount'', 8, 4), (''fragmentNumber'', 12, 4),
     (''totalLength'', 16, 4), (''fragmentOffset'', 20, 4)]"
  "tl (wire_format ENetProtocolAcknowledge) = [(''receivedReliableSequenceNumber'', 4, 2), (''receivedSentTime'', 6, 2)]"
  by code_simp+

section \<open>Versions\<close>

definition ENET_VERSION_CREATE :: "int \<Rightarrow> int \<Rightarrow> int \<Rightarrow> int" where
  "ENET_VERSION_CREATE major minor patch = push_bit 16 major OR push_bit 8 minor OR patch"

definition ENET_VERSION_GET_MAJOR :: "int \<Rightarrow> int" where
  "ENET_VERSION_GET_MAJOR version = drop_bit 16 version AND 0xFF"

definition ENET_VERSION_GET_MINOR :: "int \<Rightarrow> int" where
  "ENET_VERSION_GET_MINOR version = drop_bit 8 version AND 0xFF"

definition ENET_VERSION_GET_PATCH :: "int \<Rightarrow> int" where
  "ENET_VERSION_GET_PATCH version = version AND 0xFF"

definition ENET_VERSION :: int where
  "ENET_VERSION = ENET_VERSION_CREATE 1 3 12"

section \<open>Sockets\<close>

datatype ENetSocketType = STREAM | DATAGRAM

fun socket_type_no :: "ENetSocketType \<Rightarrow> nat" where
  "socket_type_no STREAM = 1"
| "socket_type_no DATAGRAM = 2"

datatype ENetSocketWait = WAIT_NONE | WAIT_SEND | WAIT_RECEIVE | WAIT_INTERRUPT

fun socket_wait :: "ENetSocketWait \<Rightarrow> enet_uint32" where
  "socket_wait WAIT_NONE = 0"
| "socket_wait WAIT_SEND = push_bit 0 1"
| "socket_wait WAIT_RECEIVE = push_bit 1 1"
| "socket_wait WAIT_INTERRUPT = push_bit 2 1"

datatype ENetSocketOption =
    NONBLOCK | BROADCAST | RCVBUF | SNDBUF | REUSEADDR | RCVTIMEO | SNDTIMEO | ERROR | NODELAY

fun socket_option_no :: "ENetSocketOption \<Rightarrow> nat" where
  "socket_option_no NONBLOCK = 1"
| "socket_option_no BROADCAST = 2"
| "socket_option_no RCVBUF = 3"
| "socket_option_no SNDBUF = 4"
| "socket_option_no REUSEADDR = 5"
| "socket_option_no RCVTIMEO = 6"
| "socket_option_no SNDTIMEO = 7"
| "socket_option_no ERROR = 8"
| "socket_option_no NODELAY = 9"

datatype ENetSocketShutdown = SHUTDOWN_READ | SHUTDOWN_WRITE | SHUTDOWN_READ_WRITE

fun socket_shutdown_no :: "ENetSocketShutdown \<Rightarrow> nat" where
  "socket_shutdown_no SHUTDOWN_READ = 0"
| "socket_shutdown_no SHUTDOWN_WRITE = 1"
| "socket_shutdown_no SHUTDOWN_READ_WRITE = 2"

section \<open>Hosts, peers and packets\<close>

definition ENetListNode :: cty where
  "ENetListNode = CStruct [(''next'', ptr_t), (''previous'', ptr_t)]"

definition ENetList :: cty where
  "ENetList = CStruct [(''sentinel'', ENetListNode)]"

text \<open>The list macros: a list is a ring through its sentinel, which lies at the address of the list.\<close>

definition enet_list_next :: "cmem \<Rightarrow> nat \<Rightarrow> nat" where
  "enet_list_next m iterator = get_int (iterator + the (member_offset ENetListNode ''next'')) 8 m"

definition enet_list_previous :: "cmem \<Rightarrow> nat \<Rightarrow> nat" where
  "enet_list_previous m iterator = get_int (iterator + the (member_offset ENetListNode ''previous'')) 8 m"

definition enet_list_end :: "nat \<Rightarrow> nat" where
  "enet_list_end list = list + the (member_offset ENetList ''sentinel'')"

definition enet_list_begin :: "cmem \<Rightarrow> nat \<Rightarrow> nat" where
  "enet_list_begin m list = enet_list_next m (enet_list_end list)"

definition enet_list_empty :: "cmem \<Rightarrow> nat \<Rightarrow> bool" where
  "enet_list_empty m list \<longleftrightarrow> enet_list_begin m list = enet_list_end list"

definition enet_list_front :: "cmem \<Rightarrow> nat \<Rightarrow> nat" where
  "enet_list_front m list = enet_list_next m (enet_list_end list)"

definition enet_list_back :: "cmem \<Rightarrow> nat \<Rightarrow> nat" where
  "enet_list_back m list = enet_list_previous m (enet_list_end list)"

text \<open>A ring with the given nodes, and what the macros see of it.\<close>

definition ring :: "cmem \<Rightarrow> nat \<Rightarrow> nat list \<Rightarrow> bool" where
  "ring m list nodes \<longleftrightarrow> list \<notin> set nodes \<and>
     (\<forall>(a, b) \<in> set (zip (list # nodes) (nodes @ [list])). enet_list_next m a = b \<and> enet_list_previous m b = a)"

lemma enet_list_end_sentinel: "enet_list_end list = list"
proof -
  have "member_offset ENetList ''sentinel'' = Some 0" by code_simp
  then show ?thesis by (simp add: enet_list_end_def)
qed

lemma ring_macros:
  assumes "ring m list nodes"
  shows "enet_list_empty m list \<longleftrightarrow> nodes = []"
    "nodes \<noteq> [] \<Longrightarrow> enet_list_front m list = hd nodes \<and> enet_list_back m list = last nodes"
proof -
  note d = enet_list_empty_def enet_list_begin_def enet_list_front_def enet_list_back_def enet_list_end_sentinel
  have first: "enet_list_next m list = hd (nodes @ [list])"
    using assms by (cases nodes) (auto simp: ring_def)
  have "(last (list # nodes), list) \<in> set (zip (list # nodes) (nodes @ [list]))"
  proof (cases nodes rule: rev_cases)
    case (snoc ys y)
    then show ?thesis using zip_append [of "list # ys" "ys @ [y]" "[y]" "[list]"] by simp
  qed simp
  then have final: "enet_list_previous m list = last (list # nodes)" using assms by (auto simp: ring_def)
  show "enet_list_empty m list \<longleftrightarrow> nodes = []"
    using first assms by (cases nodes) (auto simp: d ring_def)
  show "enet_list_front m list = hd nodes \<and> enet_list_back m list = last nodes" if "nodes \<noteq> []"
    using first final that by (simp add: d)
qed

definition ENetCallbacks :: cty where
  "ENetCallbacks = CStruct [(''malloc'', ptr_t), (''free'', ptr_t), (''no_memory'', ptr_t)]"

definition ENetBuffer :: cty where
  "ENetBuffer = CStruct [(''data'', ptr_t), (''dataLength'', size_t)]"

definition ENetAddress :: cty where
  "ENetAddress = CStruct [(''host'', uint32_t), (''port'', uint16_t)]"

definition ENetPacket :: cty where
  "ENetPacket =
     CStruct [(''referenceCount'', size_t), (''flags'', uint32_t), (''data'', ptr_t), (''dataLength'', size_t),
       (''freeCallback'', ptr_t), (''userData'', ptr_t)]"

definition ENetAcknowledgement :: cty where
  "ENetAcknowledgement =
     CStruct [(''acknowledgementList'', ENetListNode), (''sentTime'', uint32_t), (''command'', ENetProtocol)]"

definition ENetOutgoingCommand :: cty where
  "ENetOutgoingCommand =
     CStruct [(''outgoingCommandList'', ENetListNode), (''reliableSequenceNumber'', uint16_t),
       (''unreliableSequenceNumber'', uint16_t), (''sentTime'', uint32_t), (''roundTripTimeout'', uint32_t),
       (''roundTripTimeoutLimit'', uint32_t), (''fragmentOffset'', uint32_t), (''fragmentLength'', uint16_t),
       (''sendAttempts'', uint16_t), (''command'', ENetProtocol), (''packet'', ptr_t)]"

definition ENetIncomingCommand :: cty where
  "ENetIncomingCommand =
     CStruct [(''incomingCommandList'', ENetListNode), (''reliableSequenceNumber'', uint16_t),
       (''unreliableSequenceNumber'', uint16_t), (''command'', ENetProtocol), (''fragmentCount'', uint32_t),
       (''fragmentsRemaining'', uint32_t), (''fragments'', ptr_t), (''packet'', ptr_t)]"

text \<open>The flags of a packet, one bit each.\<close>

datatype ENetPacketFlag = RELIABLE | UNSEQUENCED | NO_ALLOCATE | UNRELIABLE_FRAGMENT | SENT

fun packet_flag :: "ENetPacketFlag \<Rightarrow> enet_uint32" where
  "packet_flag RELIABLE = push_bit 0 1"
| "packet_flag UNSEQUENCED = push_bit 1 1"
| "packet_flag NO_ALLOCATE = push_bit 2 1"
| "packet_flag UNRELIABLE_FRAGMENT = push_bit 3 1"
| "packet_flag SENT = push_bit 8 1"

lemma packet_flags_apart: "packet_flag f AND packet_flag g \<noteq> 0 \<Longrightarrow> f = g"
  by (cases f; cases g) simp_all

datatype ENetPeerState =
    DISCONNECTED | CONNECTING | ACKNOWLEDGING_CONNECT | CONNECTION_PENDING | CONNECTION_SUCCEEDED
  | CONNECTED | DISCONNECT_LATER | DISCONNECTING | ACKNOWLEDGING_DISCONNECT | ZOMBIE

fun peer_state_no :: "ENetPeerState \<Rightarrow> nat" where
  "peer_state_no DISCONNECTED = 0"
| "peer_state_no CONNECTING = 1"
| "peer_state_no ACKNOWLEDGING_CONNECT = 2"
| "peer_state_no CONNECTION_PENDING = 3"
| "peer_state_no CONNECTION_SUCCEEDED = 4"
| "peer_state_no CONNECTED = 5"
| "peer_state_no DISCONNECT_LATER = 6"
| "peer_state_no DISCONNECTING = 7"
| "peer_state_no ACKNOWLEDGING_DISCONNECT = 8"
| "peer_state_no ZOMBIE = 9"

text \<open>C compares the states by their values: a peer passes through them in this order.\<close>

instantiation ENetPeerState :: linorder
begin

definition less_eq_ENetPeerState :: "ENetPeerState \<Rightarrow> ENetPeerState \<Rightarrow> bool" where
  "less_eq_ENetPeerState a b \<longleftrightarrow> peer_state_no a \<le> peer_state_no b"

definition less_ENetPeerState :: "ENetPeerState \<Rightarrow> ENetPeerState \<Rightarrow> bool" where
  "less_ENetPeerState a b \<longleftrightarrow> peer_state_no a < peer_state_no b"

instance
proof
  fix x y :: ENetPeerState
  show "x \<le> y \<Longrightarrow> y \<le> x \<Longrightarrow> x = y"
    by (cases x; cases y) (simp_all add: less_eq_ENetPeerState_def)
qed (auto simp: less_eq_ENetPeerState_def less_ENetPeerState_def)

end

definition ENET_BUFFER_MAXIMUM :: nat where
  "ENET_BUFFER_MAXIMUM = 1 + 2 * limit ''MAXIMUM_PACKET_COMMANDS''"

definition enet_constants :: "(string \<times> nat) list" where
  "enet_constants =
     [(''HOST_RECEIVE_BUFFER_SIZE'', 256 * 1024), (''HOST_SEND_BUFFER_SIZE'', 256 * 1024),
      (''HOST_BANDWIDTH_THROTTLE_INTERVAL'', 1000), (''HOST_DEFAULT_MTU'', 1400),
      (''HOST_DEFAULT_MAXIMUM_PACKET_SIZE'', 32 * 1024 * 1024),
      (''HOST_DEFAULT_MAXIMUM_WAITING_DATA'', 32 * 1024 * 1024),
      (''PEER_DEFAULT_ROUND_TRIP_TIME'', 500), (''PEER_DEFAULT_PACKET_THROTTLE'', 32),
      (''PEER_PACKET_THROTTLE_SCALE'', 32), (''PEER_PACKET_THROTTLE_COUNTER'', 7),
      (''PEER_PACKET_THROTTLE_ACCELERATION'', 2), (''PEER_PACKET_THROTTLE_DECELERATION'', 2),
      (''PEER_PACKET_THROTTLE_INTERVAL'', 5000), (''PEER_PACKET_LOSS_SCALE'', 2 ^ 16),
      (''PEER_PACKET_LOSS_INTERVAL'', 10000), (''PEER_WINDOW_SIZE_SCALE'', 64 * 1024),
      (''PEER_TIMEOUT_LIMIT'', 32), (''PEER_TIMEOUT_MINIMUM'', 5000), (''PEER_TIMEOUT_MAXIMUM'', 30000),
      (''PEER_PING_INTERVAL'', 500), (''PEER_UNSEQUENCED_WINDOWS'', 64),
      (''PEER_UNSEQUENCED_WINDOW_SIZE'', 1024), (''PEER_FREE_UNSEQUENCED_WINDOWS'', 32),
      (''PEER_RELIABLE_WINDOWS'', 16), (''PEER_RELIABLE_WINDOW_SIZE'', 0x1000),
      (''PEER_FREE_RELIABLE_WINDOWS'', 8)]"

definition enet_constant :: "string \<Rightarrow> nat" where
  "enet_constant name = the (map_of enet_constants name)"

definition ENetChannel :: cty where
  "ENetChannel =
     CStruct [(''outgoingReliableSequenceNumber'', uint16_t), (''outgoingUnreliableSequenceNumber'', uint16_t),
       (''usedReliableWindows'', uint16_t), (''reliableWindows'', CArray (enet_constant ''PEER_RELIABLE_WINDOWS'') uint16_t),
       (''incomingReliableSequenceNumber'', uint16_t), (''incomingUnreliableSequenceNumber'', uint16_t),
       (''incomingReliableCommands'', ENetList), (''incomingUnreliableCommands'', ENetList)]"

definition ENetPeer :: cty where
  "ENetPeer =
     CStruct [(''dispatchList'', ENetListNode), (''host'', ptr_t), (''outgoingPeerID'', uint32_t),
       (''incomingPeerID'', uint32_t), (''connectID'', uint32_t), (''outgoingSessionID'', uint8_t),
       (''incomingSessionID'', uint8_t), (''address'', ENetAddress), (''data'', ptr_t), (''state'', int_t),
       (''channels'', ptr_t), (''channelCount'', size_t), (''incomingBandwidth'', uint32_t),
       (''outgoingBandwidth'', uint32_t), (''incomingBandwidthThrottleEpoch'', uint32_t),
       (''outgoingBandwidthThrottleEpoch'', uint32_t), (''incomingDataTotal'', uint32_t),
       (''outgoingDataTotal'', uint32_t), (''lastSendTime'', uint32_t), (''lastReceiveTime'', uint32_t),
       (''nextTimeout'', uint32_t), (''earliestTimeout'', uint32_t), (''packetLossEpoch'', uint32_t),
       (''packetsSent'', uint32_t), (''packetsLost'', uint32_t), (''packetLoss'', uint32_t),
       (''packetLossVariance'', uint32_t), (''packetThrottle'', uint32_t), (''packetThrottleLimit'', uint32_t),
       (''packetThrottleCounter'', uint32_t), (''packetThrottleEpoch'', uint32_t),
       (''packetThrottleAcceleration'', uint32_t), (''packetThrottleDeceleration'', uint32_t),
       (''packetThrottleInterval'', uint32_t), (''pingInterval'', uint32_t), (''timeoutLimit'', uint32_t),
       (''timeoutMinimum'', uint32_t), (''timeoutMaximum'', uint32_t), (''lastRoundTripTime'', uint32_t),
       (''lowestRoundTripTime'', uint32_t), (''lastRoundTripTimeVariance'', uint32_t),
       (''highestRoundTripTimeVariance'', uint32_t), (''roundTripTime'', uint32_t),
       (''roundTripTimeVariance'', uint32_t), (''mtu'', uint32_t), (''windowSize'', uint32_t),
       (''reliableDataInTransit'', uint32_t), (''outgoingReliableSequenceNumber'', uint16_t),
       (''acknowledgements'', ENetList), (''sentReliableCommands'', ENetList),
       (''sentUnreliableCommands'', ENetList), (''outgoingReliableCommands'', ENetList),
       (''outgoingUnreliableCommands'', ENetList), (''dispatchedCommands'', ENetList), (''needsDispatch'', int_t),
       (''incomingUnsequencedGroup'', uint16_t), (''outgoingUnsequencedGroup'', uint16_t),
       (''unsequencedWindow'', CArray (enet_constant ''PEER_UNSEQUENCED_WINDOW_SIZE'' div 32) uint32_t),
       (''eventData'', uint32_t), (''totalWaitingData'', size_t)]"

definition ENetCompressor :: cty where
  "ENetCompressor = CStruct [(''context'', ptr_t), (''compress'', ptr_t), (''decompress'', ptr_t), (''destroy'', ptr_t)]"

definition ENetHost :: cty where
  "ENetHost =
     CStruct [(''socket'', int_t), (''address'', ENetAddress), (''incomingBandwidth'', uint32_t),
       (''outgoingBandwidth'', uint32_t), (''bandwidthThrottleEpoch'', uint32_t), (''mtu'', uint32_t),
       (''randomSeed'', uint32_t), (''recalculateBandwidthLimits'', int_t), (''peer_list'', ptr_t),
       (''peerCount'', size_t), (''channelLimit'', size_t), (''serviceTime'', uint32_t),
       (''dispatchQueue'', ENetList), (''continueSending'', int_t), (''packetSize'', size_t),
       (''headerFlags'', uint32_t), (''commands'', CArray (limit ''MAXIMUM_PACKET_COMMANDS'') ENetProtocol),
       (''commandCount'', size_t), (''buffers'', CArray ENET_BUFFER_MAXIMUM ENetBuffer), (''bufferCount'', size_t),
       (''checksum'', ptr_t), (''compressor'', ENetCompressor),
       (''packetData'', CArray 2 (CArray (limit ''MAXIMUM_MTU'') uint8_t)), (''receivedAddress'', ENetAddress),
       (''receivedData'', ptr_t), (''receivedDataLength'', size_t), (''totalSentData'', uint32_t),
       (''totalSentPackets'', uint32_t), (''totalReceivedData'', uint32_t), (''totalReceivedPackets'', uint32_t),
       (''intercept'', ptr_t), (''connectedPeers'', size_t), (''bandwidthLimitedPeers'', size_t),
       (''duplicatePeers'', size_t), (''maximumPacketSize'', size_t), (''maximumWaitingData'', size_t)]"

datatype ENetEventType = EVENT_NONE | EVENT_CONNECT | EVENT_DISCONNECT | EVENT_RECEIVE

fun event_type_no :: "ENetEventType \<Rightarrow> nat" where
  "event_type_no EVENT_NONE = 0"
| "event_type_no EVENT_CONNECT = 1"
| "event_type_no EVENT_DISCONNECT = 2"
| "event_type_no EVENT_RECEIVE = 3"

definition ENetEvent :: cty where
  "ENetEvent =
     CStruct [(''type'', int_t), (''peer'', ptr_t), (''channelID'', uint8_t), (''data'', uint32_t), (''packet'', ptr_t)]"

section \<open>Properties\<close>

text \<open>
  A command written through any member of the union ENetProtocol is read back unchanged
  through that member; the member \<open>header\<close> reads its first three scalars whatever the command is, so that the
  receiver can choose the member by the command number; and no byte outside the union's 50 is touched.
\<close>

theorem enet_command_round_trip:
  assumes "(name, t) \<in> set ENetProtocol_members" "fits (scalars t) v"
  shows "load t base (store t base v m) = v \<and>
    load ENetProtocolCommandHeader base (store t base v m) = take 3 v \<and>
    (\<forall>a. a < base \<or> base + sizeof ENetProtocol \<le> a \<longrightarrow> store t base v m a = m a)"
proof -
  obtain ys where ys: "scalars t = scalars ENetProtocolCommandHeader @ ys" "sizeof t \<le> sizeof ENetProtocol"
    using enet_member [OF assms(1)] by blast
  have "length (scalars ENetProtocolCommandHeader) = 3" by code_simp
  then show ?thesis
    using load_store [OF assms(2)] load_first [OF ys(1) assms(2)] store_frame [of _ base t v m] ys(2) by fastforce
qed

text \<open>An acknowledgement of command 6 on channel 2 with sequence number 300.\<close>

theorem enet_command_round_trip_witness:
  "load ENetProtocolAcknowledge 0 (store ENetProtocolAcknowledge 0 [1, 2, 300, 299, 4000] (\<lambda>_. 0)) =
     [1, 2, 300, 299, 4000]"
proof -
  have m: "(''acknowledge'', ENetProtocolAcknowledge) \<in> set ENetProtocol_members" by (simp add: ENetProtocol_members_def)
  have f: "fits (scalars ENetProtocolAcknowledge) [1, 2, 300, 299, 4000]"
    by (simp add: fits_def enet_packed shift_def round_up_def)
  show ?thesis using enet_command_round_trip [OF m f] by blast
qed

text \<open>
  Times wrap around at 32 bits: of two times less than a day apart the comparison gives the order in which
  the clock reached them, across the wrap-around too, and the difference is their distance in both orders. Between one
  day and \<open>2 ^ 32\<close> less one day apart, each of the two is less than the other.
\<close>

theorem enet_time_wraps:
  assumes "unat k + unat ENET_TIME_OVERFLOW \<le> 2 ^ 32"
  shows "ENET_TIME_LESS a (a + k) = (k \<noteq> 0) \<and> ENET_TIME_GREATER (a + k) a = (k \<noteq> 0) \<and>
    (if k < ENET_TIME_OVERFLOW then \<not> ENET_TIME_LESS (a + k) a \<and> ENET_TIME_LESS_EQUAL a (a + k) \<and>
       ENET_TIME_DIFFERENCE a (a + k) = k \<and> ENET_TIME_DIFFERENCE (a + k) a = k
     else ENET_TIME_LESS (a + k) a)"
proof -
  have o: "unat ENET_TIME_OVERFLOW = 86400000" by (simp add: ENET_TIME_OVERFLOW_def)
  have n: "ENET_TIME_OVERFLOW \<le> - k \<longleftrightarrow> k \<noteq> 0"
  proof (cases "k = 0")
    case False
    then have "unat (- k) = 2 ^ 32 - unat k" using unat_sub_if_size [of 0 k] by (simp add: word_size unat_eq_0)
    then show ?thesis using assms False by (simp add: word_le_nat_alt)
  qed (simp add: ENET_TIME_OVERFLOW_def)
  have "ENET_TIME_OVERFLOW \<noteq> 0" by (simp add: ENET_TIME_OVERFLOW_def)
  then show ?thesis
    by (auto simp: ENET_TIME_LESS_def ENET_TIME_GREATER_def ENET_TIME_LESS_EQUAL_def ENET_TIME_DIFFERENCE_def n not_le)
qed

theorem enet_time_wraps_witness:
  "ENET_TIME_LESS (- 5) 10 \<and> \<not> ENET_TIME_LESS 10 (- 5) \<and> ENET_TIME_DIFFERENCE (- 5) 10 = 15"
  using enet_time_wraps [of 15 "- 5"] by (simp add: ENET_TIME_OVERFLOW_def)

section \<open>Further laws of the macros\<close>

lemma enet_byte_order_16: "ENET_NET_TO_HOST_16 (ENET_HOST_TO_NET_16 v) = v"
proof (rule bit_word_eqI)
  fix n assume "n < LENGTH(16)"
  then have "n < 8 \<or> 8 \<le> n \<and> n < 16" by auto
  then show "bit (ENET_NET_TO_HOST_16 (ENET_HOST_TO_NET_16 v)) n = bit v n"
    by (elim disjE) (simp_all add: ENET_NET_TO_HOST_16_def ENET_HOST_TO_NET_16_def bit_simps not_less)
qed

lemma enet_byte_order_32: "ENET_NET_TO_HOST_32 (ENET_HOST_TO_NET_32 v) = v"
proof (rule bit_word_eqI)
  fix n assume "n < LENGTH(32)"
  then have "n < 8 \<or> 8 \<le> n \<and> n < 16 \<or> 16 \<le> n \<and> n < 24 \<or> 24 \<le> n \<and> n < 32" by auto
  then show "bit (ENET_NET_TO_HOST_32 (ENET_HOST_TO_NET_32 v)) n = bit v n"
    by (elim disjE conjE)
       (auto simp: ENET_NET_TO_HOST_32_def ENET_HOST_TO_NET_32_def bit_simps not_less less_diff_conv2 le_diff_conv2)
qed

end
