(* ===== verification/Spec2Isabelle.thy ===== *)
theory Spec2Isabelle
  imports Aggregate_Run Aggregate_Bench Own_Run Leaf_Run Root_Results Tree_Result Shutdown Cleanup System Wiring Program
    Uthash_Map Uthash_Sort Uthash_More Uthash_Murmur Dill Dill_Insn Enet
begin

text \<open>
  A verification development for the monitoring library of this repository.

  The program. The processes of an MPI program form a tree: the children of rank \<open>r\<close> are the ranks
  \<open>r * max_degree + 1\<close> to \<open>r * max_degree + max_degree\<close> below the number of processes. Every process measures
  metrics (custom functions of storage.c or PAPI counters) that a file of aliases names. A leaf measures
  in a thread, once per pulse, and submits an event to EVPath; the bridge stone of a process ends at the split
  stone of its parent. There the event goes to a terminal stone, whose handler submits the node's own event
  when all children's events of a pulse have come, and to a multi stone, on which a program in the language COD
  (a string in cod.h) folds the events of a pulse into one and submits it upwards. At the root a terminal handler
  stores minimum, maximum and average for the monitored program. With BENCHMARKING defined the events carry
  start times and the results go to a file; both builds are modelled.

  Conventions. A fallible computation is an \<open>'a res = c_error + 'a\<close> of theory Prelude: overflow of int and long,
  reads of uninitialised variables, NULL dereferences, accesses out of bounds and exit are values. Ints and
  longs of the C code that are only added and compared are integers checked against their range; the longs
  that COD reads as doubles, hash values, keys and counters that wrap are words. MPI, EVPath, PAPI and the file system
  are parameters: their results are arguments of the definitions, and what the code relies on is stated
  in the hypotheses of the theorems (\<open>event_queue\<close>, \<open>evpath_ok\<close>, \<open>ev_sane\<close>, \<open>env_ok\<close>, \<open>process_ok\<close>).

  The theories, in the order of the program's layers:

  Prelude: errors, the sequencing operator, checked arithmetic, arrays. Doubles: IEEE binary64 on bit patterns,
  with addition, comparison, conversion and division, and their exactness on small integers.

  Topology (helpers.c): \<open>is_leaf\<close>, \<open>get_parent\<close>, \<open>get_degree_node\<close>, \<open>send_addr_to_children\<close>,
  \<open>recv_addr_from_parent\<close>, and the lemmas that they compute the tree, whose subtrees partition the ranks.

  Messages (metrics_aggregator.h, metrics_aggregator.c, include/fm.h): the message structs, the field tables and
  the arithmetic that follows from a declared field type; the locale \<open>exact_arith\<close> bounds the range in which it
  agrees with the integers, and is interpreted for longs and doubles.

  Aggregate (cod.h): the COD program, over any queue with the laws of the locale \<open>event_queue\<close>; its goto is a loop
  with fuel \<open>length + 2\<close>, as a pass that jumps back has taken an event. Aggregate_Run: the invariant of the program
  over all interleavings, safety and progress, and what an aggregate says. Aggregate_Bench: the program of the other build,
  equivalent to the first one. Tree_Result: the program at every inner rank, composed along the tree up to the root.

  Uthash, Linked_Lists, Uthash_Inv, Uthash_Ops (uthash.h): the pointer structure of the hash table with insertion,
  expansion, deletion, lookup, iteration and the integrity check, the invariant, and that every operation keeps it;
  Uthash_Hash and Uthash_Murmur: the hash functions; Uthash_Sort: the in-place merge sort, with fuel from the
  number of addresses in use, shown to suffice; Uthash_More: the convenience macros, the Bloom filter and HASH_SELECT;
  Uthash_Map: the table refines an association list, as long as its 32-bit counters do not overflow (\<open>roomy\<close>). Keyed_Store: the locale \<open>keyed_store\<close>, the
  interface through which the program uses its two tables, with the interpretation \<open>uth\<close> on the operations of
  uthash.h; the locales \<open>callback_store\<close> (Storage) and \<open>ts_store\<close> (Own_Run) extend it. The interface holds
  as long as a table has at most 9 elements, so that it does not expand; the general invariant has no such bound.

  Storage (storage.c), Metric_Type (metric_type.c), Crawler (metrics_crawler.c): the custom metrics, the computation of
  the values and the reading of the aliases file. Aggregator_State: the state of a process, its initialisation
  and destruction (metrics_aggregator.c).

  Inner_Node and Own_Run (metrics_aggregator.c): \<open>compute_own_metrics\<close> and its runs over all interleavings. The handler's
  lookup reads four bytes behind its counter; they are an argument of the definitions, and the properties of its runs assume that
  they are zero. So that the table of pulses stays at 9 entries they also assume that no child is 9 pulses ahead of another.
  Leaf and Leaf_Run: the thread of a leaf, with fuel for its unbounded loop; it ends if and only if the flag is raised,
  and then two more than the number of pulses is enough. Root_Results: \<open>final_result\<close>, \<open>return_results\<close>,
  \<open>monitoring_file_updated\<close> and the wait of \<open>monitoring_finalize\<close>. Shutdown: the quit flag on its way from the
  leaves through the tree to that wait, with the runs in which it arrives and those in which it is lost; Cleanup: the
  destruction after the aliases have been read again. Own_Count: the number of metrics of a node's own events, and their values.

  System: the leaf threads, the handlers, the aggregation programs and the root process joined; the only inputs are what
  the ranks are started with, the bytes behind their counters included, and a history of the order in which events reach the
  stones. The fuel of the leaf threads is two more than the pulse in which they are told to finish. Its properties assume one
  number of metrics for all readings of the aliases files and one last pulse for all leaves. A program of one
  process is the case in which the handler is never called.

  Stones, Bootstrap, Bootstrap_Run, Wiring (evp_monitoring.c, metrics_aggregator.c): the stones of a process, the start-up
  of all processes as a step relation with blocking sends, its progress, and the network it leaves. Program
  (evp_monitoring.c, test.c): the results file and the driver.

  Dill_Tables, Dill, Dill_Insn (include/dill.h): the instruction macros of the code generator under COD as calls of the
  back end's tables, and its virtual instructions in memory. C_Layout, Enet (include/enet): C structs in memory, and the
  wire format, times, byte order, lists and structs of the transport library.

  What the lemmas show. Each component has an invariant that its operations keep and its behaviour on every branch;
  the properties state, from the whole to the parts: the whole program neither fails nor hangs under the stated conditions, which are premises of the theorems and not parts of
  the definition of a run;
  the root's results are those of all ranks and none is withheld;
  the aggregation, the handlers and the leaf threads are right under every interleaving; the start-up never
  blocks and wires the tree; results and flags reach the monitored program; the hash table is an association list,
  sorting and Bloom filter included; files, addresses, names and wire formats are read back as written; and the cases
  in which the code does not do this, each with a concrete run.

  Not modelled. EVPath, COD, FFS, ATL, ECho and PDS are installed headers of prebuilt libraries, which declare functions
  whose bodies are not in the repository: they are parameters. PAPI and MPI likewise. No header says in which order EVPath queues the two
  copies that the split action makes of an event, one of which the handler answers with the node's own event: a run of the tree
  allows every order (\<open>tree_run\<close>), the safety of the aggregation holds in all of them, and progress asks for \<open>child_first\<close>, own events
  behind those of the children, at one inner rank at most (\<open>last_inner_leaves\<close>); \<open>own_first_stalls\<close> shows why. The order of arrivals that lets
  the aggregation keep up (\<open>keeps_up\<close>) is a hypothesis of progress, too, and \<open>keeps_up_needed\<close> is a run without it. Locks and condition variables appear as the order of the steps they protect. Printing of diagnostics, the
  size of the C stack and memory exhaustion are left out, except where the code checks for them. The functions of
  ENet that change hosts and peers are only declared, so of them only the data is modelled. Build scripts, input files and binaries hold no logic.
\<close>

end
